(* ===== verification/Goblin_Prelude.thy ===== *)
theory Goblin_Prelude
  imports Main "HOL-Library.Word"
begin

text \<open>
  Shared vocabulary of the Goblin Core development.

  A \<open>std::string\<close> or \<open>std::string_view\<close> of the sources is a \<^typ>\<open>string\<close> (a list of
  bytes, \<^typ>\<open>char\<close> has 256 values), \<open>std::size_t\<close> is \<^typ>\<open>nat\<close>, a \<open>std::uint64_t\<close> whose
  wrap-around matters is a \<open>64 word\<close>. An integer that the sources copy into a buffer with
  \<open>memcpy\<close> is laid out little-endian by \<open>le_bytes\<close> and read back by \<open>le_value\<close>; the big-endian
  loops of the string encoder use \<open>be_bytes\<close> and \<open>be_value\<close>. A region of memory is the list of
  its bytes, \<open>substr\<close> reads from it and \<open>overwrite\<close> is \<open>memcpy\<close> into it.
\<close>

type_synonym u64 = "64 word"

named_theorems byte_simps \<open>layout of integers and records in byte buffers\<close>
named_theorems mem_simps \<open>reading a buffer back after writing to it\<close>

text \<open>\<open>ord c\<close> is \<open>static_cast<unsigned char>(c)\<close>, \<open>chr n\<close> is \<open>static_cast<char>(n)\<close> (which keeps
  the low eight bits).\<close>

abbreviation ord :: "char \<Rightarrow> nat" where
  "ord c \<equiv> of_char c"

abbreviation chr :: "nat \<Rightarrow> char" where
  "chr n \<equiv> char_of n"

abbreviation CR :: char where
  "CR \<equiv> CHR 0x0D"

abbreviation LF :: char where
  "LF \<equiv> CHR 0x0A"

abbreviation crlf :: string where
  "crlf \<equiv> [CR, LF]"

lemma ord_less_256 [simp]: "ord c < 256"
  by (metis mod_less_divisor of_char_mod_256 zero_less_numeral)

lemma ord_le_255 [simp]: "ord c \<le> 255"
  using ord_less_256 [of c] by linarith

lemma chr_ord_eq [simp]: "chr (ord c) = c"
  by simp

lemma ord_inject [simp]: "ord c = ord d \<longleftrightarrow> c = d"
  by (metis chr_ord_eq)

section \<open>Integers in memory\<close>

fun le_bytes :: "nat \<Rightarrow> nat \<Rightarrow> string" where
  "le_bytes 0 n = []"
| "le_bytes (Suc k) n = chr n # le_bytes k (n div 256)"

fun le_value :: "string \<Rightarrow> nat" where
  "le_value [] = 0"
| "le_value (c # cs) = ord c + 256 * le_value cs"

definition be_bytes :: "nat \<Rightarrow> nat \<Rightarrow> string" where
  "be_bytes k n = rev (le_bytes k n)"

definition be_value :: "string \<Rightarrow> nat" where
  "be_value s = foldl (\<lambda>v c. v * 256 + ord c) 0 s"

lemma length_le_bytes [simp]: "length (le_bytes k n) = k"
  by (induction k arbitrary: n) auto

lemma length_be_bytes [simp]: "length (be_bytes k n) = k"
  by (simp add: be_bytes_def)

lemma le_value_le_bytes [simp]: "le_value (le_bytes k n) = n mod 256 ^ k"
proof (induction k arbitrary: n)
  case (Suc k)
  have "n mod (256 * 256 ^ k) = 256 * (n div 256 mod 256 ^ k) + n mod 256"
    by (rule mod_mult2_eq)
  with Suc show ?case by simp
qed simp

lemma le_value_bound: "le_value s < 256 ^ length s"
proof (induction s)
  case (Cons c s)
  have "ord c + 256 * le_value s < 256 * (le_value s + 1)"
    using ord_less_256 [of c] by simp
  also have "\<dots> \<le> 256 * 256 ^ length s"
    using Cons by (intro mult_left_mono) auto
  finally show ?case by simp
qed simp

lemma chr_add_256 [simp]: "chr (n + 256 * m) = chr n"
  by (rule char_of_eq_iff [THEN iffD2]) (simp add: take_bit_eq_mod)

lemma le_bytes_le_value: "le_bytes (length s) (le_value s) = s"
  by (induction s) auto

lemma be_value_foldl: "foldl (\<lambda>v c. v * 256 + ord c) a s = a * 256 ^ length s + be_value s"
proof (induction s arbitrary: a)
  case (Cons c s)
  from Cons [of "a * 256 + ord c"] Cons [of "ord c"] show ?case
    by (simp add: be_value_def algebra_simps)
qed (simp add: be_value_def)

lemma be_value_append: "be_value (s @ [c]) = be_value s * 256 + ord c"
  by (simp add: be_value_def)

lemma be_value_rev: "be_value (rev s) = le_value s"
  by (induction s) (auto simp: be_value_append, simp add: be_value_def)

lemma be_value_be_bytes [simp]: "be_value (be_bytes k n) = n mod 256 ^ k"
  by (simp add: be_bytes_def be_value_rev)

lemma be_value_bound: "be_value s < 256 ^ length s"
  using le_value_bound [of "rev s"] be_value_rev [of "rev s"] by simp

section \<open>Memory\<close>

text \<open>\<open>substr m off n\<close> is the \<open>std::string_view(m + off, n)\<close> of a buffer, \<open>overwrite m off d\<close> the
  buffer after \<open>memcpy(m + off, d.data(), d.size())\<close>.\<close>

definition substr :: "'a list \<Rightarrow> nat \<Rightarrow> nat \<Rightarrow> 'a list" where
  "substr m off n = take n (drop off m)"

definition overwrite :: "'a list \<Rightarrow> nat \<Rightarrow> 'a list \<Rightarrow> 'a list" where
  "overwrite m off d = take off m @ d @ drop (off + length d) m"

lemma length_substr [mem_simps]: "off + n \<le> length m \<Longrightarrow> length (substr m off n) = n"
  by (simp add: substr_def)

lemma length_overwrite [mem_simps]:
  "off + length d \<le> length m \<Longrightarrow> length (overwrite m off d) = length m"
  by (simp add: overwrite_def)

lemma substr_overwrite_same [mem_simps]:
  "off + length d \<le> length m \<Longrightarrow> n = length d \<Longrightarrow> substr (overwrite m off d) off n = d"
  by (simp add: substr_def overwrite_def)

lemma substr_overwrite_before:
  "off' + n \<le> off \<Longrightarrow> off + length d \<le> length m \<Longrightarrow> substr (overwrite m off d) off' n = substr m off' n"
  by (simp add: substr_def overwrite_def drop_take)

lemma substr_overwrite_after:
  "off + length d \<le> off' \<Longrightarrow> off + length d \<le> length m \<Longrightarrow>
   substr (overwrite m off d) off' n = substr m off' n"
  by (simp add: substr_def overwrite_def)

lemma substr_all: "substr m 0 (length m) = m"
  by (simp add: substr_def)

lemma substr_append_left: "off + n \<le> length a \<Longrightarrow> substr (a @ b) off n = substr a off n"
  by (simp add: substr_def)

lemma substr_append_right: "length a \<le> off \<Longrightarrow> substr (a @ b) off n = substr b (off - length a) n"
  by (simp add: substr_def)

lemma substr_append_mid [simp]: "substr (a @ b @ c) (length a) (length b) = b"
  by (simp add: substr_def)

lemma substr_substr: "i + k \<le> n \<Longrightarrow> substr (substr m off n) i k = substr m (off + i) k"
  by (simp add: substr_def drop_take min_def add.commute)

lemma nth_substr: "i < n \<Longrightarrow> off + n \<le> length m \<Longrightarrow> substr m off n ! i = m ! (off + i)"
  by (simp add: substr_def)

lemma option_eq_Some_I: "(\<And>k. a = Some k \<longleftrightarrow> b = Some k) \<Longrightarrow> a = b"
  by (cases a; cases b) auto

end
