(* ===== verification/Fifo.thy ===== *)
theory Fifo
  imports Goblin_Prelude
begin

text \<open>
  The queue interfaces of the program. Three components hand items over in the order they were put
  in: the request parser (commands), the unsolicited-output queue of a connection (frames) and the
  shared-memory ring (records). A \<open>fifo_source\<close> is a component that can be popped; \<open>fifo_queue\<close> adds
  the operation that puts one item in and may refuse it. The consumer loop \<open>drain\<close> is proved once here.
\<close>

fun drain :: "('s \<Rightarrow> 'a option \<times> 's) \<Rightarrow> nat \<Rightarrow> 's \<Rightarrow> 'a list \<times> 's" where
  "drain pop 0 s = ([], s)"
| "drain pop (Suc n) s =
     (case pop s of
        (None, s') \<Rightarrow> ([], s')
      | (Some x, s') \<Rightarrow> (case drain pop n s' of (xs, t) \<Rightarrow> (x # xs, t)))"

fun put_all :: "('s \<Rightarrow> 'a \<Rightarrow> 's option) \<Rightarrow> 's \<Rightarrow> 'a list \<Rightarrow> 's option" where
  "put_all put s [] = Some s"
| "put_all put s (x # xs) = (case put s x of None \<Rightarrow> None | Some s' \<Rightarrow> put_all put s' xs)"

locale fifo_source =
  fixes pop :: "'s \<Rightarrow> 'a option \<times> 's"
    and items :: "'s \<Rightarrow> 'a list"
    and inv :: "'s \<Rightarrow> bool"
  assumes pop_inv: "inv s \<Longrightarrow> inv (snd (pop s))"
    and pop_Some: "inv s \<Longrightarrow> pop s = (Some x, s') \<Longrightarrow> items s = x # items s'"
    and pop_None: "inv s \<Longrightarrow> pop s = (None, s') \<Longrightarrow> items s = [] \<and> items s' = []"
begin

lemma drain_split:
  "inv s \<Longrightarrow> drain pop n s = (xs, t) \<Longrightarrow> inv t \<and> items s = xs @ items t"
proof (induction n arbitrary: s xs)
  case (Suc n)
  obtain r s' where p: "pop s = (r, s')" by fastforce
  with Suc.prems(1) pop_inv [of s] have i: "inv s'" by simp
  show ?case
  proof (cases r)
    case None
    with Suc.prems p i pop_None [of s s'] show ?thesis by auto
  next
    case (Some x)
    obtain ys u where "drain pop n s' = (ys, u)" by fastforce
    with Suc p i Some pop_Some [of s x s'] show ?thesis by fastforce
  qed
qed simp

lemma drain_all:
  "inv s \<Longrightarrow> length (items s) \<le> n \<Longrightarrow> fst (drain pop n s) = items s \<and> items (snd (drain pop n s)) = []"
proof (induction n arbitrary: s)
  case (Suc n)
  obtain r s' where p: "pop s = (r, s')" by fastforce
  with Suc.prems(1) pop_inv [of s] have i: "inv s'" by simp
  show ?case
  proof (cases r)
    case None
    with Suc.prems p pop_None [of s s'] show ?thesis by auto
  next
    case (Some x)
    with Suc p i pop_Some [of s x s'] show ?thesis by (auto split: prod.split) fastforce+
  qed
qed simp

end

locale fifo_queue = fifo_source +
  fixes put :: "'s \<Rightarrow> 'a \<Rightarrow> 's option"
  assumes put_inv: "inv s \<Longrightarrow> put s x = Some s' \<Longrightarrow> inv s'"
    and put_items: "inv s \<Longrightarrow> put s x = Some s' \<Longrightarrow> items s' = items s @ [x]"
begin

lemma put_all_items: "inv s \<Longrightarrow> put_all put s xs = Some t \<Longrightarrow> inv t \<and> items t = items s @ xs"
proof (induction xs arbitrary: s)
  case (Cons x xs)
  then obtain s' where s': "put s x = Some s'" "put_all put s' xs = Some t"
    by (auto split: option.splits)
  with Cons put_inv put_items show ?case by fastforce
qed simp

lemma put_all_drain:
  assumes "inv s" and "items s = []" and "put_all put s xs = Some t" and "length xs \<le> n"
  shows "fst (drain pop n t) = xs"
  using put_all_items [OF assms(1,3)] drain_all [of t n] assms by simp

end

end
