(* ===== verification/Swar_Digits.thy ===== *)
theory Swar_Digits
  imports Goblin_Prelude
begin

unbundle bit_operations_syntax

text \<open>
  Eight decimal digits at a time (\<open>third_party/fast_float/ascii_number.h\<close>): the digit test and the
  conversion that work on all eight bytes of a \<open>std::uint64_t\<close> at once, by the carries and masks of
  64-bit arithmetic, and the proof that they decide and compute what a loop over the bytes would.
\<close>

definition is_digit :: "char \<Rightarrow> bool" where
  "is_digit c \<longleftrightarrow> 48 \<le> ord c \<and> ord c \<le> 57"

definition read8_to_u64 :: "string \<Rightarrow> u64" where
  "read8_to_u64 p = of_nat (le_value (take 8 p))"

definition is_made_of_eight_digits_fast :: "u64 \<Rightarrow> bool" where
  "is_made_of_eight_digits_fast val \<longleftrightarrow>
     ((val + 0x4646464646464646) OR (val - 0x3030303030303030)) AND 0x8080808080808080 = 0"

definition parse_eight_digits_unrolled :: "u64 \<Rightarrow> u64" where
  "parse_eight_digits_unrolled val =
     (let mask = 0x000000FF000000FF;
          mul1 = 0x000F424000000064;
          mul2 = 0x0000271000000001;
          val1 = val - 0x3030303030303030;
          val2 = val1 * 10 + drop_bit 8 val1;
          val3 = drop_bit 32 ((val2 AND mask) * mul1 + (drop_bit 16 val2 AND mask) * mul2)
      in take_bit 32 val3)"

section \<open>The digit test\<close>

fun high_bits_clear :: "nat \<Rightarrow> int \<Rightarrow> bool" where
  "high_bits_clear 0 x \<longleftrightarrow> True"
| "high_bits_clear (Suc n) x \<longleftrightarrow> \<not> bit x 7 \<and> high_bits_clear n (x div 256)"

fun ones256 :: "nat \<Rightarrow> int" where
  "ones256 0 = 0"
| "ones256 (Suc n) = 1 + 256 * ones256 n"

lemma high_bits_clear_iff: "high_bits_clear n x \<longleftrightarrow> (\<forall>k<n. \<not> bit x (8 * k + 7))"
proof (induction n arbitrary: x)
  case (Suc n)
  have "bit (x div 256) (8 * k + 7) \<longleftrightarrow> bit x (8 * Suc k + 7)" for k
    using bit_drop_bit_eq [of 8 x] by (simp add: drop_bit_eq_div fun_eq_iff add.assoc)
  with Suc show ?case by (auto simp: less_Suc_eq_0_disj)
qed simp

lemma bit_byte:
  assumes "0 \<le> a" "a < 256"
  shows "bit (a + 256 * y :: int) j \<longleftrightarrow> (if j < 8 then bit a j else bit y (j - 8))"
proof -
  have "take_bit 8 (a + 256 * y) = a" using assms by (simp add: take_bit_eq_mod)
  moreover have "drop_bit 8 (a + 256 * y) = y" using assms by (simp add: drop_bit_eq_div)
  ultimately show ?thesis
    using bit_take_bit_iff [of 8 "a + 256 * y" j] bit_drop_bit_eq [of 8 "a + 256 * y"]
    by (auto simp: fun_eq_iff)
qed

lemma bit7_mod: "bit (x :: int) 7 \<longleftrightarrow> 128 \<le> x mod 256"
proof -
  define q r where "q = x div 256" and "r = x mod 256"
  have x: "x = r + (2 * q) * 128" and r: "0 \<le> r" "r < 256" by (simp_all add: q_def r_def)
  have "x div 128 = 2 * q + r div 128" unfolding x by simp
  moreover have "r div 128 = (if r < 128 then 0 else 1)"
  proof (cases "r < 128")
    case False
    then have "r div 128 = (r - 128) div 128 + 1" by (simp add: div_pos_geq)
    with False r show ?thesis by simp
  qed (use r in simp)
  ultimately show ?thesis by (simp add: bit_iff_odd r_def)
qed

lemma high_bits_clear_low:
  "0 \<le> a \<Longrightarrow> a < 128 \<Longrightarrow> high_bits_clear (Suc n) (a + 256 * y) = high_bits_clear n y"
  by (simp add: bit7_mod)

lemma high_bits_clear_high: "128 \<le> a mod 256 \<Longrightarrow> \<not> high_bits_clear (Suc n) (a + 256 * y)"
  by (simp add: bit7_mod)

lemma nondigit_high:
  assumes "0 \<le> b" "b < 256" "\<not> (48 \<le> b \<and> b \<le> 57)"
  shows "128 \<le> (b + 0x46) mod 256 \<or> 128 \<le> (b - 0x30 :: int) mod 256"
proof -
  consider "b < 48" | "57 < b \<and> b < 186" | "186 \<le> b" using assms(3) by linarith
  then show ?thesis
  proof cases
    case 1
    have "(b - 48) mod 256 = (b - 48 + 256) mod 256" by (rule mod_add_self2 [symmetric])
    with 1 assms show ?thesis by simp
  next
    case 2
    with assms show ?thesis by simp
  next
    case 3
    with assms show ?thesis by simp
  qed
qed

lemma high_bits_clear_digits:
  "high_bits_clear (length bs) (int (le_value bs) + 0x46 * ones256 (length bs)) \<and>
   high_bits_clear (length bs) (int (le_value bs) - 0x30 * ones256 (length bs)) \<longleftrightarrow> list_all is_digit bs"
proof (induction bs)
  case (Cons c bs)
  define b where "b = int (ord c)"
  have b: "0 \<le> b" "b < 256" using ord_less_256 [of c] by (simp_all add: b_def)
  define s d where "s = int (le_value bs) + 0x46 * ones256 (length bs)"
    and "d = int (le_value bs) - 0x30 * ones256 (length bs)"
  have sd: "int (le_value (c # bs)) + 0x46 * ones256 (length (c # bs)) = (b + 0x46) + 256 * s"
    "int (le_value (c # bs)) - 0x30 * ones256 (length (c # bs)) = (b - 0x30) + 256 * d"
    by (simp_all add: b_def s_def d_def algebra_simps)
  have dig: "is_digit c \<longleftrightarrow> 48 \<le> b \<and> b \<le> 57" by (simp add: is_digit_def b_def)
  show ?case
  proof (cases "is_digit c")
    case True
    with dig have "0 \<le> b + 0x46" "b + 0x46 < 128" "0 \<le> b - 0x30" "b - 0x30 < 128" by auto
    with Cons True show ?thesis
      unfolding sd
      by (simp only: list.size add_Suc_right add_0_right high_bits_clear_low s_def d_def list.pred_inject(2) simp_thms)
  next
    case False
    with dig b have "128 \<le> (b + 0x46) mod 256 \<or> 128 \<le> (b - 0x30) mod 256" 
      using nondigit_high by blast
    with False high_bits_clear_high show ?thesis
      unfolding sd by (auto simp only: list.size add_Suc_right add_0_right list.pred_inject(2) high_bits_clear_high)
  qed
qed simp

lemma bit_mask80: "bit (0x80 * ones256 n) j \<longleftrightarrow> (\<exists>k<n. j = 8 * k + 7)"
proof (induction n arbitrary: j)
  case (Suc n)
  have "bit (128 :: int) j \<longleftrightarrow> j = 7" for j
    using bit_exp_iff [of 7 j, where 'a = int] by simp
  then have "bit (0x80 * ones256 (Suc n)) j \<longleftrightarrow> (if j < 8 then j = 7 else bit (0x80 * ones256 n) (j - 8))"
    using bit_byte [of 128 "0x80 * ones256 n" j] by (simp add: algebra_simps)
  also have "\<dots> \<longleftrightarrow> (\<exists>k<Suc n. j = 8 * k + 7)"
    unfolding Suc by (auto simp: less_Suc_eq_0_disj)
  finally show ?case .
qed simp

lemma mask80_clear: "x AND 0x80 * ones256 n = 0 \<longleftrightarrow> high_bits_clear n x"
proof -
  have "x AND 0x80 * ones256 n = 0 \<longleftrightarrow> (\<forall>j. \<not> (bit x j \<and> bit (0x80 * ones256 n) j))"
    by (simp only: bit_eq_iff bit_and_iff bit_0_eq bot_apply bot_bool_def possible_bit_int simp_thms)
  then show ?thesis unfolding high_bits_clear_iff bit_mask80 by auto
qed

lemma high_bits_clear_or: "high_bits_clear n (x OR y) \<longleftrightarrow> high_bits_clear n x \<and> high_bits_clear n y"
  by (auto simp: high_bits_clear_iff bit_or_iff)

lemma high_bits_clear_take: "8 * n \<le> m \<Longrightarrow> high_bits_clear n (take_bit m x) = high_bits_clear n x"
  by (auto simp: high_bits_clear_iff bit_take_bit_iff)

lemma ones256_8: "ones256 8 = 0x0101010101010101"
  by (simp add: eval_nat_numeral)

lemma is_made_of_eight_digits_fast_digits:
  assumes "8 \<le> length p"
  shows "is_made_of_eight_digits_fast (read8_to_u64 p) \<longleftrightarrow> list_all is_digit (take 8 p)"
proof -
  define v where "v = int (le_value (take 8 p))"
  define w where "w = read8_to_u64 p"
  have l: "length (take 8 p) = 8" using assms by simp
  have w: "w = of_int v" by (simp add: w_def v_def read8_to_u64_def)
  have u: "uint (of_int z :: u64) = take_bit 64 z" for z
    by (simp add: unsigned_of_int)
  have "w + 0x4646464646464646 = of_int (v + 0x4646464646464646)"
    "w - 0x3030303030303030 = of_int (v - 0x3030303030303030)"
    "(0x8080808080808080 :: u64) = of_int 0x8080808080808080"
    unfolding w by (simp_all only: of_int_add of_int_diff of_int_numeral)
  then have "uint (((w + 0x4646464646464646) OR (w - 0x3030303030303030)) AND 0x8080808080808080) =
      (take_bit 64 (v + 0x4646464646464646) OR take_bit 64 (v - 0x3030303030303030)) AND take_bit 64 0x8080808080808080"
    by (simp only: unsigned_or_eq unsigned_and_eq u)
  also have "take_bit 64 (0x8080808080808080 :: int) = 0x8080808080808080"
    by (simp add: take_bit_eq_mod)
  finally have "is_made_of_eight_digits_fast w \<longleftrightarrow>
    (take_bit 64 (v + 0x4646464646464646) OR take_bit 64 (v - 0x3030303030303030)) AND 0x8080808080808080 = 0"
    unfolding is_made_of_eight_digits_fast_def by (metis unsigned_eq_0_iff)
  also have "\<dots> \<longleftrightarrow> high_bits_clear 8 (v + 0x46 * ones256 8) \<and> high_bits_clear 8 (v - 0x30 * ones256 8)"
    using mask80_clear [of _ 8] by (simp add: ones256_8 high_bits_clear_or high_bits_clear_take)
  also have "\<dots> \<longleftrightarrow> list_all is_digit (take 8 p)"
    using high_bits_clear_digits [of "take 8 p"] unfolding l v_def .
  finally show ?thesis by (simp add: w_def)
qed

section \<open>The conversion\<close>

lemma unat_of_nat_less: "x < 2 ^ 64 \<Longrightarrow> unat (of_nat x :: u64) = x"
  by (simp add: unsigned_of_nat take_bit_nat_eq_self)

lemma drop_bit_word: "x < 2 ^ 64 \<Longrightarrow> drop_bit n (of_nat x :: u64) = of_nat (x div 2 ^ n)"
proof -
  assume x: "x < 2 ^ 64"
  then have "x div 2 ^ n < 2 ^ 64" using div_le_dividend [of x "2 ^ n"] by (rule order.strict_trans1 [rotated])
  then have "unat (of_nat (x div 2 ^ n) :: u64) = x div 2 ^ n" by (rule unat_of_nat_less)
  moreover have "unat (drop_bit n (of_nat x :: u64)) = x div 2 ^ n"
    unfolding unsigned_drop_bit_eq unat_of_nat_less [OF x]
    using x by (simp add: drop_bit_eq_div take_bit_nat_eq_self)
  ultimately show ?thesis by (metis unsigned_word_eqI)
qed

lemma two_bytes_and:
  "(x :: nat) AND 0xFF000000FF = x mod 256 + 2 ^ 32 * (x div 2 ^ 32 mod 256)"
proof -
  have m: "(0xFF000000FF :: nat) = mask 8 OR push_bit 32 (mask 8)"
    by (simp add: mask_eq_exp_minus_1 push_bit_eq_mult)
  have "x AND 0xFF000000FF = take_bit 8 x OR push_bit 32 (take_bit 8 (drop_bit 32 x))"
    unfolding m
    by (rule bit_eqI)
      (auto simp: bit_and_iff bit_or_iff bit_push_bit_iff bit_take_bit_iff bit_mask_iff bit_drop_bit_eq)
  also have "\<dots> = take_bit 8 x + push_bit 32 (take_bit 8 (drop_bit 32 x))"
    by (rule disjunctive_add [symmetric])
      (auto simp: bit_push_bit_iff bit_take_bit_iff)
  finally show ?thesis by (simp add: take_bit_eq_mod push_bit_eq_mult drop_bit_eq_div)
qed

lemma two_bytes_word:
  "(of_nat x :: u64) AND 0xFF000000FF = of_nat (x mod 256 + 2 ^ 32 * (x div 2 ^ 32 mod 256))"
  using of_nat_and_eq [of x "0xFF000000FF", where 'a = u64] unfolding two_bytes_and by simp

lemma byte_div: "(a :: nat) < 256 \<Longrightarrow> (a + 256 * y) div 256 = y"
  by simp

lemma byte_mod: "(a :: nat) < 256 \<Longrightarrow> (a + 256 * y) mod 256 = a"
  by simp

lemma div_bytes: "(x :: nat) div 2 ^ 16 = x div 256 div 256" "x div 2 ^ 32 = x div 256 div 256 div 256 div 256"
  by (simp_all add: div_mult2_eq [symmetric])

fun byte_sum :: "nat list \<Rightarrow> nat" where
  "byte_sum [] = 0"
| "byte_sum (a # as) = a + 256 * byte_sum as"

lemma byte_sum_bound: "list_all (\<lambda>a. a < 256) as \<Longrightarrow> byte_sum as < 256 ^ length as"
proof (induction as)
  case (Cons a as)
  then have "a + 256 * byte_sum as < 256 * (byte_sum as + 1)" by simp
  also have "\<dots> \<le> 256 * 256 ^ length as" using Cons by (intro mult_left_mono) auto
  finally show ?case by simp
qed simp

lemma take_bit_32_word: "x < 2 ^ 32 \<Longrightarrow> take_bit 32 (of_nat x :: u64) = of_nat x"
  by (simp add: take_bit_of_nat take_bit_nat_eq_self)

lemma swar_multiply:
  assumes e: "e0 < 100" "e2 < 100" "e4 < 100" "e6 < (100 :: nat)"
  shows "drop_bit 32 (of_nat (e0 + 2 ^ 32 * e4) * 0x000F424000000064 +
      of_nat (e2 + 2 ^ 32 * e6) * 0x0000271000000001 :: u64) =
    of_nat (1000000 * e0 + 10000 * e2 + 100 * e4 + e6)"
proof -
  define lo hi where "lo = 100 * e0 + e2" and "hi = 1000000 * e0 + 10000 * e2 + 100 * e4 + e6"
  have b: "lo < 2 ^ 32" "lo + 2 ^ 32 * hi < 2 ^ 64" using e by (simp_all add: lo_def hi_def)
  have "of_nat (e0 + 2 ^ 32 * e4) * 0x000F424000000064 + of_nat (e2 + 2 ^ 32 * e6) * 0x0000271000000001 =
      (of_nat ((e0 + 2 ^ 32 * e4) * 0x000F424000000064 + (e2 + 2 ^ 32 * e6) * 0x0000271000000001) :: u64)"
    by (simp only: of_nat_add of_nat_mult of_nat_numeral)
  also have "(e0 + 2 ^ 32 * e4) * 0x000F424000000064 + (e2 + 2 ^ 32 * e6) * 0x0000271000000001 =
      (lo + 2 ^ 32 * hi) + 2 ^ 64 * (1000000 * e4 + 10000 * e6)"
    by (simp add: lo_def hi_def algebra_simps)
  also have "(of_nat \<dots> :: u64) = of_nat (lo + 2 ^ 32 * hi)"
  proof -
    have "(of_nat (2 ^ 64) :: u64) = 0" by simp
    then show ?thesis by (simp only: of_nat_add [of "lo + _"] of_nat_mult [of "2 ^ 64"] mult_zero_left add_0_right)
  qed
  finally show ?thesis
    unfolding hi_def [symmetric] using b(1) by (simp only: drop_bit_word [OF b(2)] div_mult_self2 div_less) simp
qed

lemma parse_eight_digits_unrolled_value:
  assumes d: "d0 < 10" "d1 < 10" "d2 < 10" "d3 < 10" "d4 < 10" "d5 < 10" "d6 < 10" "d7 < (10 :: nat)"
    and w: "w = of_nat (byte_sum [48 + d0, 48 + d1, 48 + d2, 48 + d3, 48 + d4, 48 + d5, 48 + d6, 48 + d7])"
  shows "parse_eight_digits_unrolled w =
    of_nat (1000000 * (10 * d0 + d1) + 10000 * (10 * d2 + d3) + 100 * (10 * d4 + d5) + (10 * d6 + d7))"
proof -
  define V where "V = byte_sum [d0, d1, d2, d3, d4, d5, d6, d7]"
  define E where "E = byte_sum [10 * d0 + d1, 10 * d1 + d2, 10 * d2 + d3, 10 * d3 + d4, 10 * d4 + d5,
    10 * d5 + d6, 10 * d6 + d7, 10 * d7]"
  have V64: "V < 2 ^ 64" using byte_sum_bound [of "[d0, d1, d2, d3, d4, d5, d6, d7]"] d by (simp add: V_def)
  have E64: "E < 2 ^ 64"
    using byte_sum_bound [of "[10 * d0 + d1, 10 * d1 + d2, 10 * d2 + d3, 10 * d3 + d4, 10 * d4 + d5,
      10 * d5 + d6, 10 * d6 + d7, 10 * d7]"] d by (simp add: E_def)
  have "w = of_nat (V + 0x3030303030303030)" unfolding w V_def by (rule arg_cong [of _ _ of_nat]) simp
  then have v1: "w - 0x3030303030303030 = of_nat V" by simp
  have "V div 256 = byte_sum [d1, d2, d3, d4, d5, d6, d7]"
    unfolding V_def byte_sum.simps(2) [of d0] using d(1) by (intro byte_div) simp
  then have "V * 10 + V div 256 = E" unfolding V_def E_def by simp
  moreover have "drop_bit 8 (of_nat V :: u64) = of_nat (V div 256)" using drop_bit_word [OF V64, of 8] by simp
  ultimately have v2: "of_nat V * 10 + drop_bit 8 (of_nat V :: u64) = of_nat E"
    by (metis of_nat_add of_nat_mult of_nat_numeral)
  have E_parts: "E mod 256 = 10 * d0 + d1" "E div 2 ^ 32 mod 256 = 10 * d4 + d5"
    "E div 2 ^ 16 mod 256 = 10 * d2 + d3" "E div 2 ^ 16 div 2 ^ 32 mod 256 = 10 * d6 + d7"
    unfolding E_def div_bytes byte_sum.simps(2) using d by (simp_all only: byte_div byte_mod)
  have "E div 2 ^ 16 < 2 ^ 64" using E64 by simp
  then have v3: "drop_bit 16 (of_nat E :: u64) = of_nat (E div 2 ^ 16)" using drop_bit_word [OF E64] by simp
  define H where "H = 1000000 * (10 * d0 + d1) + 10000 * (10 * d2 + d3) + 100 * (10 * d4 + d5) + (10 * d6 + d7)"
  have "drop_bit 32 ((of_nat E AND 0xFF000000FF) * 0x000F424000000064 +
     (drop_bit 16 (of_nat E) AND 0xFF000000FF) * 0x0000271000000001 :: u64) = of_nat H"
    unfolding v3 two_bytes_word E_parts H_def using d by (intro swar_multiply) auto
  moreover have "H < 2 ^ 32" using d by (simp add: H_def)
  ultimately show ?thesis
    unfolding parse_eight_digits_unrolled_def Let_def v1 v2 H_def [symmetric]
    by (simp only: take_bit_32_word)
qed

end
