(* ===== verification/Parse_Int.thy ===== *)
theory Parse_Int
  imports Swar_Digits
begin

text \<open>
  Decimal text: \<open>include/goblin/core/parse_int.hpp\<close> on top of the vendored integer parser of
  fast_float (\<open>from_chars\<close>, base 10, for \<open>long long\<close> and \<open>std::uint64_t\<close>), and the printing side,
  \<open>std::to_chars\<close>. The accumulator of the parser is a \<open>64 word\<close>, so the wrap-around that its
  overflow test relies on is the program's own. The theorems say exactly which texts
  \<open>parse_i64\<close> and \<open>parse_u64\<close> accept and with which value.
\<close>

section \<open>fast_float: integers\<close>

datatype errc = Errc_ok | Invalid_argument | Result_out_of_range

definition ch_to_digit :: "char \<Rightarrow> nat" where
  "ch_to_digit c =
     (let n = ord c in
      if 48 \<le> n \<and> n \<le> 57 then n - 48
      else if 65 \<le> n \<and> n \<le> 90 then n - 55
      else if 97 \<le> n \<and> n \<le> 122 then n - 87
      else 255)"

function loop_parse_if_eight_digits :: "string \<Rightarrow> u64 \<Rightarrow> string \<times> u64" where
  "loop_parse_if_eight_digits p i =
     (if 8 \<le> length p \<and> is_made_of_eight_digits_fast (read8_to_u64 p)
      then loop_parse_if_eight_digits (drop 8 p)
             (i * 100000000 + parse_eight_digits_unrolled (read8_to_u64 p))
      else (p, i))"
  by pat_completeness auto
termination
  by (relation "measure (\<lambda>(p, i). length p)") auto

declare loop_parse_if_eight_digits.simps [simp del]

fun digit_loop :: "string \<Rightarrow> u64 \<Rightarrow> string \<times> u64" where
  "digit_loop [] i = ([], i)"
| "digit_loop (c # p) i =
     (if 10 \<le> ch_to_digit c then (c # p, i)
      else digit_loop p (10 * i + of_nat (ch_to_digit c)))"

definition max_digits_u64 :: nat where
  "max_digits_u64 = 20"

definition min_safe_u64 :: u64 where
  "min_safe_u64 = 10000000000000000000"

definition i64_max :: int where
  "i64_max = 9223372036854775807"

text \<open>The answer is the error code, the number of bytes consumed and the value stored (0 where
  none is: the callers initialise it so). \<open>is_signed\<close> says whether the target type is signed.\<close>

definition parse_int_string :: "bool \<Rightarrow> string \<Rightarrow> errc \<times> nat \<times> int" where
  "parse_int_string is_signed text =
     (let negative = (text \<noteq> [] \<and> hd text = CHR ''-'')
      in if \<not> is_signed \<and> negative then (Invalid_argument, 0, 0)
         else
           let start_num = (if negative then tl text else text);
               start_digits = dropWhile (\<lambda>c. c = CHR ''0'') start_num;
               has_leading_zeros = (length start_digits < length start_num);
               (p8, i8) = loop_parse_if_eight_digits start_digits 0;
               (p, i) = digit_loop p8 i8;
               digit_count = length start_digits - length p;
               ptr = length text - length p
           in if digit_count = 0 then
                (if has_leading_zeros then (Errc_ok, ptr, 0) else (Invalid_argument, 0, 0))
              else if digit_count > max_digits_u64 then (Result_out_of_range, ptr, 0)
              else if digit_count = max_digits_u64 \<and> i < min_safe_u64
                then (Result_out_of_range, ptr, 0)
              else if is_signed \<and> i > of_int i64_max + (if negative then 1 else 0)
                then (Result_out_of_range, ptr, 0)
              else (Errc_ok, ptr,
                    if negative then - i64_max - sint (i - of_int i64_max)
                    else uint i))"

definition from_chars :: "bool \<Rightarrow> string \<Rightarrow> errc \<times> nat \<times> int" where
  "from_chars is_signed text =
     (if text = [] then (Invalid_argument, 0, 0) else parse_int_string is_signed text)"

section \<open>parse_int.hpp\<close>

definition parse_i64 :: "string \<Rightarrow> int option" where
  "parse_i64 text =
     (if text = [] then None
      else let (ec, ptr, value) = from_chars True text
           in if ec \<noteq> Errc_ok \<or> ptr \<noteq> length text then None else Some value)"

definition parse_u64 :: "string \<Rightarrow> u64 option" where
  "parse_u64 text =
     (if text = [] then None
      else let (ec, ptr, value) = from_chars False text
           in if ec \<noteq> Errc_ok \<or> ptr \<noteq> length text then None else Some (of_int value))"

definition parse_canonical_u64 :: "string \<Rightarrow> u64 option" where
  "parse_canonical_u64 digits =
     (if digits = [] \<or> (length digits > 1 \<and> hd digits = CHR ''0'') then None
      else parse_u64 digits)"

section \<open>std::to_chars\<close>

definition digit_char :: "nat \<Rightarrow> char" where
  "digit_char d = chr (48 + d)"

fun to_chars_u :: "nat \<Rightarrow> string" where
  "to_chars_u n =
     (if n < 10 then [digit_char n] else to_chars_u (n div 10) @ [digit_char (n mod 10)])"

declare to_chars_u.simps [simp del]

definition to_chars_i :: "int \<Rightarrow> string" where
  "to_chars_i v = (if v < 0 then CHR ''-'' # to_chars_u (nat (- v)) else to_chars_u (nat v))"

section \<open>The number a text spells\<close>

definition dec_acc :: "nat \<Rightarrow> string \<Rightarrow> nat" where
  "dec_acc a s = foldl (\<lambda>v c. 10 * v + ch_to_digit c) a s"

abbreviation dec_value :: "string \<Rightarrow> nat" where
  "dec_value s \<equiv> dec_acc 0 s"

definition decimal_text :: "bool \<Rightarrow> string \<Rightarrow> int option" where
  "decimal_text is_signed text =
     (case text of
        [] \<Rightarrow> None
      | c # r \<Rightarrow>
          if c = CHR ''-''
          then (if is_signed \<and> r \<noteq> [] \<and> list_all is_digit r then Some (- int (dec_value r)) else None)
          else (if list_all is_digit text then Some (int (dec_value text)) else None))"

lemma dec_acc_simps [simp]:
  "dec_acc a [] = a" "dec_acc a (c # s) = dec_acc (10 * a + ch_to_digit c) s"
  by (simp_all add: dec_acc_def)

lemma dec_acc_append [simp]: "dec_acc a (s @ t) = dec_acc (dec_acc a s) t"
  by (simp add: dec_acc_def)

lemma dec_acc_eq: "dec_acc a s = a * 10 ^ length s + dec_value s"
proof (induction s arbitrary: a)
  case (Cons c s)
  from Cons [of "10 * a + ch_to_digit c"] Cons [of "ch_to_digit c"] show ?case
    by (simp add: algebra_simps)
qed simp

lemma ch_to_digit_lt_10: "ch_to_digit c < 10 \<longleftrightarrow> is_digit c"
  by (auto simp: ch_to_digit_def is_digit_def Let_def)

lemma is_digit_minus [simp]: "\<not> is_digit CHR ''-''"
  by (simp add: is_digit_def)

lemma is_digit_zero [simp]: "is_digit CHR ''0''"
  by (simp add: is_digit_def)

lemma ch_to_digit_zero [simp]: "ch_to_digit CHR ''0'' = 0"
  by (simp add: ch_to_digit_def)

lemma dec_value_bound: "list_all is_digit s \<Longrightarrow> dec_value s < 10 ^ length s"
proof (induction s)
  case (Cons c s)
  then have "ch_to_digit c \<le> 9" and "dec_value s < 10 ^ length s"
    using ch_to_digit_lt_10 [of c] by auto
  moreover from \<open>ch_to_digit c \<le> 9\<close> have "ch_to_digit c * 10 ^ length s \<le> 9 * 10 ^ length s"
    by (rule mult_right_mono) simp
  ultimately have "ch_to_digit c * 10 ^ length s + dec_value s < 10 * 10 ^ length s"
    by linarith
  then show ?case
    by (simp add: dec_acc_eq [of "ch_to_digit c"])
qed simp

lemma ch_to_digit_eq_0: "is_digit c \<Longrightarrow> ch_to_digit c = 0 \<longleftrightarrow> c = CHR ''0''"
proof -
  assume "is_digit c"
  then have "ch_to_digit c = 0 \<longleftrightarrow> ord c = ord CHR ''0''"
    by (auto simp: ch_to_digit_def is_digit_def Let_def)
  then show ?thesis by (simp only: ord_inject)
qed

lemma dec_value_lower:
  assumes "is_digit c" and "c \<noteq> CHR ''0''"
  shows "10 ^ length s \<le> dec_value (c # s)"
proof -
  from assms have "1 \<le> ch_to_digit c"
    using ch_to_digit_eq_0 [of c] by linarith
  then have "1 * 10 ^ length s \<le> ch_to_digit c * 10 ^ length s"
    by (rule mult_right_mono) simp
  then have "10 ^ length s \<le> ch_to_digit c * 10 ^ length s + dec_value s"
    by linarith
  then show ?thesis by (simp add: dec_acc_eq [of "ch_to_digit c"])
qed

lemma dec_value_dropWhile_zero: "dec_value (dropWhile (\<lambda>c. c = CHR ''0'') s) = dec_value s"
  by (induction s) auto

lemma list_all_dropWhile_weaker:
  "(\<And>c. Q c \<Longrightarrow> P c) \<Longrightarrow> list_all P (dropWhile Q xs) \<longleftrightarrow> list_all P xs"
  by (induction xs) auto

section \<open>Correctness of the parser\<close>

text \<open>The eight-at-a-time loop and the single-digit loop together read the maximal run of digits;
  the accumulator is its value modulo \<open>2 ^ 64\<close>.\<close>

lemma digit_loop_eq:
  "digit_loop p (of_nat a) = (dropWhile is_digit p, of_nat (dec_acc a (takeWhile is_digit p)))"
proof (induction p arbitrary: a)
  case (Cons c p)
  have "10 * of_nat a + of_nat (ch_to_digit c) = (of_nat (10 * a + ch_to_digit c) :: u64)"
    by simp
  with Cons [of "10 * a + ch_to_digit c"] show ?case
    using ch_to_digit_lt_10 [of c] by (auto simp del: of_nat_add of_nat_mult)
qed simp

lemma ord_digit: "is_digit c \<Longrightarrow> ord c = 48 + ch_to_digit c \<and> ch_to_digit c < 10"
  by (auto simp: is_digit_def ch_to_digit_def)

lemma length_8_conv:
  "length xs = 8 \<Longrightarrow> \<exists>c0 c1 c2 c3 c4 c5 c6 c7. xs = [c0, c1, c2, c3, c4, c5, c6, c7]"
  by (auto simp: numeral_eq_Suc length_Suc_conv)

lemma parse_eight_digits_eq:
  assumes "8 \<le> length p" and "list_all is_digit (take 8 p)"
  shows "parse_eight_digits_unrolled (read8_to_u64 p) = of_nat (dec_value (take 8 p))"
proof -
  from assms(1) have "length (take 8 p) = 8" by simp
  then obtain c0 c1 c2 c3 c4 c5 c6 c7 where t: "take 8 p = [c0, c1, c2, c3, c4, c5, c6, c7]"
    using length_8_conv by blast
  with assms(2) ord_digit have
    "ord c0 = 48 + ch_to_digit c0" "ord c1 = 48 + ch_to_digit c1" "ord c2 = 48 + ch_to_digit c2"
    "ord c3 = 48 + ch_to_digit c3" "ord c4 = 48 + ch_to_digit c4" "ord c5 = 48 + ch_to_digit c5"
    "ord c6 = 48 + ch_to_digit c6" "ord c7 = 48 + ch_to_digit c7" by auto
  then have w: "read8_to_u64 p = of_nat (byte_sum [48 + ch_to_digit c0, 48 + ch_to_digit c1, 48 + ch_to_digit c2,
      48 + ch_to_digit c3, 48 + ch_to_digit c4, 48 + ch_to_digit c5, 48 + ch_to_digit c6, 48 + ch_to_digit c7])"
    unfolding read8_to_u64_def t by (simp only: le_value.simps byte_sum.simps)
  show ?thesis
    by (subst parse_eight_digits_unrolled_value [OF _ _ _ _ _ _ _ _ w])
      (use assms(2) ord_digit in \<open>auto simp: t\<close>)
qed

lemma digit_loop_after_eight:
  "(case loop_parse_if_eight_digits p (of_nat a) of (p8, i8) \<Rightarrow> digit_loop p8 i8)
   = digit_loop p (of_nat a)"
proof (induction "length p" arbitrary: p a rule: less_induct)
  case less
  show ?case
  proof (cases "8 \<le> length p \<and> list_all is_digit (take 8 p)")
    case True
    then have made: "is_made_of_eight_digits_fast (read8_to_u64 p)"
      by (simp add: is_made_of_eight_digits_fast_digits)
    define b where "b = dec_acc a (take 8 p)"
    have b: "of_nat a * 100000000 + parse_eight_digits_unrolled (read8_to_u64 p) = (of_nat b :: u64)"
      using True by (simp add: b_def parse_eight_digits_eq dec_acc_eq [of a])
    have split: "takeWhile is_digit p = take 8 p @ takeWhile is_digit (drop 8 p)"
      "dropWhile is_digit p = dropWhile is_digit (drop 8 p)"
      using True takeWhile_append2 [of "take 8 p" is_digit "drop 8 p"]
        dropWhile_append2 [of "take 8 p" is_digit "drop 8 p"]
      by (auto simp: list_all_iff simp del: takeWhile_append2 dropWhile_append2)
    have "length (drop 8 p) < length p" using True by auto
    from less.hyps [OF this, of b] True made b show ?thesis
      by (simp add: loop_parse_if_eight_digits.simps [of p] digit_loop_eq split b_def)
  next
    case False
    then have "\<not> (8 \<le> length p \<and> is_made_of_eight_digits_fast (read8_to_u64 p))"
      using is_made_of_eight_digits_fast_digits by blast
    then show ?thesis
      by (subst loop_parse_if_eight_digits.simps) (simp only: if_False prod.case)
  qed
qed

lemma length_dropWhile_le_takeWhile:
  "length p - length (dropWhile P p) = length (takeWhile P p)"
  by (metis add_diff_cancel_right' length_append takeWhile_dropWhile_id)

text \<open>Where the whole text is the sign and digits, the result depends only on the number of
  significant digits and on their value.\<close>

definition accept_digits :: "bool \<Rightarrow> bool \<Rightarrow> nat \<Rightarrow> nat \<Rightarrow> bool" where
  "accept_digits is_signed negative k v \<longleftrightarrow>
     \<not> k > 20 \<and> \<not> (k = 20 \<and> v mod 2 ^ 64 < 10 ^ 19) \<and>
     \<not> (is_signed \<and> v mod 2 ^ 64 > 2 ^ 63 - 1 + (if negative then 1 else 0))"

lemma unat_of_nat_u64: "unat (of_nat v :: u64) = v mod 2 ^ 64"
  by (simp add: unat_of_nat)

lemma uint_of_nat_u64: "uint (of_nat v :: u64) = int (v mod 2 ^ 64)"
  by (simp add: unat_of_nat uint_nat del: uint_nat [symmetric])

lemma u64_less_min_safe: "(of_nat v :: u64) < min_safe_u64 \<longleftrightarrow> v mod 2 ^ 64 < 10 ^ 19"
  by (simp add: word_less_nat_alt unat_of_nat min_safe_u64_def)

lemma u64_gt_i64_max:
  "of_int i64_max + (if negative then 1 else 0) < (of_nat v :: u64) \<longleftrightarrow>
   2 ^ 63 - 1 + (if negative then 1 else 0) < v mod 2 ^ 64"
  by (simp add: word_less_nat_alt unat_of_nat i64_max_def)

lemma negate_i64:
  fixes i :: u64
  assumes "i \<le> of_int i64_max + 1"
  shows "- i64_max - sint (i - of_int i64_max) = - uint i"
proof -
  from assms have le: "uint i \<le> 2 ^ 63"
    by (simp add: word_le_def i64_max_def)
  have "sint (i - of_int i64_max) = signed_take_bit 63 (uint i - i64_max)"
    using signed_take_bit_take_bit [of 63 64 "uint i - i64_max"]
    by (simp add: sint_uint uint_word_ariths(2) i64_max_def take_bit_eq_mod)
  also have "\<dots> = uint i - i64_max"
    using le by (intro signed_take_bit_int_eq_self) (auto simp: i64_max_def)
  finally show ?thesis by simp
qed

text \<open>What a caller that insists on consuming the whole text sees.\<close>

definition consume_all :: "errc \<times> nat \<times> int \<Rightarrow> nat \<Rightarrow> int option" where
  "consume_all r n = (let (ec, ptr, v) = r in if ec \<noteq> Errc_ok \<or> ptr \<noteq> n then None else Some v)"

definition number_part :: "string \<Rightarrow> bool \<times> string" where
  "number_part text =
     (let negative = (text \<noteq> [] \<and> hd text = CHR ''-'') in (negative, if negative then tl text else text))"

lemma if_merge3:
  "(if A then x else if B then x else if C then x else y) = (if \<not> (\<not> A \<and> \<not> B \<and> \<not> C) then x else y)"
  by simp

lemma parse_int_string_consume_all:
  assumes "number_part text = (neg, sn)" and "text \<noteq> []" and "\<not> (\<not> is_signed \<and> neg)"
  shows "consume_all (parse_int_string is_signed text) (length text) =
    (if sn \<noteq> [] \<and> list_all is_digit sn \<and>
        accept_digits is_signed neg (length (dropWhile (\<lambda>c. c = CHR ''0'') sn)) (dec_value sn)
     then Some ((if neg then - 1 else 1) * int (dec_value sn mod 2 ^ 64)) else None)"
proof -
  define sd where "sd = dropWhile (\<lambda>c. c = CHR ''0'') sn"
  define p where "p = dropWhile is_digit sd"
  define v where "v = dec_value (takeWhile is_digit sd)"
  from assms(1) have neg: "neg \<longleftrightarrow> text \<noteq> [] \<and> hd text = CHR ''-''"
    and sn: "sn = (if neg then tl text else text)"
    by (auto simp: number_part_def Let_def)
  have loops: "(case loop_parse_if_eight_digits sd 0 of (p8, i8) \<Rightarrow> digit_loop p8 i8) = (p, of_nat v)"
    using digit_loop_after_eight [of sd 0] digit_loop_eq [of sd 0] by (simp add: p_def v_def)
  have cnt: "length sd - length p = length (takeWhile is_digit sd)"
    by (simp add: p_def length_dropWhile_le_takeWhile)
  have all: "list_all is_digit sn \<longleftrightarrow> p = []"
  proof -
    have "list_all is_digit sd \<longleftrightarrow> list_all is_digit sn"
      unfolding sd_def by (rule list_all_dropWhile_weaker) auto
    then show ?thesis by (simp add: p_def dropWhile_eq_Nil_conv list_all_iff)
  qed
  have ptr: "length text - length p = length text \<longleftrightarrow> p = []"
    using assms(2) by (cases "text"; cases p) auto
  obtain p8 i8 where l8: "loop_parse_if_eight_digits sd 0 = (p8, i8)" by fastforce
  with loops have l1: "digit_loop p8 i8 = (p, of_nat v)" by simp
  have body: "parse_int_string is_signed text =
    (if length (takeWhile is_digit sd) = 0 then
       (if length sd < length sn then (Errc_ok, length text - length p, 0) else (Invalid_argument, 0, 0))
     else if \<not> accept_digits is_signed neg (length (takeWhile is_digit sd)) v
       then (Result_out_of_range, length text - length p, 0)
     else (Errc_ok, length text - length p,
           if neg then - i64_max - sint ((of_nat v :: u64) - of_int i64_max)
           else uint (of_nat v :: u64)))"
    unfolding parse_int_string_def
    by (simp only: Let_def neg [symmetric] sn [symmetric] sd_def [symmetric] l8 l1 prod.case cnt
        if_not_P [OF assms(3)] u64_less_min_safe u64_gt_i64_max accept_digits_def
        max_digits_u64_def if_merge3)
  show ?thesis
  proof (cases "p = []")
    case False
    with body ptr all show ?thesis by (auto simp: consume_all_def)
  next
    case True
    then have tw: "takeWhile is_digit sd = sd"
      by (metis append_Nil2 p_def takeWhile_dropWhile_id)
    have v: "v = dec_value sn"
      using dec_value_dropWhile_zero [of sn, folded sd_def] by (simp only: v_def tw)
    have neg_value: "- i64_max - sint ((of_nat v :: u64) - of_int i64_max) = - int (v mod 2 ^ 64)"
      if "accept_digits is_signed neg k v" and neg for k
    proof -
      have "\<not> of_int i64_max + (if neg then 1 else 0) < (of_nat v :: u64)"
        using that assms(3) unfolding u64_gt_i64_max by (auto simp: accept_digits_def)
      with \<open>neg\<close> have "(of_nat v :: u64) \<le> of_int i64_max + 1" by simp
      from negate_i64 [OF this] show ?thesis by (simp only: uint_of_nat_u64)
    qed
    show ?thesis
    proof (cases "sd = []")
      case True
      then have zero: "dec_value sn = 0"
        using dec_value_dropWhile_zero [of sn, folded sd_def] by simp
      from True \<open>p = []\<close> have "parse_int_string is_signed text =
          (if sn = [] then (Invalid_argument, 0, 0) else (Errc_ok, length text, 0))"
        unfolding body by simp
      moreover have "accept_digits is_signed neg 0 0"
        by (simp add: accept_digits_def)
      ultimately show ?thesis
        using all \<open>p = []\<close> unfolding sd_def [symmetric] True zero by (simp add: consume_all_def)
    next
      case False
      then have "sn \<noteq> []" by (auto simp: sd_def)
      moreover from False \<open>p = []\<close> have "parse_int_string is_signed text =
          (if \<not> accept_digits is_signed neg (length sd) v then (Result_out_of_range, length text, 0)
           else (Errc_ok, length text, (if neg then - 1 else 1) * int (v mod 2 ^ 64)))"
        unfolding body tw uint_of_nat_u64 using neg_value [of "length sd"] by auto
      ultimately show ?thesis
        using all \<open>p = []\<close> unfolding sd_def [symmetric] v [symmetric] by (simp add: consume_all_def)
    qed
  qed
qed

lemma accept_digits_u64:
  assumes "list_all is_digit sn" and "k = length (dropWhile (\<lambda>c. c = CHR ''0'') sn)"
  shows "accept_digits False neg k (dec_value sn) \<longleftrightarrow>
    dec_value sn < 2 ^ 64 \<or> (dec_value sn < 10 ^ 20 \<and> 10 ^ 19 \<le> dec_value sn mod 2 ^ 64)"
proof -
  define sd where "sd = dropWhile (\<lambda>c. c = CHR ''0'') sn"
  define v where "v = dec_value sd"
  have v: "dec_value sn = v" by (simp add: v_def sd_def dec_value_dropWhile_zero)
  have digits: "list_all is_digit sd"
    using assms(1) unfolding sd_def by (subst list_all_dropWhile_weaker) auto
  then have upper: "v < 10 ^ k"
    using dec_value_bound [of sd] by (simp add: v_def assms(2) sd_def)
  have lower: "10 ^ (k - 1) \<le> v" if "k \<noteq> 0"
  proof -
    from that obtain c r where cr: "sd = c # r"
      by (cases sd) (auto simp: assms(2) sd_def)
    then have "c \<noteq> CHR ''0''"
      using hd_dropWhile [of "\<lambda>c. c = CHR ''0''" sn] by (auto simp: sd_def)
    with digits cr dec_value_lower [of c r] show ?thesis
      by (simp add: v_def assms(2) sd_def [symmetric])
  qed
  consider "k \<le> 19" | "k = 20" | "21 \<le> k" by linarith
  then show ?thesis
  proof cases
    case 1
    then have "(10::nat) ^ k \<le> 10 ^ 19" by (intro power_increasing) auto
    with upper have "v < 2 ^ 64" by simp
    with 1 show ?thesis by (simp add: accept_digits_def v)
  next
    case 2
    with upper lower have "v < 10 ^ 20" "10 ^ 19 \<le> v" by auto
    with 2 show ?thesis by (auto simp: accept_digits_def v)
  next
    case 3
    then have "(10::nat) ^ 20 \<le> 10 ^ (k - 1)" by (intro power_increasing) auto
    with 3 lower have "10 ^ 20 \<le> v" by simp
    with 3 show ?thesis by (simp add: accept_digits_def v)
  qed
qed

lemma accept_digits_i64:
  assumes "list_all is_digit sn" and "k = length (dropWhile (\<lambda>c. c = CHR ''0'') sn)"
  shows "accept_digits True neg k (dec_value sn) \<longleftrightarrow>
    dec_value sn \<le> 2 ^ 63 - 1 + (if neg then 1 else 0)"
proof -
  have "accept_digits True neg k (dec_value sn) \<longleftrightarrow>
    accept_digits False neg k (dec_value sn) \<and>
    dec_value sn mod 2 ^ 64 \<le> 2 ^ 63 - 1 + (if neg then 1 else 0)"
    by (auto simp: accept_digits_def)
  then show ?thesis
    unfolding accept_digits_u64 [OF assms] by (auto split: if_splits)
qed

lemma number_part_decimal_text:
  assumes "number_part text = (neg, sn)" and "text \<noteq> []"
  shows "decimal_text is_signed text =
    (if \<not> (\<not> is_signed \<and> neg) \<and> sn \<noteq> [] \<and> list_all is_digit sn
     then Some ((if neg then - 1 else 1) * int (dec_value sn)) else None)"
  using assms by (cases "text") (auto simp: number_part_def decimal_text_def Let_def)

lemma parse_int_string_unsigned_minus:
  "number_part text = (True, sn) \<Longrightarrow> consume_all (parse_int_string False text) (length text) = None"
  by (auto simp: number_part_def Let_def parse_int_string_def consume_all_def split: if_splits)

lemma parse_i64_eq:
  "parse_i64 text =
     (case decimal_text True text of
        None \<Rightarrow> None
      | Some v \<Rightarrow> if - (2 ^ 63) \<le> v \<and> v < 2 ^ 63 then Some v else None)"
proof (cases "text = []")
  case True
  then show ?thesis by (simp add: parse_i64_def decimal_text_def)
next
  case False
  obtain neg sn where np: "number_part text = (neg, sn)" by fastforce
  have "parse_i64 text = consume_all (parse_int_string True text) (length text)"
    using False by (simp add: parse_i64_def from_chars_def consume_all_def)
  also have "\<dots> = (if sn \<noteq> [] \<and> list_all is_digit sn \<and>
      dec_value sn \<le> 2 ^ 63 - 1 + (if neg then 1 else 0)
     then Some ((if neg then - 1 else 1) * int (dec_value sn mod 2 ^ 64)) else None)"
    using parse_int_string_consume_all [OF np False, of True]
    by (simp add: accept_digits_i64 [OF _ refl] cong: conj_cong)
  also have "\<dots> = (case decimal_text True text of None \<Rightarrow> None
      | Some v \<Rightarrow> if - (2 ^ 63) \<le> v \<and> v < 2 ^ 63 then Some v else None)"
    unfolding number_part_decimal_text [OF np False] by auto
  finally show ?thesis .
qed

lemma of_int_mod_2_64: "(of_int (int (d mod 2 ^ 64)) :: u64) = of_nat d"
  using word_of_nat_eq_iff [where 'a = 64, of "d mod 2 ^ 64" d]
  by (simp only: of_int_of_nat_eq) (simp add: take_bit_eq_mod)

lemma int_u64_range:
  "int d < 2 ^ 64 \<or> (int d < 10 ^ 20 \<and> 10 ^ 19 \<le> int d mod 2 ^ 64) \<longleftrightarrow>
   d < 2 ^ 64 \<or> (d < 10 ^ 20 \<and> 10 ^ 19 \<le> d mod 2 ^ 64)"
proof -
  have "int d mod 2 ^ 64 = int (d mod 2 ^ 64)" by (simp add: zmod_int)
  then show ?thesis by (simp del: of_nat_mod)
qed

lemma parse_u64_eq:
  "parse_u64 text =
     (case decimal_text False text of
        None \<Rightarrow> None
      | Some v \<Rightarrow>
          if v < 2 ^ 64 \<or> (v < 10 ^ 20 \<and> 10 ^ 19 \<le> v mod 2 ^ 64) then Some (of_int v) else None)"
proof (cases "text = []")
  case True
  then show ?thesis by (simp add: parse_u64_def decimal_text_def)
next
  case False
  obtain neg sn where np: "number_part text = (neg, sn)" by fastforce
  have eq: "parse_u64 text =
      map_option of_int (consume_all (parse_int_string False text) (length text))"
    using False by (auto simp: parse_u64_def from_chars_def consume_all_def Let_def split: prod.splits)
  show ?thesis
  proof (cases neg)
    case True
    with eq np parse_int_string_unsigned_minus [of "text" sn]
      number_part_decimal_text [OF np False, of False]
    show ?thesis by simp
  next
    case nneg: False
    then have nosign: "\<not> (\<not> False \<and> neg)" by simp
    define d where "d = dec_value sn"
    define ok where "ok \<longleftrightarrow> d < 2 ^ 64 \<or> (d < 10 ^ 20 \<and> 10 ^ 19 \<le> d mod 2 ^ 64)"
    have int_ok: "int d < 2 ^ 64 \<or> (int d < 10 ^ 20 \<and> 10 ^ 19 \<le> int d mod 2 ^ 64) \<longleftrightarrow> ok"
      unfolding ok_def by (rule int_u64_range)
    have accepted: "list_all is_digit sn \<Longrightarrow>
      accept_digits False False (length (dropWhile (\<lambda>c. c = CHR ''0'') sn)) d \<longleftrightarrow> ok"
      unfolding ok_def d_def by (rule accept_digits_u64 [OF _ refl])
    have parsed: "parse_u64 text =
      (if sn \<noteq> [] \<and> list_all is_digit sn \<and> ok then Some (of_nat d) else None)"
      unfolding eq parse_int_string_consume_all [OF np False nosign] d_def [symmetric]
      by (simp only: accepted nneg if_False mult_1 of_int_mod_2_64 if_distrib [of "map_option _"]
          option.map cong: conj_cong)
    show ?thesis
    proof (cases "sn \<noteq> [] \<and> list_all is_digit sn")
      case True
      then have "decimal_text False text = Some (int d)"
        using number_part_decimal_text [OF np False, of False] nneg by (simp add: d_def)
      with True parsed show ?thesis
        by (simp only: option.case int_ok of_int_of_nat_eq HOL.simp_thms not_False_eq_True)
    next
      case False
      then have "decimal_text False text = None"
        using number_part_decimal_text [OF np \<open>text \<noteq> []\<close>, of False] by (simp add: d_def)
      with False parsed show ?thesis by auto
    qed
  qed
qed

section \<open>Printing and parsing\<close>

lemma ord_digit_char: "d < 10 \<Longrightarrow> ord (digit_char d) = 48 + d"
  by (simp add: digit_char_def)

lemma is_digit_digit_char [simp]: "d < 10 \<Longrightarrow> is_digit (digit_char d)"
  by (simp add: is_digit_def ord_digit_char)

lemma ch_to_digit_digit_char [simp]: "d < 10 \<Longrightarrow> ch_to_digit (digit_char d) = d"
  by (simp add: ch_to_digit_def ord_digit_char)

lemma digit_char_ch_to_digit: "is_digit c \<Longrightarrow> digit_char (ch_to_digit c) = c"
  by (simp add: digit_char_def ch_to_digit_def is_digit_def)

lemma to_chars_u_nonempty [simp]: "to_chars_u n \<noteq> []"
  by (subst to_chars_u.simps) simp

lemma list_all_to_chars_u [simp]: "list_all is_digit (to_chars_u n)"
proof (induction n rule: to_chars_u.induct)
  case (1 n)
  then show ?case by (subst to_chars_u.simps) auto
qed

lemma dec_value_to_chars_u [simp]: "dec_value (to_chars_u n) = n"
proof (induction n rule: to_chars_u.induct)
  case (1 n)
  then show ?case by (subst to_chars_u.simps) auto
qed

lemma to_chars_u_leading: "n \<noteq> 0 \<Longrightarrow> hd (to_chars_u n) \<noteq> CHR ''0''"
proof (induction n rule: to_chars_u.induct)
  case (1 n)
  show ?case
  proof (cases "n < 10")
    case True
    then have "digit_char n \<noteq> CHR ''0''"
      using ch_to_digit_digit_char [of n] 1(2) by (metis ch_to_digit_zero)
    with True show ?thesis by (subst to_chars_u.simps) simp
  next
    case False
    then have "n div 10 \<noteq> 0" by auto
    with False 1(1) show ?thesis by (subst to_chars_u.simps) simp
  qed
qed

lemma hd_to_chars_u_not_minus: "hd (to_chars_u n) \<noteq> CHR ''-''"
  using list_all_to_chars_u [of n] by (metis is_digit_minus list_all_iff list.set_sel(1) to_chars_u_nonempty)

text \<open>A digit string without superfluous leading zeros is the print of its value.\<close>

lemma to_chars_u_dec_value:
  assumes "list_all is_digit s" and "s \<noteq> []" and "length s > 1 \<longrightarrow> hd s \<noteq> CHR ''0''"
  shows "to_chars_u (dec_value s) = s"
  using assms
proof (induction s rule: rev_induct)
  case (snoc c s)
  show ?case
  proof (cases "s = []")
    case True
    with snoc.prems show ?thesis
      using ch_to_digit_lt_10 [of c]
      by (simp add: to_chars_u.simps [of "ch_to_digit c"] digit_char_ch_to_digit)
  next
    case False
    with snoc.prems have hd: "hd s \<noteq> CHR ''0''" and "is_digit c" "list_all is_digit s" by auto
    from False \<open>list_all is_digit s\<close> hd have "10 ^ length (tl s) \<le> dec_value s"
      using dec_value_lower [of "hd s" "tl s"] by (cases s) auto
    then have "1 \<le> dec_value s"
      by (rule order_trans [rotated]) simp
    moreover from \<open>is_digit c\<close> have "ch_to_digit c < 10" by (simp add: ch_to_digit_lt_10)
    ultimately show ?thesis
      using snoc.IH False \<open>list_all is_digit s\<close> hd \<open>is_digit c\<close>
      by (simp add: to_chars_u.simps [of "10 * dec_value s + ch_to_digit c"] digit_char_ch_to_digit)
  qed
qed simp

lemma decimal_text_to_chars_u [simp]: "decimal_text is_signed (to_chars_u n) = Some (int n)"
proof -
  obtain c r where cr: "to_chars_u n = c # r" by (cases "to_chars_u n") auto
  with hd_to_chars_u_not_minus [of n] have "c \<noteq> CHR ''-''" by simp
  with cr list_all_to_chars_u [of n] dec_value_to_chars_u [of n] show ?thesis
    by (simp add: decimal_text_def)
qed

lemma decimal_text_to_chars_i [simp]: "decimal_text True (to_chars_i v) = Some v"
proof (cases "v < 0")
  case True
  then show ?thesis
    using dec_value_to_chars_u [of "nat (- v)"] by (simp add: to_chars_i_def decimal_text_def)
next
  case False
  then show ?thesis by (simp add: to_chars_i_def)
qed

lemma parse_i64_to_chars_u: "n < 2 ^ 63 \<Longrightarrow> parse_i64 (to_chars_u n) = Some (int n)"
  by (simp add: parse_i64_eq)

lemma parse_canonical_u64_Some:
  assumes "parse_canonical_u64 s = Some m"
  shows "list_all is_digit s" "s \<noteq> []" "length s > 1 \<longrightarrow> hd s \<noteq> CHR ''0''" "m = of_nat (dec_value s)"
proof -
  from assms have ne: "s \<noteq> []" and "length s > 1 \<longrightarrow> hd s \<noteq> CHR ''0''" and p: "parse_u64 s = Some m"
    by (auto simp: parse_canonical_u64_def split: if_splits)
  then show "s \<noteq> []" "length s > 1 \<longrightarrow> hd s \<noteq> CHR ''0''" by auto
  obtain neg sn where np: "number_part s = (neg, sn)" by fastforce
  from p have "decimal_text False s = Some (int (dec_value s)) \<and> list_all is_digit s"
    using number_part_decimal_text [OF np ne, of False] np
    by (auto simp: parse_u64_eq number_part_def Let_def split: option.splits if_splits)
  with p show "list_all is_digit s" "m = of_nat (dec_value s)"
    by (auto simp: parse_u64_eq split: if_splits)
qed

section \<open>Properties\<close>

text \<open>C22: \<open>parse_i64\<close> accepts exactly the texts made of an optional minus sign and at least one
  decimal digit whose value lies in the range of \<open>long long\<close>, and returns that value: no wrapped
  accumulator is ever taken for a number.\<close>

theorem parse_i64_exact:
  "parse_i64 text =
     (case decimal_text True text of
        None \<Rightarrow> None
      | Some v \<Rightarrow> if - (2 ^ 63) \<le> v \<and> v < 2 ^ 63 then Some v else None)"
  by (rule parse_i64_eq)

text \<open>C23: \<open>parse_u64\<close> returns the value of every unsigned decimal text below \<open>2 ^ 64\<close>. Above it, it
  rejects the text, except for the twenty-digit numbers whose residue modulo \<open>2 ^ 64\<close> is at least
  \<open>10 ^ 19\<close>: these pass the overflow test of the parser and come back as the residue.\<close>

theorem parse_u64_exact:
  "parse_u64 text =
     (case decimal_text False text of
        None \<Rightarrow> None
      | Some v \<Rightarrow>
          if v < 2 ^ 64 \<or> (v < 10 ^ 20 \<and> 10 ^ 19 \<le> v mod 2 ^ 64) then Some (of_int v) else None)"
  by (rule parse_u64_eq)

text \<open>C24: eight digits at a time. On any eight bytes the masked carry test accepts exactly eight
  decimal digits, and for those the two multiplications compute the number the digits spell.\<close>

theorem eight_digits_at_once:
  assumes "8 \<le> length p"
  shows "(is_made_of_eight_digits_fast (read8_to_u64 p) \<longleftrightarrow> list_all is_digit (take 8 p)) \<and>
    (list_all is_digit (take 8 p) \<longrightarrow>
      parse_eight_digits_unrolled (read8_to_u64 p) = of_nat (dec_value (take 8 p)))"
  using is_made_of_eight_digits_fast_digits [OF assms] parse_eight_digits_eq [OF assms] by blast

theorem eight_digits_at_once_witness:
  "is_made_of_eight_digits_fast (read8_to_u64 ''12345678x'') \<and>
   parse_eight_digits_unrolled (read8_to_u64 ''12345678x'') = 12345678"
proof -
  have l: "8 \<le> length ''12345678x''" and d: "list_all is_digit (take 8 ''12345678x'')"
    by (simp_all add: is_digit_def)
  have "dec_value (take 8 ''12345678x'') = 12345678" by (simp add: ch_to_digit_def)
  with eight_digits_at_once [OF l] d have "parse_eight_digits_unrolled (read8_to_u64 ''12345678x'') = of_nat 12345678"
    by (simp only:)
  with eight_digits_at_once [OF l] d show ?thesis by (simp only: of_nat_numeral simp_thms)
qed

end
