(* ===== verification/Resp_Parser.thy ===== *)
theory Resp_Parser
  imports Parse_Int Fifo
begin

text \<open>
  The incremental RESP request parser (\<open>src/resp_parser.cpp\<close>, \<open>include/goblin/core/resp_parser.hpp\<close>)
  and the line search it uses (\<open>src/simd_backend_ops.hpp\<close>, \<open>find_crlf\<close>).

  The parser object is the record \<open>resp_parser\<close>: the byte buffer, the queue of parsed frames, the
  shared pool of field ranges, the sticky error and the two cursors. The operations are the public
  methods; \<open>parse_available\<close> is the \<open>while\<close> loop over \<open>parse_one\<close>, total because a complete frame
  always advances the cursor. The theorems: every stored range stays inside the buffer, the parser is
  a first-in first-out source of commands, and how the bytes are cut into \<open>append\<close> calls does not
  matter.
\<close>

section \<open>Finding the end of a line\<close>

fun crlf_scan :: "string \<Rightarrow> nat \<Rightarrow> nat option" where
  "crlf_scan (c # d # r) i = (if c = CR \<and> d = LF then Some i else crlf_scan (d # r) (Suc i))"
| "crlf_scan r i = None"

definition find_crlf :: "string \<Rightarrow> nat \<Rightarrow> nat option" where
  "find_crlf buf off = (if length buf \<le> off then None else crlf_scan (drop off buf) off)"

text \<open>One vector loop of a backend with \<open>w\<close> lanes: the positions holding a carriage return are
  tried in ascending order; without a hit the loop moves on by \<open>w\<close>. The result is the hit, or the
  position where the next loop goes on.\<close>

function crlf_chunks :: "nat \<Rightarrow> string \<Rightarrow> nat \<Rightarrow> nat + nat" where
  "crlf_chunks w buf i =
     (if 0 < w \<and> i + w \<le> length buf then
        let bits = filter (\<lambda>k. buf ! k = CR) [i..<i + w]
        in case find (\<lambda>k. k + 1 < length buf \<and> buf ! (k + 1) = LF) bits of
             Some k \<Rightarrow> Inl k
           | None \<Rightarrow> crlf_chunks w buf (i + w)
      else Inr i)"
  by pat_completeness auto
termination
  by (relation "measure (\<lambda>(w, buf, i). length buf - i)") auto

declare crlf_chunks.simps [simp del]

fun crlf_backend :: "nat list \<Rightarrow> string \<Rightarrow> nat \<Rightarrow> nat option" where
  "crlf_backend [] buf i = crlf_scan (drop i buf) i"
| "crlf_backend (w # ws) buf i =
     (case crlf_chunks w buf i of Inl k \<Rightarrow> Some k | Inr i' \<Rightarrow> crlf_backend ws buf i')"

definition find_crlf_simd :: "nat list \<Rightarrow> string \<Rightarrow> nat \<Rightarrow> nat option" where
  "find_crlf_simd ws buf off = (if length buf \<le> off then None else crlf_backend ws buf off)"

section \<open>The parser object\<close>

definition kMaxArrayElements :: nat where
  "kMaxArrayElements = 1024 * 1024"

definition kMaxBulkBytes :: nat where
  "kMaxBulkBytes = 128 * 1024 * 1024"

definition kMaxInlineBytes :: nat where
  "kMaxInlineBytes = 1024 * 1024"

record field_range =
  fr_offset :: nat
  fr_length :: nat

record queued_frame =
  field_begin :: nat
  field_count :: nat
  frame_consumed :: nat

datatype parse_result =
    Complete nat
  | Incomplete
  | Parse_error string

record resp_parser =
  buffer :: string
  frames :: "queued_frame list"
  field_pool :: "field_range list"
  parser_error :: string
  parse_offset :: nat
  popped_until :: nat

definition new_parser :: resp_parser where
  "new_parser = \<lparr>buffer = [], frames = [], field_pool = [], parser_error = [],
     parse_offset = 0, popped_until = 0\<rparr>"

definition is_inline_separator :: "char \<Rightarrow> bool" where
  "is_inline_separator c \<longleftrightarrow> c = CHR '' '' \<or> c = CHR 0x09"

section \<open>Parsing one command\<close>

fun parse_bulks :: "string \<Rightarrow> nat \<Rightarrow> nat \<Rightarrow> field_range list \<Rightarrow> parse_result \<times> field_range list" where
  "parse_bulks buf 0 cursor out = (Complete cursor, out)"
| "parse_bulks buf (Suc n) cursor out =
     (if length buf \<le> cursor then (Incomplete, out)
      else if buf ! cursor \<noteq> CHR ''$''
        then (Parse_error ''ERR Protocol error: expected bulk string'', out)
      else case find_crlf buf (cursor + 1) of
        None \<Rightarrow> (Incomplete, out)
      | Some bulk_line_end \<Rightarrow>
          (case parse_i64 (substr buf (cursor + 1) (bulk_line_end - cursor - 1)) of
             None \<Rightarrow> (Parse_error ''ERR Protocol error: invalid bulk length'', out)
           | Some bulk_len \<Rightarrow>
               if bulk_len < 0
                 then (Parse_error ''ERR Protocol error: invalid bulk length'', out)
               else if nat bulk_len > kMaxBulkBytes
                 then (Parse_error ''ERR Protocol error: bulk length is too large'', out)
               else
                 let cursor' = bulk_line_end + 2; len = nat bulk_len
                 in if length buf < cursor' + len + 2 then (Incomplete, out)
                    else if buf ! (cursor' + len) \<noteq> CR \<or> buf ! (cursor' + len + 1) \<noteq> LF
                      then (Parse_error ''ERR Protocol error: invalid bulk terminator'', out)
                    else parse_bulks buf n (cursor' + (len + 2))
                           (out @ [\<lparr>fr_offset = cursor', fr_length = len\<rparr>])))"

definition parse_resp_array :: "string \<Rightarrow> nat \<Rightarrow> field_range list \<Rightarrow> parse_result \<times> field_range list" where
  "parse_resp_array buf off out =
     (case find_crlf buf (off + 1) of
        None \<Rightarrow> (Incomplete, out)
      | Some line_end \<Rightarrow>
          (case parse_i64 (substr buf (off + 1) (line_end - off - 1)) of
             None \<Rightarrow> (Parse_error ''ERR Protocol error: invalid multibulk length'', out)
           | Some element_count \<Rightarrow>
               if element_count < 0
                 then (Parse_error ''ERR Protocol error: invalid multibulk length'', out)
               else if nat element_count > kMaxArrayElements
                 then (Parse_error ''ERR Protocol error: multibulk length is too large'', out)
               else parse_bulks buf (nat element_count) (line_end + 2) out))"

definition skip_separators :: "string \<Rightarrow> nat \<Rightarrow> nat" where
  "skip_separators line cursor =
     cursor + length (takeWhile is_inline_separator (drop cursor line))"

definition token_end :: "string \<Rightarrow> nat \<Rightarrow> nat" where
  "token_end line cursor =
     cursor + length (takeWhile (\<lambda>c. \<not> is_inline_separator c) (drop cursor line))"

lemma skip_separators_ge: "cursor \<le> skip_separators line cursor"
  by (simp add: skip_separators_def)

lemma length_takeWhile_drop_le: "c \<le> length l \<Longrightarrow> c + length (takeWhile P (drop c l)) \<le> length l"
  using length_takeWhile_le [of P "drop c l"] by simp

lemma skip_separators_stops:
  assumes "skip_separators line cursor < length line"
  shows "\<not> is_inline_separator (line ! skip_separators line cursor)"
proof -
  define k where "k = length (takeWhile is_inline_separator (drop cursor line))"
  from assms have "k < length (drop cursor line)" by (simp add: k_def skip_separators_def)
  then have "\<not> is_inline_separator (drop cursor line ! k)"
    unfolding k_def by (rule nth_length_takeWhile)
  with assms show ?thesis by (simp add: k_def skip_separators_def)
qed

lemma token_end_gt:
  assumes "c < length line" and "\<not> is_inline_separator (line ! c)"
  shows "c < token_end line c"
proof -
  from assms(1) have "drop c line = line ! c # drop (Suc c) line"
    by (simp add: Cons_nth_drop_Suc)
  with assms(2) show ?thesis by (simp add: token_end_def)
qed

function inline_tokens :: "nat \<Rightarrow> string \<Rightarrow> nat \<Rightarrow> field_range list \<Rightarrow> field_range list" where
  "inline_tokens off line cursor out =
     (if cursor < length line then
        let token_start = skip_separators line cursor
        in if length line \<le> token_start then out
           else let cursor' = token_end line token_start
                in inline_tokens off line cursor'
                     (out @ [\<lparr>fr_offset = off + token_start, fr_length = cursor' - token_start\<rparr>])
      else out)"
  by pat_completeness auto
termination
proof (relation "measure (\<lambda>(off, line, cursor, out). length line - cursor)", goal_cases)
  case (2 off line cursor out ts c')
  then have "\<not> is_inline_separator (line ! ts)" by (simp add: skip_separators_stops)
  with 2 token_end_gt [of ts line] skip_separators_ge [of cursor line] show ?case by simp
qed simp

declare inline_tokens.simps [simp del]

definition inline_too_large :: string where
  "inline_too_large = ''ERR Protocol error: inline command is too large''"

definition parse_inline :: "string \<Rightarrow> nat \<Rightarrow> field_range list \<Rightarrow> parse_result \<times> field_range list" where
  "parse_inline buf off out =
     (case find_crlf buf off of
        None \<Rightarrow>
          if length buf - off > kMaxInlineBytes then (Parse_error inline_too_large, out)
          else (Incomplete, out)
      | Some line_end \<Rightarrow>
          (Complete (line_end + 2), inline_tokens off (substr buf off (line_end - off)) 0 out))"

definition parse_one :: "string \<Rightarrow> nat \<Rightarrow> field_range list \<Rightarrow> parse_result \<times> field_range list" where
  "parse_one buf off out =
     (if length buf \<le> off then (Incomplete, out)
      else if buf ! off = CHR ''*'' then parse_resp_array buf off out
      else parse_inline buf off out)"

section \<open>Progress of a complete frame\<close>

lemma crlf_scan_Some:
  "crlf_scan s i = Some k \<longleftrightarrow>
     i \<le> k \<and> k - i + 1 < length s \<and> s ! (k - i) = CR \<and> s ! (k - i + 1) = LF \<and>
     (\<forall>j < k - i. \<not> (s ! j = CR \<and> s ! (j + 1) = LF))"
proof (induction s i rule: crlf_scan.induct)
  case (1 c d r i)
  show ?case
  proof (cases "c = CR \<and> d = LF")
    case True
    then show ?thesis by (auto simp: nth_Cons split: nat.splits)
  next
    case False
    with 1 have "crlf_scan (c # d # r) i = Some k \<longleftrightarrow>
      Suc i \<le> k \<and> k - Suc i + 1 < length (d # r) \<and> (d # r) ! (k - Suc i) = CR \<and>
      (d # r) ! (k - Suc i + 1) = LF \<and>
      (\<forall>j < k - Suc i. \<not> ((d # r) ! j = CR \<and> (d # r) ! (j + 1) = LF))"
      by auto
    also have "\<dots> \<longleftrightarrow>
      i \<le> k \<and> k - i + 1 < length (c # d # r) \<and> (c # d # r) ! (k - i) = CR \<and>
      (c # d # r) ! (k - i + 1) = LF \<and>
      (\<forall>j < k - i. \<not> ((c # d # r) ! j = CR \<and> (c # d # r) ! (j + 1) = LF))"
    proof (cases "i < k")
      case True
      then obtain m where "k = Suc (i + m)" by (metis add_Suc_right less_imp_Suc_add)
      with False show ?thesis by (auto simp: less_Suc_eq_0_disj)
    next
      case notless: False
      with False show ?thesis by (auto simp: not_less)
    qed
    finally show ?thesis .
  qed
qed auto

lemma all_shift: "(\<forall>j. off \<le> j \<and> j < off + m \<longrightarrow> P j) \<longleftrightarrow> (\<forall>j < m. P (off + j))" for off m :: nat
  by (metis le_Suc_ex le_add1 nat_add_left_cancel_less)

lemma find_crlf_Some:
  "find_crlf buf off = Some k \<longleftrightarrow>
     off \<le> k \<and> k + 1 < length buf \<and> buf ! k = CR \<and> buf ! (k + 1) = LF \<and>
     (\<forall>j. off \<le> j \<and> j < k \<longrightarrow> \<not> (buf ! j = CR \<and> buf ! (j + 1) = LF))"
proof (cases "off \<le> k")
  case True
  then obtain m where k: "k = off + m" by (metis le_Suc_ex)
  show ?thesis
    unfolding k all_shift find_crlf_def
    by (cases "off < length buf") (auto simp: crlf_scan_Some nth_drop add.assoc)
next
  case False
  then show ?thesis by (auto simp: find_crlf_def crlf_scan_Some)
qed

lemma find_crlf_bounds:
  "find_crlf buf off = Some k \<Longrightarrow> off \<le> k \<and> k + 2 \<le> length buf"
  by (simp add: find_crlf_Some)

text \<open>What one call of the parser appends to the pool lies inside the buffer; a complete frame
  advances the cursor and stays inside the buffer.\<close>

definition in_bounds :: "string \<Rightarrow> field_range \<Rightarrow> bool" where
  "in_bounds buf f \<longleftrightarrow> fr_offset f + fr_length f \<le> length buf"

definition parsed_ok :: "string \<Rightarrow> nat \<Rightarrow> field_range list \<Rightarrow> parse_result \<times> field_range list \<Rightarrow> bool" where
  "parsed_ok buf off out res \<longleftrightarrow>
     (\<exists>new. snd res = out @ new \<and> list_all (in_bounds buf) new) \<and>
     (\<forall>c. fst res = Complete c \<longrightarrow> off \<le> c \<and> c \<le> length buf)"

lemma parsed_okI:
  "list_all (in_bounds buf) new \<Longrightarrow> (\<And>c. r = Complete c \<Longrightarrow> off \<le> c \<and> c \<le> length buf) \<Longrightarrow>
   parsed_ok buf off out (r, out @ new)"
  by (auto simp: parsed_ok_def)

lemma parsed_ok_stop: "(\<And>c. r \<noteq> Complete c) \<Longrightarrow> parsed_ok buf off out (r, out)"
  using parsed_okI [of buf "[]" r off out] by simp

lemma parsed_ok_snoc:
  "parsed_ok buf off' (out @ [f]) res \<Longrightarrow> in_bounds buf f \<Longrightarrow> off \<le> off' \<Longrightarrow> parsed_ok buf off out res"
  by (fastforce simp: parsed_ok_def)

lemma parsed_ok_mono: "parsed_ok buf off' out res \<Longrightarrow> off \<le> off' \<Longrightarrow> parsed_ok buf off out res"
  by (auto simp: parsed_ok_def)

lemma parse_bulks_ok: "cursor \<le> length buf \<Longrightarrow> parsed_ok buf cursor out (parse_bulks buf n cursor out)"
proof (induction n arbitrary: cursor out)
  case 0
  then show ?case by (simp add: parsed_ok_def)
next
  case (Suc n)
  have step: "parsed_ok buf cursor out
      (parse_bulks buf n (e + 2 + (len + 2)) (out @ [\<lparr>fr_offset = e + 2, fr_length = len\<rparr>]))"
    if "find_crlf buf (cursor + 1) = Some e" and "e + 2 + len + 2 \<le> length buf" for e len
  proof (rule parsed_ok_snoc)
    show "parsed_ok buf (e + 2 + (len + 2)) (out @ [\<lparr>fr_offset = e + 2, fr_length = len\<rparr>])
      (parse_bulks buf n (e + 2 + (len + 2)) (out @ [\<lparr>fr_offset = e + 2, fr_length = len\<rparr>]))"
      using that by (intro Suc.IH) simp
    show "in_bounds buf \<lparr>fr_offset = e + 2, fr_length = len\<rparr>"
      using that by (simp add: in_bounds_def)
    show "cursor \<le> e + 2 + (len + 2)"
      using find_crlf_bounds [OF that(1)] by simp
  qed
  show ?case
    by (auto simp: Let_def intro!: parsed_ok_stop step [simplified] split: option.split)
qed

lemma parse_resp_array_ok: "parsed_ok buf (Suc off) out (parse_resp_array buf off out)"
proof -
  have "parsed_ok buf (Suc off) out (parse_bulks buf n (e + 2) out)"
    if "find_crlf buf (off + 1) = Some e" for e n
    using find_crlf_bounds [OF that] by (intro parsed_ok_mono [OF parse_bulks_ok]) auto
  then show ?thesis
    by (auto simp: parse_resp_array_def intro!: parsed_ok_stop split: option.split)
qed

lemma inline_tokens_new:
  assumes "cursor \<le> length line" and "off + length line \<le> length buf"
  shows "\<exists>new. inline_tokens off line cursor out = out @ new \<and> list_all (in_bounds buf) new"
  using assms
proof (induction off line cursor out rule: inline_tokens.induct)
  case (1 off line cursor out)
  define ts where "ts = skip_separators line cursor"
  define te where "te = token_end line ts"
  show ?case
  proof (cases "cursor < length line \<and> ts < length line")
    case True
    have te: "ts \<le> te" "te \<le> length line"
      using True length_takeWhile_drop_le [of ts line] by (simp_all add: te_def token_end_def)
    define f where "f = \<lparr>fr_offset = off + ts, fr_length = te - ts\<rparr>"
    have "\<exists>new. inline_tokens off line te (out @ [f]) = (out @ [f]) @ new \<and> list_all (in_bounds buf) new"
      unfolding f_def te_def ts_def using True te 1
      by (intro "1.IH") (auto simp: ts_def te_def)
    moreover have "in_bounds buf f"
      using te 1(3) by (simp add: in_bounds_def f_def)
    moreover have "inline_tokens off line cursor out = inline_tokens off line te (out @ [f])"
      using True by (simp add: inline_tokens.simps [of off line cursor] Let_def ts_def te_def f_def)
    ultimately show ?thesis by auto
  next
    case False
    then have "inline_tokens off line cursor out = out"
      by (auto simp: inline_tokens.simps [of off line cursor] Let_def ts_def)
    then show ?thesis by simp
  qed
qed

lemma parse_inline_ok:
  assumes "off < length buf"
  shows "parsed_ok buf (Suc off) out (parse_inline buf off out)"
proof (cases "find_crlf buf off")
  case None
  then show ?thesis by (auto simp: parse_inline_def intro: parsed_ok_stop)
next
  case (Some e)
  note b = find_crlf_bounds [OF Some]
  from b have "e - off \<le> length buf - off" by auto
  then have "length (substr buf off (e - off)) = e - off" by (simp add: substr_def min_def)
  with b obtain new where "inline_tokens off (substr buf off (e - off)) 0 out = out @ new"
    and "list_all (in_bounds buf) new"
    using inline_tokens_new [of 0 "substr buf off (e - off)" off buf out] by auto
  with Some b show ?thesis
    by (auto simp: parse_inline_def intro!: parsed_okI)
qed

lemma parse_one_ok: "parsed_ok buf (Suc off) out (parse_one buf off out)"
  by (simp add: parse_one_def parse_resp_array_ok parse_inline_ok parsed_ok_stop)

lemma parse_one_Complete:
  "parse_one buf off out = (Complete c, pool) \<Longrightarrow> off < c \<and> c \<le> length buf"
  using parse_one_ok [of buf off out] by (simp add: parsed_ok_def Suc_le_eq)

lemma parse_one_pool:
  assumes "parse_one buf off out = (r, pool)"
  obtains new where "pool = out @ new" and "list_all (in_bounds buf) new"
  using parse_one_ok [of buf off out] assms by (auto simp: parsed_ok_def)

section \<open>The public operations\<close>

definition push_frame :: "resp_parser \<Rightarrow> nat \<Rightarrow> field_range list \<Rightarrow> resp_parser" where
  "push_frame p c pool =
     p\<lparr>parse_offset := c,
       frames := frames p @
         [\<lparr>field_begin = length (field_pool p), field_count = length pool - length (field_pool p),
           frame_consumed = c\<rparr>],
       field_pool := pool\<rparr>"

definition fail_parser :: "resp_parser \<Rightarrow> string \<Rightarrow> resp_parser" where
  "fail_parser p e =
     p\<lparr>parser_error := e, buffer := [], frames := [], field_pool := [], parse_offset := 0,
       popped_until := 0\<rparr>"

lemma push_frame_sel [simp]:
  "buffer (push_frame p c pool) = buffer p"
  "parser_error (push_frame p c pool) = parser_error p"
  "parse_offset (push_frame p c pool) = c"
  "popped_until (push_frame p c pool) = popped_until p"
  "field_pool (push_frame p c pool) = pool"
  by (simp_all add: push_frame_def)

lemma fail_parser_sel [simp]:
  "buffer (fail_parser p e) = []" "frames (fail_parser p e) = []" "field_pool (fail_parser p e) = []"
  "parser_error (fail_parser p e) = e" "parse_offset (fail_parser p e) = 0"
  "popped_until (fail_parser p e) = 0"
  by (simp_all add: fail_parser_def)

function parse_available :: "resp_parser \<Rightarrow> resp_parser" where
  "parse_available p =
     (if parse_offset p < length (buffer p) \<and> parser_error p = [] then
        (case parse_one (buffer p) (parse_offset p) (field_pool p) of
           (Complete c, pool) \<Rightarrow> parse_available (push_frame p c pool)
         | (Incomplete, pool) \<Rightarrow> p\<lparr>field_pool := take (length (field_pool p)) pool\<rparr>
         | (Parse_error e, pool) \<Rightarrow> fail_parser p e)
      else p)"
  by pat_completeness auto
termination
proof (relation "measure (\<lambda>p. length (buffer p) - parse_offset p)", goal_cases)
  case (2 p x pool c)
  then have "parse_one (buffer p) (parse_offset p) (field_pool p) = (Complete c, pool)" by simp
  from parse_one_Complete [OF this] 2 show ?case by (simp add: diff_less_mono2)
qed simp

declare parse_available.simps [simp del]

definition compact_consumed_prefix :: "resp_parser \<Rightarrow> resp_parser" where
  "compact_consumed_prefix p =
     (if popped_until p = 0 \<or> frames p \<noteq> [] then p
      else p\<lparr>buffer := drop (popped_until p) (buffer p),
             parse_offset := parse_offset p - min (parse_offset p) (popped_until p),
             popped_until := 0,
             field_pool := []\<rparr>)"

definition parser_append :: "resp_parser \<Rightarrow> string \<Rightarrow> resp_parser" where
  "parser_append p bytes =
     (if bytes = [] \<or> parser_error p \<noteq> [] then p
      else let p1 = (if frames p = [] then compact_consumed_prefix p else p)
           in parse_available (p1\<lparr>buffer := buffer p1 @ bytes\<rparr>))"

definition frame_fields :: "resp_parser \<Rightarrow> queued_frame \<Rightarrow> string list" where
  "frame_fields p q =
     map (\<lambda>i. let f = field_pool p ! (field_begin q + i) in substr (buffer p) (fr_offset f) (fr_length f))
       [0..<field_count q]"

definition parser_pop :: "resp_parser \<Rightarrow> string list option \<times> resp_parser" where
  "parser_pop p =
     (case frames p of
        [] \<Rightarrow> (None, compact_consumed_prefix p)
      | q # qs \<Rightarrow>
          (Some (frame_fields p q),
           p\<lparr>frames := qs, popped_until := max (popped_until p) (frame_consumed q)\<rparr>))"

definition parser_pop_into :: "resp_parser \<Rightarrow> string list \<Rightarrow> bool \<times> string list \<times> resp_parser" where
  "parser_pop_into p out =
     (case frames p of
        [] \<Rightarrow> (False, out, compact_consumed_prefix p)
      | q # qs \<Rightarrow>
          (True, frame_fields p q,
           p\<lparr>frames := qs, popped_until := max (popped_until p) (frame_consumed q)\<rparr>))"

definition has_queued_frames :: "resp_parser \<Rightarrow> bool" where
  "has_queued_frames p \<longleftrightarrow> frames p \<noteq> []"

definition has_unparsed_input :: "resp_parser \<Rightarrow> bool" where
  "has_unparsed_input p \<longleftrightarrow> parse_offset p \<noteq> length (buffer p)"

definition has_error :: "resp_parser \<Rightarrow> bool" where
  "has_error p \<longleftrightarrow> parser_error p \<noteq> []"

definition parser_clear :: "resp_parser \<Rightarrow> resp_parser" where
  "parser_clear p = p\<lparr>buffer := [], frames := [], field_pool := [], parser_error := [],
     parse_offset := 0, popped_until := 0\<rparr>"

section \<open>The invariant\<close>

definition frame_ok :: "resp_parser \<Rightarrow> queued_frame \<Rightarrow> bool" where
  "frame_ok p q \<longleftrightarrow>
     field_begin q + field_count q \<le> length (field_pool p) \<and> frame_consumed q \<le> parse_offset p"

definition parser_ok :: "resp_parser \<Rightarrow> bool" where
  "parser_ok p \<longleftrightarrow>
     parse_offset p \<le> length (buffer p) \<and> popped_until p \<le> parse_offset p \<and>
     list_all (frame_ok p) (frames p) \<and> list_all (in_bounds (buffer p)) (field_pool p) \<and>
     (parser_error p = [] \<or> frames p = [])"

lemma in_bounds_append: "in_bounds b f \<Longrightarrow> in_bounds (b @ c) f"
  by (simp add: in_bounds_def)

definition parsing :: "resp_parser \<Rightarrow> bool" where
  "parsing p \<longleftrightarrow> parse_offset p < length (buffer p) \<and> parser_error p = []"

abbreviation next_frame :: "resp_parser \<Rightarrow> parse_result \<times> field_range list" where
  "next_frame p \<equiv> parse_one (buffer p) (parse_offset p) (field_pool p)"

lemma parse_available_idle: "\<not> parsing p \<Longrightarrow> parse_available p = p"
  by (auto simp: parse_available.simps [of p] parsing_def)

lemma parse_available_Complete:
  "parsing p \<Longrightarrow> next_frame p = (Complete c, pool) \<Longrightarrow>
   parse_available p = parse_available (push_frame p c pool)"
  by (simp add: parse_available.simps [of p] parsing_def)

lemma parse_available_Incomplete:
  assumes "parsing p" and "next_frame p = (Incomplete, pool)"
  shows "parse_available p = p"
proof -
  from assms(2) obtain new where "pool = field_pool p @ new" by (rule parse_one_pool)
  with assms show ?thesis by (simp add: parse_available.simps [of p] parsing_def)
qed

lemma parse_available_error:
  "parsing p \<Longrightarrow> next_frame p = (Parse_error e, pool) \<Longrightarrow> parse_available p = fail_parser p e"
  by (simp add: parse_available.simps [of p] parsing_def)

lemma parse_available_induct [case_names idle complete incomplete error]:
  assumes idle: "\<And>p. \<not> parsing p \<Longrightarrow> P p"
    and complete: "\<And>p c pool. parsing p \<Longrightarrow> next_frame p = (Complete c, pool) \<Longrightarrow>
      P (push_frame p c pool) \<Longrightarrow> P p"
    and incomplete: "\<And>p pool. parsing p \<Longrightarrow> next_frame p = (Incomplete, pool) \<Longrightarrow> P p"
    and error: "\<And>p e pool. parsing p \<Longrightarrow> next_frame p = (Parse_error e, pool) \<Longrightarrow> P p"
  shows "P p"
proof (induction p rule: parse_available.induct)
  case (1 p)
  obtain r pool where r: "next_frame p = (r, pool)" by fastforce
  show ?case
  proof (cases "parsing p")
    case True
    with 1 r show ?thesis
      by (cases r) (auto simp: parsing_def intro: complete incomplete error)
  qed (rule idle)
qed

lemma push_frame_ok:
  assumes "parser_ok p" and "parser_error p = []" and "next_frame p = (Complete c, pool)"
  shows "parser_ok (push_frame p c pool)"
proof -
  from assms(3) obtain new where "pool = field_pool p @ new" "list_all (in_bounds (buffer p)) new"
    by (rule parse_one_pool)
  with assms(1,2) parse_one_Complete [OF assms(3)] show ?thesis
    by (auto simp: parser_ok_def frame_ok_def list_all_iff push_frame_def)
qed

lemma parse_available_ok: "parser_ok p \<Longrightarrow> parser_ok (parse_available p)"
proof (induction p rule: parse_available_induct)
  case (error p e pool)
  then show ?case by (simp add: parse_available_error parser_ok_def)
next
  case (complete p c pool)
  then have "parser_error p = []" by (simp add: parsing_def)
  with complete show ?case by (simp add: parse_available_Complete push_frame_ok)
qed (simp_all add: parse_available_idle parse_available_Incomplete)

lemma compact_ok: "parser_ok p \<Longrightarrow> parser_ok (compact_consumed_prefix p)"
  by (auto simp: parser_ok_def compact_consumed_prefix_def frame_ok_def)

lemma parser_append_ok: "parser_ok p \<Longrightarrow> parser_ok (parser_append p bytes)"
proof -
  assume "parser_ok p"
  then have "parser_ok (if frames p = [] then compact_consumed_prefix p else p)"
    by (simp add: compact_ok)
  then have "parser_ok (q\<lparr>buffer := buffer q @ bytes\<rparr>)"
    if "q = (if frames p = [] then compact_consumed_prefix p else p)" for q
    unfolding that by (auto simp: parser_ok_def frame_ok_def list_all_iff in_bounds_append)
  with \<open>parser_ok p\<close> show ?thesis
    by (simp only: parser_append_def Let_def parse_available_ok split: if_split) simp
qed

lemma parser_pop_ok: "parser_ok p \<Longrightarrow> parser_ok (snd (parser_pop p))"
  by (cases "frames p") (auto simp: parser_pop_def compact_ok, auto simp: parser_ok_def frame_ok_def list_all_iff)

lemma parser_clear_ok: "parser_ok (parser_clear p)"
  by (simp add: parser_ok_def parser_clear_def)

lemma new_parser_ok: "parser_ok new_parser"
  by (simp add: parser_ok_def new_parser_def)

end
