(* ===== verification/Resp_Parser_Correct.thy ===== *)
theory Resp_Parser_Correct
  imports Resp_Parser
begin

text \<open>
  Correctness of the request parser of \<open>Resp_Parser\<close>: the vectorised line search equals the scalar
  one, more input never changes a decision already taken, a reference decoder on plain byte strings,
  and the refinement of the parser object (offsets, pool, compaction) to a queue of decoded commands.
\<close>

section \<open>The vector backends of the line search\<close>

lemma find_crlf_alt: "find_crlf buf i = crlf_scan (drop i buf) i"
  by (simp add: find_crlf_def)

lemma find_crlf_skip:
  assumes "i \<le> i'" and "\<And>j. i \<le> j \<Longrightarrow> j < i' \<Longrightarrow> \<not> (j + 1 < length buf \<and> buf ! j = CR \<and> buf ! (j + 1) = LF)"
  shows "find_crlf buf i = find_crlf buf i'"
  by (rule option_eq_Some_I, unfold find_crlf_Some) (use assms in \<open>auto; meson leI le_trans\<close>)

lemma find_filter: "find P (filter Q xs) = find (\<lambda>x. Q x \<and> P x) xs"
  by (induction xs) auto

lemma find_upt_Some:
  "find P [i..<j] = Some k \<longleftrightarrow> i \<le> k \<and> k < j \<and> P k \<and> (\<forall>m. i \<le> m \<and> m < k \<longrightarrow> \<not> P m)"
proof (induction "j - i" arbitrary: i)
  case (Suc n)
  then have "[i..<j] = i # [Suc i..<j]" by (simp add: upt_conv_Cons)
  with Suc(1) [of "Suc i"] Suc(2) show ?case
    by (auto simp: Suc_le_eq) (metis le_neq_implies_less)+
qed auto

lemma crlf_chunks_find:
  "(case crlf_chunks w buf i of Inl k \<Rightarrow> Some k | Inr i' \<Rightarrow> find_crlf buf i') = find_crlf buf i"
proof (induction w buf i rule: crlf_chunks.induct)
  case (1 w buf i)
  show ?case
  proof (cases "0 < w \<and> i + w \<le> length buf")
    case True
    let ?hit = "\<lambda>k. buf ! k = CR \<and> k + 1 < length buf \<and> buf ! (k + 1) = LF"
    let ?bits = "filter (\<lambda>k. buf ! k = CR) [i..<i + w]"
    have f: "find (\<lambda>k. k + 1 < length buf \<and> buf ! (k + 1) = LF) ?bits = find ?hit [i..<i + w]"
      by (simp add: find_filter)
    show ?thesis
    proof (cases "find ?hit [i..<i + w]")
      case (Some k)
      then have "find_crlf buf i = Some k"
        unfolding find_upt_Some find_crlf_Some by auto
      with True f Some show ?thesis by (simp add: crlf_chunks.simps [of w] Let_def)
    next
      case None
      then have "find_crlf buf i = find_crlf buf (i + w)"
        by (intro find_crlf_skip) (auto simp: find_None_iff)
      with True f None 1 show ?thesis by (simp add: crlf_chunks.simps [of w _ i] Let_def)
    qed
  next
    case False
    then show ?thesis by (auto simp: crlf_chunks.simps [of w _ i])
  qed
qed

lemma crlf_backend_find: "crlf_backend ws buf i = find_crlf buf i"
proof (induction ws arbitrary: i)
  case (Cons w ws)
  then show ?case
    using crlf_chunks_find [where w = w and i = i and buf = buf] by (cases "crlf_chunks w buf i") simp_all
qed (simp add: find_crlf_alt)

text \<open>C25: whatever vector widths a backend runs its loops with (32 then 16 lanes with AVX2, 16 with
  SSE2 or NEON, none in the portable build), the line search returns exactly the position the scalar
  scan returns: the first carriage return followed by a line feed.\<close>

theorem find_crlf_simd_scalar: "find_crlf_simd ws buf off = find_crlf buf off"
  by (simp add: find_crlf_simd_def crlf_backend_find) (simp add: find_crlf_def)

section \<open>More input does not change what has been decided\<close>

lemma nth_append_less: "i < length xs \<Longrightarrow> (xs @ ys) ! i = xs ! i"
  by (simp add: nth_append)

lemma crlf_scan_append: "crlf_scan s i = Some k \<Longrightarrow> crlf_scan (s @ x) i = Some k"
  by (induction s i rule: crlf_scan.induct) (auto split: if_splits)

lemma find_crlf_append: "find_crlf buf off = Some k \<Longrightarrow> find_crlf (buf @ x) off = Some k"
  by (auto simp: find_crlf_def crlf_scan_append split: if_splits)

lemma substr_append_in: "off + n \<le> length b \<Longrightarrow> substr (b @ x) off n = substr b off n"
  by (rule substr_append_left)

lemma parse_bulks_append:
  "cursor \<le> length buf \<Longrightarrow> fst (parse_bulks buf n cursor out) \<noteq> Incomplete \<Longrightarrow>
   parse_bulks (buf @ x) n cursor out = parse_bulks buf n cursor out"
proof (induction n arbitrary: cursor out)
  case (Suc n)
  then have c: "cursor < length buf" by (auto split: if_splits)
  show ?case
  proof (cases "buf ! cursor = CHR ''$''")
    case True
    with Suc.prems c obtain e where e: "find_crlf buf (cursor + 1) = Some e"
      by (auto split: option.splits)
    note b = find_crlf_bounds [OF e]
    from b have ss: "substr (buf @ x) (cursor + 1) (e - cursor - 1) = substr buf (cursor + 1) (e - cursor - 1)"
      by (intro substr_append_in) auto
    show ?thesis
    proof (cases "parse_i64 (substr buf (cursor + 1) (e - cursor - 1))")
      case None
      with True c e ss show ?thesis by (simp add: nth_append_less find_crlf_append)
    next
      case (Some len)
      with Suc.prems True c e
      have "len < 0 \<or> nat len > kMaxBulkBytes \<or> e + 2 + nat len + 2 \<le> length buf"
        by (auto simp: Let_def split: if_splits)
      with Suc True c e ss Some show ?thesis
        by (auto simp: nth_append_less find_crlf_append Let_def split: if_splits)
    qed
  next
    case False
    with c show ?thesis by (simp add: nth_append_less)
  qed
qed simp

lemma parse_resp_array_append:
  assumes "off < length buf" and "fst (parse_resp_array buf off out) \<noteq> Incomplete"
  shows "parse_resp_array (buf @ x) off out = parse_resp_array buf off out"
proof -
  from assms(2) obtain e where e: "find_crlf buf (off + 1) = Some e"
    by (auto simp: parse_resp_array_def split: option.splits)
  note b = find_crlf_bounds [OF e]
  from b have ss: "substr (buf @ x) (off + 1) (e - off - 1) = substr buf (off + 1) (e - off - 1)"
    by (intro substr_append_in) auto
  from b have le: "e + 2 \<le> length buf" by simp
  show ?thesis
    using assms(2) e ss parse_bulks_append [OF le]
    by (auto simp: parse_resp_array_def find_crlf_append split: option.splits if_splits)
qed

lemma parse_one_append:
  assumes "fst (parse_one buf off out) \<noteq> Incomplete"
    and "fst (parse_one buf off out) \<noteq> Parse_error inline_too_large"
  shows "parse_one (buf @ x) off out = parse_one buf off out"
proof -
  from assms(1) have off: "off < length buf" by (auto simp: parse_one_def split: if_splits)
  show ?thesis
  proof (cases "buf ! off = CHR ''*''")
    case True
    with off assms(1) show ?thesis
      by (simp add: parse_one_def nth_append_less parse_resp_array_append)
  next
    case False
    with off assms obtain e where e: "find_crlf buf off = Some e"
      by (auto simp: parse_one_def parse_inline_def split: option.splits if_splits)
    from find_crlf_bounds [OF e] have "substr (buf @ x) off (e - off) = substr buf off (e - off)"
      by (intro substr_append_in) auto
    with False off e show ?thesis
      by (simp add: parse_one_def nth_append_less parse_inline_def find_crlf_append)
  qed
qed

lemma parse_bulks_error_nonempty: "parse_bulks buf n cursor out \<noteq> (Parse_error [], pool)"
  by (induction n arbitrary: cursor out) (auto simp: Let_def split: option.splits)

lemma parse_one_error_nonempty: "parse_one buf off out = (Parse_error e, pool) \<Longrightarrow> e \<noteq> []"
  by (auto simp: parse_one_def parse_resp_array_def parse_inline_def inline_too_large_def
      parse_bulks_error_nonempty split: if_splits option.splits)

lemma push_frame_extend:
  "push_frame (p\<lparr>buffer := b\<rparr>) c pool = (push_frame p c pool)\<lparr>buffer := b\<rparr>"
  by (simp add: push_frame_def)

lemma parse_available_extend:
  "parser_error p = [] \<Longrightarrow> parser_error (parse_available p) \<noteq> inline_too_large \<Longrightarrow>
   parse_available (p\<lparr>buffer := buffer p @ x\<rparr>) =
     (if parser_error (parse_available p) \<noteq> [] then parse_available p
      else parse_available ((parse_available p)\<lparr>buffer := buffer (parse_available p) @ x\<rparr>))"
proof (induction p rule: parse_available_induct)
  case (idle p)
  then show ?case by (simp add: parse_available_idle)
next
  case (complete p c pool)
  let ?p = "p\<lparr>buffer := buffer p @ x\<rparr>"
  have "parsing ?p" and "next_frame ?p = (Complete c, pool)"
    using complete.hyps by (auto simp: parsing_def parse_one_append)
  then have "parse_available ?p = parse_available (push_frame ?p c pool)"
    by (rule parse_available_Complete)
  with complete show ?case by (simp add: parse_available_Complete push_frame_extend)
next
  case (incomplete p pool)
  then show ?case by (simp add: parse_available_Incomplete)
next
  case (error p e pool)
  let ?p = "p\<lparr>buffer := buffer p @ x\<rparr>"
  have "e \<noteq> inline_too_large" using error by (simp add: parse_available_error)
  then have "parsing ?p" and "next_frame ?p = (Parse_error e, pool)"
    using error.hyps by (auto simp: parsing_def parse_one_append)
  then have "parse_available ?p = fail_parser ?p e" by (rule parse_available_error)
  with error parse_one_error_nonempty [OF error.hyps(2)] show ?case
    by (simp add: parse_available_error fail_parser_def)
qed

lemma parse_available_keeps:
  "parser_error (parse_available p) = [] \<Longrightarrow>
   popped_until (parse_available p) = popped_until p \<and>
   (\<exists>new. frames (parse_available p) = frames p @ new) \<and> buffer (parse_available p) = buffer p"
proof (induction p rule: parse_available_induct)
  case (complete p c pool)
  then show ?case by (auto simp: parse_available_Complete) (simp add: push_frame_def)
next
  case (error p e pool)
  with parse_one_error_nonempty show ?case by (simp add: parse_available_error)
qed (simp_all add: parse_available_idle parse_available_Incomplete)

lemma parser_append_split:
  assumes ok: "parser_error (parser_append p xs) \<noteq> inline_too_large"
  shows "parser_append (parser_append p xs) ys = parser_append p (xs @ ys)"
proof (cases "xs = [] \<or> ys = [] \<or> parser_error p \<noteq> []")
  case True
  then show ?thesis by (auto simp: parser_append_def)
next
  case False
  define p1 where "p1 = (if frames p = [] then compact_consumed_prefix p else p)"
  define q where "q = parse_available (p1\<lparr>buffer := buffer p1 @ xs\<rparr>)"
  have q: "parser_append p xs = q" using False by (simp add: parser_append_def p1_def q_def Let_def)
  have "parser_error p1 = []" using False by (simp add: p1_def compact_consumed_prefix_def)
  moreover from ok q have "parser_error q \<noteq> inline_too_large" by simp
  ultimately have ext: "parse_available (p1\<lparr>buffer := buffer p1 @ xs @ ys\<rparr>) =
     (if parser_error q \<noteq> [] then q else parse_available (q\<lparr>buffer := buffer q @ ys\<rparr>))"
    using parse_available_extend [of "p1\<lparr>buffer := buffer p1 @ xs\<rparr>" ys, folded q_def] by simp
  have "compact_consumed_prefix q = q" if "parser_error q = []" "frames q = []"
    using parse_available_keeps [of "p1\<lparr>buffer := buffer p1 @ xs\<rparr>"] that
    by (auto simp: q_def p1_def compact_consumed_prefix_def split: if_splits)
  then have "parser_append q ys = (if parser_error q \<noteq> [] then q else parse_available (q\<lparr>buffer := buffer q @ ys\<rparr>))"
    using False by (simp add: parser_append_def Let_def)
  moreover have "parser_append p (xs @ ys) = parse_available (p1\<lparr>buffer := buffer p1 @ xs @ ys\<rparr>)"
    using False by (simp add: parser_append_def p1_def Let_def)
  ultimately show ?thesis using q ext by simp
qed

section \<open>A reference decoder on byte strings\<close>

text \<open>The specification reads a command off the front of a byte string, with no offsets, pool or
  cursor: \<open>Cmd fields rest\<close>, \<open>More\<close> (the string ends inside a command) or \<open>Bad\<close> error.\<close>

datatype decoded =
    Cmd "string list" string
  | More
  | Bad string

definition split_line :: "string \<Rightarrow> (string \<times> string) option" where
  "split_line s = map_option (\<lambda>k. (take k s, drop (k + 2) s)) (crlf_scan s 0)"

fun with_field :: "string \<Rightarrow> decoded \<Rightarrow> decoded" where
  "with_field f (Cmd fs r) = Cmd (f # fs) r"
| "with_field f d = d"

fun decode_bulks :: "nat \<Rightarrow> string \<Rightarrow> decoded" where
  "decode_bulks 0 s = Cmd [] s"
| "decode_bulks (Suc n) [] = More"
| "decode_bulks (Suc n) (c # t) =
     (if c \<noteq> CHR ''$'' then Bad ''ERR Protocol error: expected bulk string''
      else case split_line t of
        None \<Rightarrow> More
      | Some (line, r) \<Rightarrow>
          (case parse_i64 line of
             None \<Rightarrow> Bad ''ERR Protocol error: invalid bulk length''
           | Some len \<Rightarrow>
               if len < 0 then Bad ''ERR Protocol error: invalid bulk length''
               else if nat len > kMaxBulkBytes then Bad ''ERR Protocol error: bulk length is too large''
               else if length r < nat len + 2 then More
               else if substr r (nat len) 2 \<noteq> crlf then Bad ''ERR Protocol error: invalid bulk terminator''
               else with_field (take (nat len) r) (decode_bulks n (drop (nat len + 2) r))))"

lemma length_dropWhile_less: "t \<noteq> [] \<Longrightarrow> P (hd t) \<Longrightarrow> length (dropWhile P t) < length t"
  by (cases t) (auto simp: less_Suc_eq_le length_dropWhile_le)

function inline_words :: "string \<Rightarrow> string list" where
  "inline_words s =
     (let t = dropWhile is_inline_separator s
      in if t = [] then []
         else takeWhile (\<lambda>c. \<not> is_inline_separator c) t #
              inline_words (dropWhile (\<lambda>c. \<not> is_inline_separator c) t))"
  by pat_completeness auto
termination
proof (relation "measure length", goal_cases)
  case (2 s t)
  then have "\<not> is_inline_separator (hd t)" using hd_dropWhile by metis
  with 2 have "length (dropWhile (\<lambda>c. \<not> is_inline_separator c) t) < length t"
    by (intro length_dropWhile_less) auto
  also have "\<dots> \<le> length s" using 2 by (simp add: length_dropWhile_le)
  finally show ?case by simp
qed simp

declare inline_words.simps [simp del]

definition decode_command :: "string \<Rightarrow> decoded" where
  "decode_command s =
     (case s of
        [] \<Rightarrow> More
      | c # t \<Rightarrow>
          if c = CHR ''*'' then
            (case split_line t of
               None \<Rightarrow> More
             | Some (line, r) \<Rightarrow>
                 (case parse_i64 line of
                    None \<Rightarrow> Bad ''ERR Protocol error: invalid multibulk length''
                  | Some n \<Rightarrow>
                      if n < 0 then Bad ''ERR Protocol error: invalid multibulk length''
                      else if nat n > kMaxArrayElements
                        then Bad ''ERR Protocol error: multibulk length is too large''
                      else decode_bulks (nat n) r))
          else
            (case split_line s of
               None \<Rightarrow> if length s > kMaxInlineBytes then Bad inline_too_large else More
             | Some (line, r) \<Rightarrow> Cmd (inline_words line) r))"

definition field_text :: "string \<Rightarrow> field_range \<Rightarrow> string" where
  "field_text buf f = substr buf (fr_offset f) (fr_length f)"

fun denote :: "string \<Rightarrow> field_range list \<Rightarrow> parse_result \<times> field_range list \<Rightarrow> decoded" where
  "denote buf out (Complete c, pool) = Cmd (map (field_text buf) (drop (length out) pool)) (drop c buf)"
| "denote buf out (Incomplete, pool) = More"
| "denote buf out (Parse_error e, pool) = Bad e"

lemma crlf_scan_shift: "crlf_scan s i = map_option ((+) i) (crlf_scan s 0)"
proof -
  have "crlf_scan s (i + j) = map_option ((+) i) (crlf_scan s j)" for j
    by (induction s j rule: crlf_scan.induct) auto
  from this [of 0] show ?thesis by simp
qed

lemma split_line_find_crlf:
  "split_line (drop off buf) = map_option (\<lambda>e. (substr buf off (e - off), drop (e + 2) buf)) (find_crlf buf off)"
  by (cases "length buf \<le> off")
    (auto simp: split_line_def find_crlf_def substr_def crlf_scan_shift [of _ off] option.map_comp o_def
      add.commute add.left_commute intro!: option.map_cong0)

lemma denote_snoc:
  assumes "parsed_ok buf c (out @ [f]) res"
  shows "denote buf out res = with_field (field_text buf f) (denote buf (out @ [f]) res)"
proof -
  obtain r pool where res: "res = (r, pool)" by (cases res)
  with assms obtain new where "pool = out @ f # new" by (auto simp: parsed_ok_def)
  with res show ?thesis by (cases r) simp_all
qed

lemma substr_two: "k + 2 \<le> length b \<Longrightarrow> substr b k 2 = [b ! k, b ! (k + 1)]"
  by (simp add: substr_def numeral_2_eq_2 take_Suc_conv_app_nth)

lemma parse_bulks_decode:
  "cursor \<le> length buf \<Longrightarrow> denote buf out (parse_bulks buf n cursor out) = decode_bulks n (drop cursor buf)"
proof (induction n arbitrary: cursor out)
  case 0
  then show ?case by simp
next
  case (Suc n)
  show ?case
  proof (cases "cursor < length buf")
    case False
    with Suc.prems show ?thesis by simp
  next
    case True
    then have d: "drop cursor buf = buf ! cursor # drop (cursor + 1) buf"
      by (simp add: Cons_nth_drop_Suc)
    show ?thesis
    proof (cases "find_crlf buf (cursor + 1)")
      case None
      with True d show ?thesis by (simp add: split_line_find_crlf)
    next
      case (Some e)
      note b = find_crlf_bounds [OF Some]
      define f where "f = (\<lambda>len. \<lparr>fr_offset = e + 2, fr_length = len\<rparr>)"
      have step: "denote buf out (parse_bulks buf n (e + 2 + (len + 2)) (out @ [f len])) =
          with_field (take len (drop (e + 2) buf)) (decode_bulks n (drop (len + 2) (drop (e + 2) buf)))"
        if "e + 2 + len + 2 \<le> length buf" for len
        using that denote_snoc [OF parse_bulks_ok [of "e + 2 + (len + 2)" buf "out @ [f len]" n]]
          Suc.IH [of "e + 2 + (len + 2)" "out @ [f len]"]
        by (simp add: f_def field_text_def substr_def add.commute add.left_commute)
      have "substr (drop (e + 2) buf) len 2 = [buf ! (e + 2 + len), buf ! (e + 2 + len + 1)]"
        if "e + 2 + len + 2 \<le> length buf" for len
        using that by (simp add: substr_two)
      with step True d Some b show ?thesis
        by (auto simp: split_line_find_crlf Let_def f_def split: option.split)
    qed
  qed
qed

lemma parse_resp_array_decode:
  assumes "off < length buf" and "buf ! off = CHR ''*''"
  shows "denote buf out (parse_resp_array buf off out) = decode_command (drop off buf)"
proof -
  from assms(1) have d: "drop off buf = buf ! off # drop (off + 1) buf"
    by (simp add: Cons_nth_drop_Suc)
  show ?thesis
  proof (cases "find_crlf buf (off + 1)")
    case None
    with d assms(2) show ?thesis by (simp add: parse_resp_array_def decode_command_def split_line_find_crlf)
  next
    case (Some e)
    from find_crlf_bounds [OF Some] have "e + 2 \<le> length buf" by simp
    with Some d assms(2) show ?thesis
      by (auto simp: parse_resp_array_def decode_command_def split_line_find_crlf parse_bulks_decode
          split: option.split)
  qed
qed

lemma drop_skip_separators: "drop (skip_separators l c) l = dropWhile is_inline_separator (drop c l)"
  by (simp add: skip_separators_def dropWhile_eq_drop add.commute)

lemma drop_token_end: "drop (token_end l c) l = dropWhile (\<lambda>c. \<not> is_inline_separator c) (drop c l)"
  by (simp add: token_end_def dropWhile_eq_drop add.commute)

lemma inline_tokens_decode:
  assumes "cursor \<le> length line" and "line = substr buf off n"
  shows "\<exists>new. inline_tokens off line cursor out = out @ new \<and>
           map (field_text buf) new = inline_words (drop cursor line)"
  using assms
proof (induction off line cursor out rule: inline_tokens.induct)
  case (1 off line cursor out)
  define ts where "ts = skip_separators line cursor"
  define te where "te = token_end line ts"
  have ts: "drop ts line = dropWhile is_inline_separator (drop cursor line)"
    by (simp add: ts_def drop_skip_separators)
  show ?case
  proof (cases "cursor < length line \<and> ts < length line")
    case True
    have te: "ts \<le> te" "te \<le> length line"
      using True length_takeWhile_drop_le [of ts line] by (simp_all add: te_def token_end_def)
    define f where "f = \<lparr>fr_offset = off + ts, fr_length = te - ts\<rparr>"
    have "\<exists>new. inline_tokens off line te (out @ [f]) = (out @ [f]) @ new \<and>
        map (field_text buf) new = inline_words (drop te line)"
      unfolding f_def te_def ts_def using True te 1
      by (intro "1.IH") (auto simp: ts_def te_def)
    moreover have "field_text buf f = takeWhile (\<lambda>c. \<not> is_inline_separator c) (drop ts line)"
    proof -
      have "te \<le> n" using te 1(3) by (simp add: substr_def)
      then have "field_text buf f = substr line ts (te - ts)"
        using te 1(3) substr_substr [of ts "te - ts" n buf off] by (simp add: field_text_def f_def)
      also have "\<dots> = takeWhile (\<lambda>c. \<not> is_inline_separator c) (drop ts line)"
        by (simp add: substr_def te_def token_end_def takeWhile_eq_take [symmetric])
      finally show ?thesis .
    qed
    moreover have "inline_tokens off line cursor out = inline_tokens off line te (out @ [f])"
      using True by (simp add: inline_tokens.simps [of off line cursor] Let_def ts_def te_def f_def)
    moreover have "inline_words (drop cursor line) =
        takeWhile (\<lambda>c. \<not> is_inline_separator c) (drop ts line) # inline_words (drop te line)"
      using True by (simp add: inline_words.simps [of "drop cursor line"] Let_def ts [symmetric] te_def drop_token_end)
    ultimately show ?thesis by auto
  next
    case False
    then have "inline_tokens off line cursor out = out"
      by (auto simp: inline_tokens.simps [of off line cursor] Let_def ts_def)
    moreover from False 1 have "drop ts line = []"
      using skip_separators_ge [of cursor line] by (auto simp: ts_def)
    then have "inline_words (drop cursor line) = []"
      by (simp add: inline_words.simps [of "drop cursor line"] Let_def ts)
    ultimately show ?thesis by simp
  qed
qed

lemma parse_one_decode: "denote buf out (parse_one buf off out) = decode_command (drop off buf)"
proof (cases "off < length buf")
  case False
  then show ?thesis by (simp add: parse_one_def decode_command_def)
next
  case True
  then have d: "drop off buf = buf ! off # drop (off + 1) buf" by (simp add: Cons_nth_drop_Suc)
  show ?thesis
  proof (cases "buf ! off = CHR ''*''")
    case True
    with \<open>off < length buf\<close> show ?thesis by (simp add: parse_one_def parse_resp_array_decode)
  next
    case False
    from True have "length buf - off = Suc (length buf - Suc off)" by simp
    then have "decode_command (drop off buf) =
       (case find_crlf buf off of
          None \<Rightarrow> if length buf - off > kMaxInlineBytes then Bad inline_too_large else More
        | Some e \<Rightarrow> Cmd (inline_words (substr buf off (e - off))) (drop (e + 2) buf))"
      using False True split_line_find_crlf [of off buf]
      by (simp add: decode_command_def d split: option.split)
    moreover have "map (field_text buf) (drop (length out) (inline_tokens off (substr buf off k) 0 out)) =
        inline_words (substr buf off k)" for k
      using inline_tokens_decode [of 0 "substr buf off k" buf off k out] by auto
    ultimately show ?thesis
      using False True by (auto simp: parse_one_def parse_inline_def split: option.split)
  qed
qed

lemma denote_inject:
  "denote buf out (parse_one buf off out) = Cmd fs r \<Longrightarrow>
     \<exists>c pool. parse_one buf off out = (Complete c, pool) \<and> r = drop c buf \<and>
       fs = map (field_text buf) (drop (length out) pool)"
  "denote buf out (parse_one buf off out) = More \<Longrightarrow> \<exists>pool. parse_one buf off out = (Incomplete, pool)"
  "denote buf out (parse_one buf off out) = Bad e \<Longrightarrow> \<exists>pool. parse_one buf off out = (Parse_error e, pool)"
  by (cases "parse_one buf off out"; cases "fst (parse_one buf off out)"; auto)+

lemma decode_command_shorter:
  assumes "decode_command s = Cmd fs r"
  shows "length r < length s"
proof -
  from assms parse_one_decode [of s "[]" 0] have "denote s [] (parse_one s 0 []) = Cmd fs r" by simp
  then obtain c pool where c: "parse_one s 0 [] = (Complete c, pool)" "r = drop c s"
    using denote_inject(1) by blast
  with parse_one_Complete [OF c(1)] show ?thesis by auto
qed

function decode_all :: "string \<Rightarrow> string + (string list list \<times> string)" where
  "decode_all s =
     (case decode_command s of
        Cmd fs r \<Rightarrow> map_sum id (\<lambda>(cs, t). (fs # cs, t)) (decode_all r)
      | More \<Rightarrow> Inr ([], s)
      | Bad e \<Rightarrow> Inl e)"
  by pat_completeness auto
termination
  by (relation "measure length") (auto simp: decode_command_shorter)

declare decode_all.simps [simp del]

datatype command_source =
    Failed string
  | Source "string list list" string

definition abs_parser :: "resp_parser \<Rightarrow> command_source" where
  "abs_parser p =
     (if parser_error p \<noteq> [] then Failed (parser_error p)
      else Source (map (frame_fields p) (frames p)) (drop (parse_offset p) (buffer p)))"

fun source_append :: "command_source \<Rightarrow> string \<Rightarrow> command_source" where
  "source_append (Failed e) x = Failed e"
| "source_append (Source q s) x =
     (if x = [] then Source q s
      else case decode_all (s @ x) of Inl e \<Rightarrow> Failed e | Inr (cs, t) \<Rightarrow> Source (q @ cs) t)"

fun source_pop :: "command_source \<Rightarrow> string list option \<times> command_source" where
  "source_pop (Source (c # q) s) = (Some c, Source q s)"
| "source_pop d = (None, d)"

lemma frame_fields_alt:
  "field_begin q + field_count q \<le> length (field_pool p) \<Longrightarrow>
   frame_fields p q = map (field_text (buffer p)) (substr (field_pool p) (field_begin q) (field_count q))"
  by (rule nth_equalityI)
    (auto simp: frame_fields_def field_text_def Let_def substr_def length_substr)

lemma frame_fields_extend:
  assumes "frame_ok p q" and "list_all (in_bounds (buffer p)) (field_pool p)"
  shows "frame_fields (p\<lparr>buffer := buffer p @ x\<rparr>) q = frame_fields p q"
  unfolding frame_fields_def
proof (rule map_cong)
  fix i assume "i \<in> set [0..<field_count q]"
  then have "field_pool p ! (field_begin q + i) \<in> set (field_pool p)"
    using assms(1) by (simp add: frame_ok_def)
  with assms(2) have "in_bounds (buffer p) (field_pool p ! (field_begin q + i))"
    by (simp add: list_all_iff)
  then show "(let f = field_pool (p\<lparr>buffer := buffer p @ x\<rparr>) ! (field_begin q + i)
       in substr (buffer (p\<lparr>buffer := buffer p @ x\<rparr>)) (fr_offset f) (fr_length f)) =
     (let f = field_pool p ! (field_begin q + i) in substr (buffer p) (fr_offset f) (fr_length f))"
    by (simp add: Let_def in_bounds_def substr_append_in)
qed simp

lemma push_frame_commands:
  assumes "parser_ok p" and "next_frame p = (Complete c, pool)"
  shows "map (frame_fields (push_frame p c pool)) (frames (push_frame p c pool)) =
    map (frame_fields p) (frames p) @ [map (field_text (buffer p)) (drop (length (field_pool p)) pool)]"
proof -
  from assms(2) obtain new where new: "pool = field_pool p @ new" by (rule parse_one_pool)
  have "frame_fields (push_frame p c pool) q = frame_fields p q" if "q \<in> set (frames p)" for q
  proof -
    from that assms(1) have "field_begin q + field_count q \<le> length (field_pool p)"
      by (simp add: parser_ok_def frame_ok_def list_all_iff)
    then show ?thesis by (simp add: frame_fields_alt new substr_append_in)
  qed
  then show ?thesis
    by (simp add: push_frame_def new frame_fields_alt substr_def)
qed

lemma abs_parse_available:
  "parser_ok p \<Longrightarrow> parser_error p = [] \<Longrightarrow>
   abs_parser (parse_available p) =
     (case decode_all (drop (parse_offset p) (buffer p)) of
        Inl e \<Rightarrow> Failed e
      | Inr (cs, t) \<Rightarrow> Source (map (frame_fields p) (frames p) @ cs) t)"
proof (induction p rule: parse_available_induct)
  case (idle p)
  then show ?case
    by (simp add: parse_available_idle parsing_def decode_all.simps [of "[]"] decode_command_def abs_parser_def)
next
  case (complete p c pool)
  let ?s = "drop (parse_offset p) (buffer p)"
  have "decode_command ?s = Cmd (map (field_text (buffer p)) (drop (length (field_pool p)) pool)) (drop c (buffer p))"
    using parse_one_decode [of "buffer p" "field_pool p" "parse_offset p"] complete.hyps(2) by simp
  with complete show ?case
    by (simp add: parse_available_Complete push_frame_ok push_frame_commands decode_all.simps [of ?s]
        split: sum.split)
next
  case (incomplete p pool)
  let ?s = "drop (parse_offset p) (buffer p)"
  have "decode_command ?s = More"
    using parse_one_decode [of "buffer p" "field_pool p" "parse_offset p"] incomplete.hyps(2) by simp
  with incomplete show ?case
    by (simp add: parse_available_Incomplete decode_all.simps [of ?s] abs_parser_def)
next
  case (error p e pool)
  let ?s = "drop (parse_offset p) (buffer p)"
  have "decode_command ?s = Bad e"
    using parse_one_decode [of "buffer p" "field_pool p" "parse_offset p"] error.hyps(2) by simp
  with error parse_one_error_nonempty [OF error.hyps(2)] show ?case
    by (simp add: parse_available_error decode_all.simps [of ?s] abs_parser_def)
qed

lemma abs_compact: "parser_ok p \<Longrightarrow> abs_parser (compact_consumed_prefix p) = abs_parser p"
  by (auto simp: abs_parser_def compact_consumed_prefix_def parser_ok_def min_def)

lemma abs_parser_append:
  assumes ok: "parser_ok p"
  shows "abs_parser (parser_append p x) = source_append (abs_parser p) x"
proof (cases "x = [] \<or> parser_error p \<noteq> []")
  case True
  then show ?thesis by (auto simp: parser_append_def abs_parser_def)
next
  case False
  define p1 where "p1 = (if frames p = [] then compact_consumed_prefix p else p)"
  have p1: "parser_ok p1" "abs_parser p1 = abs_parser p"
    using ok by (simp_all add: p1_def compact_ok abs_compact)
  have e: "parser_error p1 = []" using False by (simp add: p1_def compact_consumed_prefix_def)
  let ?p = "p1\<lparr>buffer := buffer p1 @ x\<rparr>"
  have "parser_ok ?p"
    using p1(1) by (auto simp: parser_ok_def frame_ok_def list_all_iff in_bounds_append)
  moreover have "map (frame_fields ?p) (frames p1) = map (frame_fields p1) (frames p1)"
    using p1(1) by (auto simp: parser_ok_def list_all_iff frame_fields_extend)
  moreover have "drop (parse_offset p1) (buffer p1 @ x) = drop (parse_offset p1) (buffer p1) @ x"
    using p1(1) by (simp add: parser_ok_def)
  moreover have "parser_append p x = parse_available ?p"
    using False by (simp add: parser_append_def p1_def Let_def)
  ultimately show ?thesis
    using e abs_parse_available [of ?p] False
    unfolding p1(2) [symmetric] by (simp add: abs_parser_def split: sum.split)
qed

lemma abs_parser_pop:
  assumes "parser_ok p"
  shows "fst (parser_pop p) = fst (source_pop (abs_parser p)) \<and>
    abs_parser (snd (parser_pop p)) = snd (source_pop (abs_parser p))"
  using assms abs_compact [of p]
  by (cases "frames p") (auto simp: parser_pop_def abs_parser_def frame_fields_def [abs_def] parser_ok_def)

section \<open>The parser as a source of commands\<close>

definition queued_commands :: "resp_parser \<Rightarrow> string list list" where
  "queued_commands p = map (frame_fields p) (frames p)"

lemma queued_commands_compact: "queued_commands (compact_consumed_prefix p) = queued_commands p"
  by (simp add: queued_commands_def compact_consumed_prefix_def)

interpretation commands: fifo_source parser_pop queued_commands parser_ok
proof
  show "parser_ok s \<Longrightarrow> parser_ok (snd (parser_pop s))" for s by (rule parser_pop_ok)
  show "parser_pop s = (Some x, s') \<Longrightarrow> queued_commands s = x # queued_commands s'" for s x s'
    by (auto simp: parser_pop_def queued_commands_def frame_fields_def [abs_def] split: list.splits)
  show "parser_pop s = (None, s') \<Longrightarrow> queued_commands s = [] \<and> queued_commands s' = []" for s s'
    using queued_commands_compact [of s]
    by (auto simp: parser_pop_def queued_commands_def split: list.splits)
qed

lemma foldl_append_error: "parser_error p \<noteq> [] \<Longrightarrow> foldl parser_append p xs = p"
  by (induction xs) (auto simp: parser_append_def)

lemma foldl_append_concat:
  "parser_error (foldl parser_append p xs) = [] \<Longrightarrow> foldl parser_append p xs = parser_append p (concat xs)"
proof (induction xs arbitrary: p)
  case Nil
  then show ?case by (simp add: parser_append_def)
next
  case (Cons x xs)
  have "parser_error (parser_append p x) = []"
    using Cons.prems foldl_append_error [of "parser_append p x" xs] by (metis foldl_Cons)
  then have "parser_error (parser_append p x) \<noteq> inline_too_large" by (simp add: inline_too_large_def)
  then have "parser_append (parser_append p x) (concat xs) = parser_append p (x @ concat xs)"
    by (rule parser_append_split)
  moreover have "foldl parser_append (parser_append p x) xs = parser_append (parser_append p x) (concat xs)"
    using Cons by simp
  ultimately show ?case by simp
qed

lemma abs_queued: "abs_parser p = Source q s \<Longrightarrow> queued_commands p = q"
  by (auto simp: abs_parser_def queued_commands_def split: if_splits)

lemma decode_all_length: "decode_all s = Inr (cs, t) \<Longrightarrow> length cs \<le> length s"
proof (induction s arbitrary: cs rule: decode_all.induct)
  case (1 s)
  show ?case
  proof (cases "decode_command s")
    case (Cmd fs r)
    with 1(2) obtain ds where "decode_all r = Inr (ds, t)" "cs = fs # ds"
      by (cases "decode_all r") (auto simp: decode_all.simps [of s])
    with 1(1) [OF Cmd] decode_command_shorter [OF Cmd] show ?thesis by fastforce
  qed (use 1(2) in \<open>auto simp: decode_all.simps [of s]\<close>)
qed

lemma decode_all_source:
  assumes "parser_error (parser_append new_parser x) = []"
  shows "\<exists>cs t. decode_all x = Inr (cs, t) \<and> queued_commands (parser_append new_parser x) = cs"
proof (cases "x = []")
  case True
  then show ?thesis
    by (simp add: decode_all.simps [of "[]"] decode_command_def parser_append_def new_parser_def queued_commands_def)
next
  case False
  have "abs_parser new_parser = Source [] []" by (simp add: abs_parser_def new_parser_def)
  with abs_parser_append [OF new_parser_ok, of x] False
  have a: "abs_parser (parser_append new_parser x) =
    (case decode_all x of Inl e \<Rightarrow> Failed e | Inr (cs, t) \<Rightarrow> Source cs t)" by (simp cong: sum.case_cong)
  from assms have "abs_parser (parser_append new_parser x) \<noteq> Failed e" for e
    by (simp add: abs_parser_def)
  with a abs_queued show ?thesis by (auto split: sum.splits)
qed

inductive parser_reach :: "resp_parser \<Rightarrow> bool" where
  reach_new: "parser_reach new_parser"
| reach_append: "parser_reach p \<Longrightarrow> parser_reach (parser_append p bytes)"
| reach_pop: "parser_reach p \<Longrightarrow> parser_reach (snd (parser_pop p))"
| reach_pop_into: "parser_reach p \<Longrightarrow> parser_reach (snd (snd (parser_pop_into p out)))"
| reach_clear: "parser_reach p \<Longrightarrow> parser_reach (parser_clear p)"

lemma pop_into_pop:
  "snd (snd (parser_pop_into p out)) = snd (parser_pop p)"
  "fst (parser_pop_into p out) \<longleftrightarrow> fst (parser_pop p) \<noteq> None"
  "fst (snd (parser_pop_into p out)) = (case fst (parser_pop p) of None \<Rightarrow> out | Some c \<Rightarrow> c)"
  by (auto simp: parser_pop_into_def parser_pop_def split: list.split)

lemma parser_reach_ok: "parser_reach p \<Longrightarrow> parser_ok p"
  by (induction rule: parser_reach.induct)
    (auto simp: new_parser_ok parser_append_ok parser_pop_ok parser_clear_ok pop_into_pop)

section \<open>Properties\<close>

definition ping_bytes :: string where
  "ping_bytes = ''*1'' @ crlf @ ''$4'' @ crlf @ ''PING'' @ crlf @ ''QUIT'' @ crlf"

lemmas decode_eval = decode_command_def split_line_def parse_i64_eq decimal_text_def is_digit_def
  ch_to_digit_def kMaxArrayElements_def kMaxBulkBytes_def substr_def is_inline_separator_def

lemma decode_ping: "decode_command ping_bytes = Cmd [''PING''] (''QUIT'' @ crlf)"
  by (simp add: ping_bytes_def decode_eval)

lemma decode_quit: "decode_command (''QUIT'' @ crlf) = Cmd [''QUIT''] []"
  by (simp add: decode_eval inline_words.simps [of "''QUIT''"] inline_words.simps [of "[]"])

lemma decode_part: "decode_command (take 7 ping_bytes) = More"
  by (simp add: ping_bytes_def decode_eval)

lemma abs_new_parser: "abs_parser new_parser = Source [] []"
  by (simp add: abs_parser_def new_parser_def)

lemma source_ping: "source_append (Source [] []) ping_bytes = Source [[''PING''], [''QUIT'']] []"
proof -
  have "decode_all [] = Inr ([], [])" by (simp add: decode_all.simps [of "[]"] decode_command_def)
  then have "decode_all (''QUIT'' @ crlf) = Inr ([[''QUIT'']], [])"
    by (subst decode_all.simps) (simp only: decode_quit decoded.case map_sum.simps id_apply prod.case)
  then have "decode_all ping_bytes = Inr ([[''PING''], [''QUIT'']], [])"
    by (subst decode_all.simps) (simp only: decode_ping decoded.case map_sum.simps id_apply prod.case)
  then show ?thesis by (simp add: ping_bytes_def)
qed

lemma abs_ping_chunks:
  "abs_parser (foldl parser_append new_parser [take 7 ping_bytes, drop 7 ping_bytes]) =
     Source [[''PING''], [''QUIT'']] []"
proof -
  have "source_append (Source [] []) (take 7 ping_bytes) = Source [] (take 7 ping_bytes)"
    by (simp add: decode_all.simps [of "take 7 ping_bytes"] decode_part)
  with source_ping show ?thesis
    by (simp add: abs_parser_append parser_append_ok new_parser_ok abs_new_parser)
      (simp add: ping_bytes_def)
qed

lemma abs_ping: "abs_parser (parser_append new_parser ping_bytes) = Source [[''PING''], [''QUIT'']] []"
  by (simp only: abs_parser_append [OF new_parser_ok] abs_new_parser source_ping)

lemma abs_parser_no_error: "abs_parser p = Source q s \<Longrightarrow> parser_error p = []"
  by (auto simp: abs_parser_def split: if_splits)

text \<open>C18: in every state the parser can reach by \<open>append\<close>, \<open>pop\<close>, \<open>pop_into\<close> and \<open>clear\<close>, each
  field of a queued frame is an existing entry of the field pool, and the range that entry describes
  lies inside the receive buffer: \<open>pop\<close> never builds a view outside the buffer.\<close>

theorem parser_fields_in_buffer:
  assumes "parser_reach p" and "q \<in> set (frames p)" and "i < field_count q"
  shows "field_begin q + i < length (field_pool p) \<and>
    fr_offset (field_pool p ! (field_begin q + i)) + fr_length (field_pool p ! (field_begin q + i))
      \<le> length (buffer p)"
proof -
  from parser_reach_ok [OF assms(1)] assms(2,3)
  have "field_begin q + i < length (field_pool p)" and "list_all (in_bounds (buffer p)) (field_pool p)"
    by (auto simp: parser_ok_def frame_ok_def list_all_iff)
  then show ?thesis by (auto simp: list_all_iff in_bounds_def)
qed

theorem parser_fields_in_buffer_witness:
  "let p = parser_append new_parser ping_bytes; q = hd (frames p) in
     field_begin q + 0 < length (field_pool p) \<and>
     fr_offset (field_pool p ! (field_begin q + 0)) + fr_length (field_pool p ! (field_begin q + 0))
       \<le> length (buffer p)"
proof -
  from abs_queued [OF abs_ping] have "frames (parser_append new_parser ping_bytes) \<noteq> [] \<and>
    0 < field_count (hd (frames (parser_append new_parser ping_bytes)))"
    by (auto simp: queued_commands_def frame_fields_def intro!: Nat.gr0I)
  then show ?thesis unfolding Let_def
    by (intro parser_fields_in_buffer) (auto intro: reach_append reach_new)
qed

text \<open>C15: \<open>append\<close> refines the reference source. Whatever the buffer has been compacted to, the bytes
  are decoded as if the undecoded rest and the new bytes were one string: the commands found are
  queued in order behind those already waiting, the undecodable tail is kept, and a protocol error
  discards the queue and is sticky.\<close>

theorem parser_append_refines:
  assumes "parser_reach p"
  shows "abs_parser (parser_append p x) = source_append (abs_parser p) x"
  by (rule abs_parser_append [OF parser_reach_ok [OF assms]])

theorem parser_append_refines_witness:
  "abs_parser (parser_append new_parser ping_bytes) = Source [[''PING''], [''QUIT'']] []"
  using parser_append_refines [OF reach_new, of ping_bytes]
  by (simp only: abs_new_parser source_ping)

text \<open>C26: \<open>pop\<close> refines taking the head of the command queue, and \<open>pop_into\<close> agrees with \<open>pop\<close>: it
  reports whether a command was available, hands over the same fields (leaving the caller's vector
  alone when the queue is empty) and leaves the same parser behind.\<close>

theorem parser_pop_refines:
  assumes "parser_reach p"
  shows "fst (parser_pop p) = fst (source_pop (abs_parser p)) \<and>
    abs_parser (snd (parser_pop p)) = snd (source_pop (abs_parser p)) \<and>
    parser_pop_into p out =
      (fst (parser_pop p) \<noteq> None, case fst (parser_pop p) of None \<Rightarrow> out | Some c \<Rightarrow> c, snd (parser_pop p))"
  using abs_parser_pop [OF parser_reach_ok [OF assms]] pop_into_pop [of p out] by (simp add: prod_eq_iff)

theorem parser_pop_refines_witness:
  "fst (parser_pop (parser_append new_parser ping_bytes)) = Some [''PING'']"
  using parser_pop_refines [OF reach_append [OF reach_new], of ping_bytes "[]"]
  by (simp only: abs_ping source_pop.simps fst_conv)

text \<open>C3: how the network cuts a request stream into reads does not matter. If the chunks fed to a
  parser leave no error, the parser ends in exactly the state one \<open>append\<close> of the whole stream gives,
  and popping it dry delivers exactly the commands the reference decoder finds in the stream.\<close>

theorem parser_chunking:
  assumes "parser_error (foldl parser_append new_parser chunks) = []"
    and "length (concat chunks) \<le> n"
  shows "foldl parser_append new_parser chunks = parser_append new_parser (concat chunks) \<and>
    (\<exists>t. decode_all (concat chunks) = Inr (fst (drain parser_pop n (foldl parser_append new_parser chunks)), t))"
proof -
  let ?p = "foldl parser_append new_parser chunks"
  have p: "?p = parser_append new_parser (concat chunks)"
    by (rule foldl_append_concat [OF assms(1)])
  have ok: "parser_reach ?p" unfolding p by (intro reach_append reach_new)
  obtain cs t where d: "decode_all (concat chunks) = Inr (cs, t)" and "queued_commands ?p = cs"
    using decode_all_source [OF assms(1) [unfolded p]] unfolding p by blast
  moreover have "length cs \<le> n" using decode_all_length [OF d] assms(2) by simp
  ultimately show ?thesis
    using p commands.drain_all [OF parser_reach_ok [OF ok], of n] by auto
qed

theorem parser_chunking_witness:
  "let chunks = [take 7 ping_bytes, drop 7 ping_bytes] in
   foldl parser_append new_parser chunks = parser_append new_parser (concat chunks) \<and>
    (\<exists>t. decode_all (concat chunks) = Inr (fst (drain parser_pop 40 (foldl parser_append new_parser chunks)), t))"
proof -
  have "parser_error (foldl parser_append new_parser [take 7 ping_bytes, drop 7 ping_bytes]) = []"
    by (rule abs_parser_no_error [OF abs_ping_chunks])
  moreover have "length (concat [take 7 ping_bytes, drop 7 ping_bytes]) \<le> 40" by (simp add: ping_bytes_def)
  ultimately show ?thesis unfolding Let_def by (rule parser_chunking)
qed

lemma crlf_scan_none: "CR \<notin> set x \<Longrightarrow> crlf_scan x i = None"
  by (induction x i rule: crlf_scan.induct) auto

lemma crlf_scan_line: "CR \<notin> set x \<Longrightarrow> crlf_scan (x @ CR # LF # r) i = Some (i + length x)"
proof (induction x arbitrary: i)
  case (Cons c x)
  then have "crlf_scan (c # (x @ CR # LF # r)) i = crlf_scan (x @ CR # LF # r) (Suc i)"
    by (cases x) auto
  with Cons show ?case by simp
qed simp

lemma split_line_crlf: "CR \<notin> set x \<Longrightarrow> split_line (x @ CR # LF # r) = Some (x, r)"
  by (simp add: split_line_def crlf_scan_line)

lemma inline_words_single:
  "x \<noteq> [] \<Longrightarrow> list_all (\<lambda>c. \<not> is_inline_separator c) x \<Longrightarrow> inline_words x = [x]"
proof -
  assume a: "x \<noteq> []" "list_all (\<lambda>c. \<not> is_inline_separator c) x"
  then have "dropWhile is_inline_separator x = x" by (cases x) auto
  moreover from a have "takeWhile (\<lambda>c. \<not> is_inline_separator c) x = x"
    and "dropWhile (\<lambda>c. \<not> is_inline_separator c) x = []" by (auto simp: list_all_iff)
  ultimately have "inline_words x = x # inline_words []"
    using a(1) by (subst inline_words.simps) (simp only: Let_def if_False)
  then show ?thesis by (simp add: inline_words.simps [of "[]"])
qed

text \<open>C27: the size limit of an inline command is checked only while its line end has not arrived. A
  line of one byte more than \<open>kMaxInlineBytes\<close> is a protocol error when its CRLF comes in a later read,
  and an ordinary command when it comes in the same read.\<close>

theorem inline_limit_depends_on_chunking:
  "let x = replicate (kMaxInlineBytes + 1) CHR ''a'' in
     abs_parser (parser_append (parser_append new_parser x) crlf) = Failed inline_too_large \<and>
     abs_parser (parser_append new_parser (x @ crlf)) = Source [[x]] []"
proof -
  define n where "n = kMaxInlineBytes"
  let ?x = "replicate (n + 1) CHR ''a''"
  have x: "?x = CHR ''a'' # replicate n CHR ''a''" "CR \<notin> set ?x" by (auto simp del: replicate_Suc simp: replicate_Suc [symmetric])
  have "decode_command ?x = Bad inline_too_large"
    using x crlf_scan_none [OF x(2), of 0] by (simp add: decode_command_def split_line_def n_def)
  then have "source_append (Source [] []) ?x = Failed inline_too_large"
    by (simp add: decode_all.simps [of ?x, simplified])
  moreover have "inline_words ?x = [?x]"
    by (rule inline_words_single) (auto simp: list_all_iff is_inline_separator_def simp del: replicate_Suc)
  then have "decode_command (?x @ crlf) = Cmd [?x] []"
    using x split_line_crlf [OF x(2), of "[]"] by (simp add: decode_command_def)
  then have "decode_all (?x @ crlf) = Inr ([[?x]], [])"
    by (subst decode_all.simps) (simp add: decode_all.simps [of "[]"] decode_command_def)
  then have "source_append (Source [] []) (?x @ crlf) = Source [[?x]] []" by simp
  ultimately show ?thesis
    by (simp add: Let_def abs_parser_append parser_append_ok new_parser_ok abs_new_parser n_def [symmetric]
        del: replicate_Suc source_append.simps(2) One_nat_def)
qed

end
