(* ===== verification/String_Encoding.thy ===== *)
theory String_Encoding
  imports Parse_Int
begin

unbundle bit_operations_syntax

text \<open>
  The stored form of string values (\<open>include/goblin/core/string_encoding.hpp\<close>,
  \<open>src/string_encoding.cpp\<close>): a one-byte tag, then a canonical integer as an offset of 1 to 8
  big-endian bytes, a UUID as 16 bytes, an LZ4 block behind a 24-bit length, or the raw bytes; or no
  tag at all when the encoding is disabled. \<open>EncodedString\<close> classifies and writes a value,
  \<open>EncodedStringView\<close> reads one back from a stored form that may be split into an inline head and a
  tail in an arena.

  LZ4 is a library the sources call. It is a parameter here, the record \<open>lz4\<close>: the size bound,
  compression at a level into a bounded buffer (\<open>None\<close> for a non-positive return value) and
  decompression into a buffer of a given size (\<open>None\<close> unless exactly that many bytes come out).
  What the code relies on is the predicate \<open>lz4_ok\<close>.
\<close>

section \<open>Options\<close>

type_synonym u32 = "32 word"

definition kStringMaxEncodedBytes :: nat where "kStringMaxEncodedBytes = 65535"
definition kStringMaxBytes :: nat where "kStringMaxBytes = 65534"
definition kStringMaxVerbatimBytes :: nat where "kStringMaxVerbatimBytes = 65535"
definition kStringMaxCompressedLogicalBytes :: nat where "kStringMaxCompressedLogicalBytes = 0xFFFFFF"

lemmas string_limits = kStringMaxEncodedBytes_def kStringMaxBytes_def kStringMaxVerbatimBytes_def
  kStringMaxCompressedLogicalBytes_def

record string_encoding_options =
  packed :: u32

definition kThresholdMask :: u32 where "kThresholdMask = push_bit 25 1 - 1"
definition kLevelShift :: nat where "kLevelShift = 25"
definition kLevelMask :: u32 where "kLevelMask = push_bit kLevelShift 0x1F"
definition kDisabledMask :: u32 where "kDisabledMask = push_bit 30 1"

definition default_options :: string_encoding_options where
  "default_options = \<lparr>packed = 0\<rparr>"

definition with_lz4 :: "nat \<Rightarrow> string_encoding_options" where
  "with_lz4 min_bytes =
     (let largest = kStringMaxCompressedLogicalBytes + 1;
          capped = (if min_bytes > largest then largest else min_bytes)
      in \<lparr>packed = of_nat (capped + 1)\<rparr>)"

definition set_lz4_min_bytes :: "nat \<Rightarrow> string_encoding_options \<Rightarrow> string_encoding_options" where
  "set_lz4_min_bytes min_bytes opts =
     (let flags = packed opts AND (kLevelMask OR kDisabledMask)
      in \<lparr>packed = packed (with_lz4 min_bytes) OR flags\<rparr>)"

definition valid_lz4_compress_level :: "int \<Rightarrow> bool" where
  "valid_lz4_compress_level level \<longleftrightarrow>
     level = 0 \<or> (level \<ge> 3 \<and> level \<le> 12) \<or> (level \<le> -1 \<and> level \<ge> -8)"

definition set_lz4_compress_level :: "int \<Rightarrow> string_encoding_options \<Rightarrow> string_encoding_options" where
  "set_lz4_compress_level level0 opts =
     (let level = (if valid_lz4_compress_level level0 then level0 else 0);
          code = (if level < 0 then of_int (- level) else if level > 0 then of_int (level + 6) else 0)
      in \<lparr>packed = (packed opts AND NOT kLevelMask) OR push_bit kLevelShift code\<rparr>)"

definition disable_encoding :: "string_encoding_options \<Rightarrow> string_encoding_options" where
  "disable_encoding opts = \<lparr>packed = packed opts OR kDisabledMask\<rparr>"

definition options_encoding_enabled :: "string_encoding_options \<Rightarrow> bool" where
  "options_encoding_enabled opts \<longleftrightarrow> packed opts AND kDisabledMask = 0"

definition lz4_enabled :: "string_encoding_options \<Rightarrow> bool" where
  "lz4_enabled opts \<longleftrightarrow> options_encoding_enabled opts \<and> packed opts AND kThresholdMask \<noteq> 0"

definition lz4_min_bytes :: "string_encoding_options \<Rightarrow> nat" where
  "lz4_min_bytes opts = (if lz4_enabled opts then unat ((packed opts AND kThresholdMask) - 1) else 0)"

definition lz4_compress_level :: "string_encoding_options \<Rightarrow> int" where
  "lz4_compress_level opts =
     (let code = uint (drop_bit kLevelShift (packed opts AND kLevelMask))
      in if code \<le> 8 then - code else code - 6)"

definition max_value_bytes :: "string_encoding_options \<Rightarrow> nat" where
  "max_value_bytes opts = (if options_encoding_enabled opts then kStringMaxBytes else kStringMaxVerbatimBytes)"

subsection \<open>The three fields of the packed word\<close>

text \<open>The word is read as three fields: 25 bits of threshold, 5 bits of level, one flag.\<close>

definition opt_threshold :: "u32 \<Rightarrow> nat" where
  "opt_threshold w = unat (take_bit 25 w)"

definition opt_level :: "u32 \<Rightarrow> nat" where
  "opt_level w = unat (take_bit 5 (drop_bit 25 w))"

lemma mask_forms:
  "kThresholdMask = mask 25" "kLevelMask = push_bit 25 (mask 5)" "kDisabledMask = push_bit 30 1"
  by (simp_all add: kThresholdMask_def kLevelMask_def kLevelShift_def kDisabledMask_def mask_eq_exp_minus_1)

lemma enabled_bit: "options_encoding_enabled opts \<longleftrightarrow> \<not> bit (packed opts) 30"
  unfolding options_encoding_enabled_def mask_forms push_bit_of_1 by (rule and_exp_eq_0_iff_not_bit)

lemma threshold_field: "packed opts AND kThresholdMask = take_bit 25 (packed opts)"
  by (simp add: mask_forms take_bit_eq_mask)

lemma level_field: "drop_bit kLevelShift (packed opts AND kLevelMask) = take_bit 5 (drop_bit 25 (packed opts))"
  by (rule bit_eqI) (auto simp: kLevelShift_def mask_forms bit_simps)

lemma flags_word_fields:
  assumes "v < 2 ^ 25"
  shows "take_bit 25 (of_nat v OR (w AND (kLevelMask OR kDisabledMask)) :: u32) = of_nat v"
    and "take_bit 5 (drop_bit 25 (of_nat v OR (w AND (kLevelMask OR kDisabledMask)) :: u32)) =
      take_bit 5 (drop_bit 25 w)"
    and "bit (of_nat v OR (w AND (kLevelMask OR kDisabledMask)) :: u32) 30 = bit w 30"
proof -
  have v: "n < 25" if "bit (of_nat v :: u32) n" for n
  proof -
    have "take_bit 25 (of_nat v :: u32) = of_nat v"
      using assms by (simp add: take_bit_of_nat take_bit_nat_eq_self)
    with that have "bit (take_bit 25 (of_nat v :: u32)) n" by simp
    then show ?thesis by (simp add: bit_take_bit_iff)
  qed
  have d: "bit kDisabledMask n \<longleftrightarrow> n = 30" for n
    unfolding mask_forms push_bit_of_1 bit_exp_iff by auto
  have l: "bit kLevelMask n \<longleftrightarrow> 25 \<le> n \<and> n < 30" for n
    unfolding mask_forms by (auto simp: bit_push_bit_iff bit_mask_iff)
  show "take_bit 25 (of_nat v OR (w AND (kLevelMask OR kDisabledMask)) :: u32) = of_nat v"
    by (rule bit_eqI) (auto simp: bit_take_bit_iff bit_or_iff bit_and_iff d l dest: v)
  show "take_bit 5 (drop_bit 25 (of_nat v OR (w AND (kLevelMask OR kDisabledMask)) :: u32)) =
      take_bit 5 (drop_bit 25 w)"
    by (rule bit_eqI) (auto simp: bit_take_bit_iff bit_or_iff bit_and_iff bit_drop_bit_eq d l dest: v)
  show "bit (of_nat v OR (w AND (kLevelMask OR kDisabledMask)) :: u32) 30 = bit w 30"
    by (auto simp: bit_or_iff bit_and_iff d l dest: v)
qed

lemma level_word_fields:
  assumes "c < 2 ^ 5"
  shows "take_bit 25 ((w AND NOT kLevelMask) OR push_bit 25 (of_nat c) :: u32) = take_bit 25 w"
    and "take_bit 5 (drop_bit 25 ((w AND NOT kLevelMask) OR push_bit 25 (of_nat c) :: u32)) = of_nat c"
    and "bit ((w AND NOT kLevelMask) OR push_bit 25 (of_nat c) :: u32) 30 = bit w 30"
proof -
  have c: "n < 5" if "bit (of_nat c :: u32) n" for n
  proof -
    have "take_bit 5 (of_nat c :: u32) = of_nat c"
      using assms by (simp add: take_bit_of_nat take_bit_nat_eq_self)
    with that have "bit (take_bit 5 (of_nat c :: u32)) n" by simp
    then show ?thesis by (simp add: bit_take_bit_iff)
  qed
  have l: "bit kLevelMask n \<longleftrightarrow> 25 \<le> n \<and> n < 30" for n
    unfolding mask_forms by (auto simp: bit_push_bit_iff bit_mask_iff)
  show "take_bit 25 ((w AND NOT kLevelMask) OR push_bit 25 (of_nat c) :: u32) = take_bit 25 w"
    by (rule bit_eqI) (auto simp: bit_take_bit_iff bit_or_iff bit_and_iff bit_not_iff bit_push_bit_iff l)
  show "take_bit 5 (drop_bit 25 ((w AND NOT kLevelMask) OR push_bit 25 (of_nat c) :: u32)) = of_nat c"
    by (rule bit_eqI)
      (auto simp: bit_take_bit_iff bit_or_iff bit_and_iff bit_not_iff bit_push_bit_iff bit_drop_bit_eq l dest: c)
  show "bit ((w AND NOT kLevelMask) OR push_bit 25 (of_nat c) :: u32) 30 = bit w 30"
    by (auto simp: bit_or_iff bit_and_iff bit_not_iff bit_push_bit_iff l dest: c)
qed

lemma lz4_min_bytes_field:
  "lz4_min_bytes opts =
     (if options_encoding_enabled opts then unat (take_bit 25 (packed opts)) - 1 else 0)"
proof -
  have "unat (w - 1) = unat w - 1" if "w \<noteq> 0" for w :: u32
    using that by (simp add: unat_minus_one)
  then show ?thesis
    by (auto simp: lz4_min_bytes_def lz4_enabled_def threshold_field)
qed

lemma lz4_enabled_field:
  "lz4_enabled opts \<longleftrightarrow> options_encoding_enabled opts \<and> take_bit 25 (packed opts) \<noteq> 0"
  by (simp add: lz4_enabled_def threshold_field)

lemma lz4_compress_level_field:
  "lz4_compress_level opts =
     (let code = uint (take_bit 5 (drop_bit 25 (packed opts))) in if code \<le> 8 then - code else code - 6)"
  by (simp only: lz4_compress_level_def level_field)

lemma set_lz4_min_bytes_fields:
  "options_encoding_enabled (set_lz4_min_bytes n opts) = options_encoding_enabled opts"
  "lz4_enabled (set_lz4_min_bytes n opts) = options_encoding_enabled opts"
  "lz4_min_bytes (set_lz4_min_bytes n opts) =
     (if options_encoding_enabled opts then min n (kStringMaxCompressedLogicalBytes + 1) else 0)"
  "lz4_compress_level (set_lz4_min_bytes n opts) = lz4_compress_level opts"
proof -
  define v where "v = min n (kStringMaxCompressedLogicalBytes + 1) + 1"
  have v: "v < 2 ^ 25" by (simp add: v_def string_limits)
  have p: "packed (set_lz4_min_bytes n opts) = of_nat v OR (packed opts AND (kLevelMask OR kDisabledMask))"
    by (simp add: set_lz4_min_bytes_def with_lz4_def v_def min_def Let_def)
  note f = flags_word_fields [OF v, of "packed opts", folded p]
  show e: "options_encoding_enabled (set_lz4_min_bytes n opts) = options_encoding_enabled opts"
    by (simp add: enabled_bit f(3))
  have u: "unat (of_nat v :: u32) = v" using v by (simp add: unsigned_of_nat take_bit_nat_eq_self)
  then have "(of_nat v :: u32) \<noteq> 0" by (metis unsigned_0 v_def add_is_0 one_neq_zero)
  with e show "lz4_enabled (set_lz4_min_bytes n opts) = options_encoding_enabled opts"
    by (simp add: lz4_enabled_field f(1))
  from e u show "lz4_min_bytes (set_lz4_min_bytes n opts) =
     (if options_encoding_enabled opts then min n (kStringMaxCompressedLogicalBytes + 1) else 0)"
    by (simp add: lz4_min_bytes_field f(1) v_def)
  show "lz4_compress_level (set_lz4_min_bytes n opts) = lz4_compress_level opts"
    by (simp add: lz4_compress_level_field f(2))
qed

lemma set_lz4_compress_level_fields:
  "options_encoding_enabled (set_lz4_compress_level l opts) = options_encoding_enabled opts"
  "lz4_enabled (set_lz4_compress_level l opts) = lz4_enabled opts"
  "lz4_min_bytes (set_lz4_compress_level l opts) = lz4_min_bytes opts"
  "lz4_compress_level (set_lz4_compress_level l opts) = (if valid_lz4_compress_level l then l else 0)"
proof -
  define l' where "l' = (if valid_lz4_compress_level l then l else 0)"
  define c where "c = nat (if l' < 0 then - l' else if l' > 0 then l' + 6 else 0)"
  have l': "l' = 0 \<or> (l' \<ge> 3 \<and> l' \<le> 12) \<or> (l' \<le> -1 \<and> l' \<ge> -8)"
    by (simp add: l'_def valid_lz4_compress_level_def)
  then have c: "c < 2 ^ 5" by (auto simp: c_def)
  have "packed (set_lz4_compress_level l opts) = (packed opts AND NOT kLevelMask) OR push_bit 25 (of_nat c)"
    by (simp add: set_lz4_compress_level_def Let_def l'_def [symmetric] kLevelShift_def c_def of_nat_nat)
  note f = level_word_fields [OF c, of "packed opts", folded this]
  show e: "options_encoding_enabled (set_lz4_compress_level l opts) = options_encoding_enabled opts"
    by (simp add: enabled_bit f(3))
  with f(1) show "lz4_enabled (set_lz4_compress_level l opts) = lz4_enabled opts"
    "lz4_min_bytes (set_lz4_compress_level l opts) = lz4_min_bytes opts"
    by (simp_all add: lz4_enabled_field lz4_min_bytes_field)
  have "uint (of_nat c :: u32) = int c" using c by (simp add: unsigned_of_nat take_bit_nat_eq_self)
  with l' f(2) show "lz4_compress_level (set_lz4_compress_level l opts) =
      (if valid_lz4_compress_level l then l else 0)"
    unfolding l'_def [symmetric] by (auto simp: lz4_compress_level_field Let_def c_def)
qed

lemma disable_fields:
  "\<not> options_encoding_enabled (disable_encoding opts)" "\<not> lz4_enabled (disable_encoding opts)"
  "lz4_min_bytes (disable_encoding opts) = 0"
proof -
  have "bit (packed (disable_encoding opts)) 30"
    unfolding disable_encoding_def mask_forms push_bit_of_1 by (simp add: bit_or_iff bit_exp_iff del: power_numeral)
  then show "\<not> options_encoding_enabled (disable_encoding opts)" "\<not> lz4_enabled (disable_encoding opts)"
    "lz4_min_bytes (disable_encoding opts) = 0"
    by (simp_all add: enabled_bit lz4_enabled_def lz4_min_bytes_def)
qed

section \<open>Helpers of the encoder\<close>

abbreviation (input) kStringPositiveBase :: nat where "kStringPositiveBase \<equiv> 0x80"
abbreviation (input) kStringNegativeBase :: nat where "kStringNegativeBase \<equiv> 0x88"
abbreviation (input) kStringUuidHex :: nat where "kStringUuidHex \<equiv> 0x90"
abbreviation (input) kStringUuidDashed :: nat where "kStringUuidDashed \<equiv> 0x91"
abbreviation (input) kStringLz4 :: nat where "kStringLz4 \<equiv> 0xFE"
abbreviation (input) kStringRaw :: nat where "kStringRaw \<equiv> 0xFF"

fun write_big_endian :: "u64 \<Rightarrow> nat \<Rightarrow> string" where
  "write_big_endian value 0 = []"
| "write_big_endian value (Suc width) =
     write_big_endian (drop_bit 8 value) width @ [chr (unat (value AND 0xFF))]"

function width_for_offset_from :: "nat \<Rightarrow> u64 \<Rightarrow> nat \<times> u64" where
  "width_for_offset_from width off =
     (if width < 8 then
        let capacity = push_bit (width * 8) 1
        in if off < capacity then (width, off)
           else width_for_offset_from (Suc width) (off - capacity)
      else (8, off))"
  by pat_completeness auto
termination
  by (relation "measure (\<lambda>(width, off). 8 - width)") auto

declare width_for_offset_from.simps [simp del]

definition width_for_offset :: "u64 \<Rightarrow> nat \<times> u64" where
  "width_for_offset off = width_for_offset_from 1 off"

definition base_sum :: "u64 \<Rightarrow> nat \<Rightarrow> u64" where
  "base_sum base width = foldl (\<lambda>b prior. b + push_bit (prior * 8) 1) base [1..<width]"

definition positive_base :: "nat \<Rightarrow> u64" where
  "positive_base width = base_sum 128 width"

definition negative_base :: "nat \<Rightarrow> u64" where
  "negative_base width = base_sum 1 width"

definition lower_hex_nibble :: "char \<Rightarrow> nat option" where
  "lower_hex_nibble ch =
     (if 48 \<le> ord ch \<and> ord ch \<le> 57 then Some (ord ch - 48)
      else if 97 \<le> ord ch \<and> ord ch \<le> 102 then Some (ord ch - 97 + 10)
      else None)"

definition kDashes :: "nat list" where
  "kDashes = [8, 13, 18, 23]"

text \<open>The loop over the 16 bytes; \<open>n\<close> counts the bytes left and the result is the bytes written.\<close>

fun encode_uuid_loop :: "string \<Rightarrow> bool \<Rightarrow> nat \<Rightarrow> nat \<Rightarrow> (string \<times> nat) option" where
  "encode_uuid_loop value dashed 0 source = Some ([], source)"
| "encode_uuid_loop value dashed (Suc n) source =
     (let at_dash = (dashed \<and> source \<in> set kDashes)
      in if at_dash \<and> value ! source \<noteq> CHR ''-'' then None
         else let source = (if at_dash then source + 1 else source)
              in case (lower_hex_nibble (value ! source), lower_hex_nibble (value ! (source + 1))) of
                   (Some high, Some low) \<Rightarrow>
                     map_option (\<lambda>(bytes, s). (chr (16 * high + low) # bytes, s))
                       (encode_uuid_loop value dashed n (source + 2))
                 | _ \<Rightarrow> None)"

definition encode_uuid :: "string \<Rightarrow> bool \<Rightarrow> string option" where
  "encode_uuid value dashed =
     (if length value \<noteq> (if dashed then 36 else 32) then None
      else case encode_uuid_loop value dashed 16 0 of
             None \<Rightarrow> None
           | Some (bytes, source) \<Rightarrow> if source = length value then Some bytes else None)"

fun decimal_digits :: "nat \<Rightarrow> nat" where
  "decimal_digits value = (if value < 10 then 1 else Suc (decimal_digits (value div 10)))"

declare decimal_digits.simps [simp del]

definition lower_hex :: "nat \<Rightarrow> char" where
  "lower_hex value = (if value < 10 then chr (48 + value) else chr (97 + value - 10))"

section \<open>EncodedString\<close>

record lz4 =
  compress_bound :: "nat \<Rightarrow> nat"
  compress :: "int \<Rightarrow> string \<Rightarrow> nat \<Rightarrow> string option"
  decompress_safe :: "string \<Rightarrow> nat \<Rightarrow> string option"

text \<open>What the code relies on: a successful compression is not empty, fits the buffer it was given,
  and decompresses to its source.\<close>

definition lz4_ok :: "lz4 \<Rightarrow> bool" where
  "lz4_ok z \<longleftrightarrow>
     (\<forall>level src cap out. compress z level src cap = Some out \<longrightarrow>
        out \<noteq> [] \<and> length out \<le> cap \<and> decompress_safe z out (length src) = Some src)"

datatype storage = Verbatim | Raw | Inline | Lz4

datatype compression_mode = AllowLz4 | NeverLz4

record encoded_string =
  source :: string
  inline_bytes :: string
  lz4_bytes :: string
  encoded_size :: nat
  storage_kind :: storage

abbreviation u16 :: "nat \<Rightarrow> nat" where
  "u16 n \<equiv> n mod 65536"

definition inline_string :: "string \<Rightarrow> string \<Rightarrow> encoded_string" where
  "inline_string value bytes =
     \<lparr>source = value, inline_bytes = overwrite (replicate 17 (chr 0)) 0 bytes, lz4_bytes = [],
      encoded_size = u16 (length bytes), storage_kind = Inline\<rparr>"

definition maybe_int :: "string \<Rightarrow> bool" where
  "maybe_int value \<longleftrightarrow>
     value \<noteq> [] \<and>
     (is_digit (hd value) \<or>
      (hd value = CHR ''-'' \<and> length value > 1 \<and> is_digit (value ! 1)))"

definition encode_integer :: "nat \<Rightarrow> u64 \<Rightarrow> string" where
  "encode_integer base off =
     (let (width, off') = width_for_offset off
      in chr (base + width - 1) # write_big_endian off' width)"

text \<open>The integer forms: \<open>Some\<close> tag and offset bytes, or \<open>None\<close> when the value is not one.\<close>

definition encode_int_value :: "string \<Rightarrow> string option" where
  "encode_int_value value =
     (if \<not> maybe_int value then None
      else case parse_canonical_u64 value of
        Some magnitude \<Rightarrow>
          Some (if magnitude \<le> 127 then [chr (unat magnitude)]
                else encode_integer kStringPositiveBase (magnitude - 128))
      | None \<Rightarrow>
          if length value > 1 \<and> hd value = CHR ''-'' then
            (case parse_canonical_u64 (tl value) of
               Some magnitude \<Rightarrow>
                 if magnitude \<noteq> 0 then Some (encode_integer kStringNegativeBase (magnitude - 1)) else None
             | None \<Rightarrow> None)
          else None)"

definition encode_uuid_value :: "string \<Rightarrow> string option" where
  "encode_uuid_value value =
     (if length value = 32 \<or> length value = 36 then
        (case encode_uuid value False of
           Some bytes \<Rightarrow> Some (chr kStringUuidHex # bytes)
         | None \<Rightarrow> map_option ((#) (chr kStringUuidDashed)) (encode_uuid value True))
      else None)"

definition may_compress :: "string \<Rightarrow> string_encoding_options \<Rightarrow> compression_mode \<Rightarrow> bool" where
  "may_compress value opts compression \<longleftrightarrow>
     compression = AllowLz4 \<and> lz4_enabled opts \<and>
     (length value \<ge> lz4_min_bytes opts \<or> length value > kStringMaxBytes)"

definition encode_lz4 :: "lz4 \<Rightarrow> string \<Rightarrow> string_encoding_options \<Rightarrow> string option" where
  "encode_lz4 z value opts =
     (let kHeaderBytes = 4;
          destination_capacity =
            min (compress_bound z (length value)) (kStringMaxEncodedBytes - kHeaderBytes)
      in map_option (\<lambda>out. chr kStringLz4 # write_big_endian (of_nat (length value)) 3 @ out)
           (compress z (lz4_compress_level opts) value destination_capacity))"

definition encode_string ::
  "lz4 \<Rightarrow> string \<Rightarrow> string_encoding_options \<Rightarrow> compression_mode \<Rightarrow> string + encoded_string" where
  "encode_string z value opts compression =
     (if \<not> options_encoding_enabled opts then
        (if length value > kStringMaxVerbatimBytes
         then Inl ''verbatim string value too large (max 65,535 bytes)''
         else Inr \<lparr>source = value, inline_bytes = replicate 17 (chr 0), lz4_bytes = [],
                   encoded_size = u16 (length value), storage_kind = Verbatim\<rparr>)
      else case encode_int_value value of
        Some bytes \<Rightarrow> Inr (inline_string value bytes)
      | None \<Rightarrow> (case encode_uuid_value value of
          Some bytes \<Rightarrow> Inr (inline_string value bytes)
        | None \<Rightarrow>
            (case (if may_compress value opts compression \<and> length value \<le> kStringMaxCompressedLogicalBytes
                   then encode_lz4 z value opts else None) of
               Some bytes \<Rightarrow>
                 Inr \<lparr>source = value, inline_bytes = replicate 17 (chr 0), lz4_bytes = bytes,
                      encoded_size = u16 (length bytes), storage_kind = Lz4\<rparr>
             | None \<Rightarrow>
                 if length value > kStringMaxBytes then
                   Inl (if length value > kStringMaxCompressedLogicalBytes
                        then ''string value exceeds the 24-bit compressed logical length''
                        else if lz4_enabled opts \<and> compression = AllowLz4
                        then ''string value is neither LZ4-compressible nor raw-storable''
                        else ''string value too large (max 65,534 raw bytes)'')
                 else Inr \<lparr>source = value, inline_bytes = replicate 17 (chr 0), lz4_bytes = [],
                           encoded_size = u16 (length value + 1), storage_kind = Raw\<rparr>)))"

definition encoded_prefix :: "encoded_string \<Rightarrow> nat" where
  "encoded_prefix e =
     (case storage_kind e of
        Verbatim \<Rightarrow> kStringRaw
      | Raw \<Rightarrow> kStringRaw
      | Inline \<Rightarrow> ord (hd (inline_bytes e))
      | Lz4 \<Rightarrow> kStringLz4)"

text \<open>\<open>write_to\<close> and \<open>write_range_to\<close> return the bytes they store at the destination.\<close>

definition write_to :: "encoded_string \<Rightarrow> string" where
  "write_to e =
     (case storage_kind e of
        Verbatim \<Rightarrow> source e
      | Raw \<Rightarrow> chr kStringRaw # source e
      | Inline \<Rightarrow> take (encoded_size e) (inline_bytes e)
      | Lz4 \<Rightarrow> lz4_bytes e)"

definition write_range_to :: "encoded_string \<Rightarrow> nat \<Rightarrow> nat \<Rightarrow> string" where
  "write_range_to e off len =
     (if len = 0 then []
      else case storage_kind e of
        Verbatim \<Rightarrow> substr (source e) off len
      | Raw \<Rightarrow>
          (if off = 0 then chr kStringRaw # substr (source e) 0 (len - 1)
           else substr (source e) (off - 1) len)
      | Inline \<Rightarrow> substr (inline_bytes e) off len
      | Lz4 \<Rightarrow> substr (lz4_bytes e) off len)"

definition equals_encoded :: "encoded_string \<Rightarrow> string \<Rightarrow> bool" where
  "equals_encoded e stored \<longleftrightarrow>
     length stored = encoded_size e \<and>
     (case storage_kind e of
        Verbatim \<Rightarrow> stored = source e
      | Raw \<Rightarrow> stored \<noteq> [] \<and> ord (hd stored) = kStringRaw \<and> tl stored = source e
      | Inline \<Rightarrow> stored = take (encoded_size e) (inline_bytes e)
      | Lz4 \<Rightarrow> stored = lz4_bytes e)"

section \<open>EncodedStringView\<close>

record encoded_view =
  head_part :: string
  tail_part :: string
  view_enabled :: bool

definition view_encoded_size :: "encoded_view \<Rightarrow> nat" where
  "view_encoded_size v = length (head_part v) + length (tail_part v)"

definition byte_at :: "encoded_view \<Rightarrow> nat \<Rightarrow> nat" where
  "byte_at v i =
     (if i < length (head_part v) then ord (head_part v ! i)
      else ord (tail_part v ! (i - length (head_part v))))"

definition view_prefix :: "encoded_view \<Rightarrow> nat" where
  "view_prefix v = (if \<not> view_enabled v \<or> view_encoded_size v = 0 then kStringRaw else byte_at v 0)"

definition read_big_endian :: "encoded_view \<Rightarrow> nat \<Rightarrow> nat \<Rightarrow> u64" where
  "read_big_endian v off width =
     foldl (\<lambda>value i. push_bit 8 value OR of_nat (byte_at v (off + i))) 0 [0..<width]"

definition read_u24_big_endian :: "encoded_view \<Rightarrow> nat \<Rightarrow> nat" where
  "read_u24_big_endian v off = unat (take_bit 32 (read_big_endian v off 3))"

definition view_valid :: "encoded_view \<Rightarrow> bool" where
  "view_valid v =
     (let bytes = view_encoded_size v; tag = view_prefix v
      in if \<not> view_enabled v then bytes \<le> kStringMaxVerbatimBytes
         else if bytes = 0 \<or> bytes > kStringMaxEncodedBytes then False
         else if tag \<le> 0x7F then bytes = 1
         else if tag \<ge> kStringPositiveBase \<and> tag < kStringUuidHex then
           bytes = (if tag < kStringNegativeBase then tag - kStringPositiveBase + 1
                    else tag - kStringNegativeBase + 1) + 1
         else if tag = kStringUuidHex \<or> tag = kStringUuidDashed then bytes = 17
         else if tag = kStringLz4 then
           bytes \<ge> 5 \<and> read_u24_big_endian v 1 \<le> kStringMaxCompressedLogicalBytes
         else tag = kStringRaw)"

definition positive_value :: "encoded_view \<Rightarrow> u64" where
  "positive_value v =
     (let width = view_prefix v - kStringPositiveBase + 1
      in positive_base width + read_big_endian v 1 width)"

definition negative_value :: "encoded_view \<Rightarrow> u64" where
  "negative_value v =
     (let width = view_prefix v - kStringNegativeBase + 1
      in negative_base width + read_big_endian v 1 width)"

definition view_size :: "encoded_view \<Rightarrow> nat" where
  "view_size v =
     (let tag = view_prefix v
      in if \<not> view_enabled v then view_encoded_size v
         else if \<not> view_valid v then 0
         else if tag \<le> 0x7F then decimal_digits tag
         else if tag \<ge> kStringPositiveBase \<and> tag < kStringNegativeBase then
           decimal_digits (unat (positive_value v))
         else if tag \<ge> kStringNegativeBase \<and> tag < kStringUuidHex then
           1 + decimal_digits (unat (negative_value v))
         else if tag = kStringUuidHex then 32
         else if tag = kStringUuidDashed then 36
         else if tag = kStringLz4 then read_u24_big_endian v 1
         else view_encoded_size v - 1)"

definition copy_range :: "encoded_view \<Rightarrow> nat \<Rightarrow> nat \<Rightarrow> string" where
  "copy_range v off len =
     (let hs = length (head_part v);
          from_head = (if off < hs then min len (hs - off) else 0);
          tail_offset = (if off + from_head > hs then off + from_head - hs else 0)
      in substr (head_part v) off from_head @
         (if len > from_head then substr (tail_part v) tail_offset (len - from_head) else []))"

definition copy_encoded_to :: "encoded_view \<Rightarrow> string" where
  "copy_encoded_to v = head_part v @ tail_part v"

definition append_encoded_to :: "encoded_view \<Rightarrow> string \<Rightarrow> string" where
  "append_encoded_to v destination = (destination @ head_part v) @ tail_part v"

definition range_equals :: "encoded_view \<Rightarrow> nat \<Rightarrow> string \<Rightarrow> bool" where
  "range_equals v off logical =
     (let hs = length (head_part v);
          from_head = (if off < hs then min (length logical) (hs - off) else 0);
          tail_offset = (if off + from_head > hs then off + from_head - hs else 0);
          from_tail = length logical - from_head
      in if off + length logical > view_encoded_size v then False
         else if from_head \<noteq> 0 \<and> substr (head_part v) off from_head \<noteq> take from_head logical then False
         else from_tail = 0 \<or> substr (tail_part v) tail_offset from_tail = substr logical from_head from_tail)"

fun decode_uuid_loop :: "encoded_view \<Rightarrow> bool \<Rightarrow> nat \<Rightarrow> nat \<Rightarrow> nat \<Rightarrow> string" where
  "decode_uuid_loop v dashed byte 0 out = []"
| "decode_uuid_loop v dashed byte (Suc n) out =
     (let at_dash = (dashed \<and> out \<in> set kDashes);
          out' = (if at_dash then out + 1 else out);
          value = byte_at v (byte + 1)
      in (if at_dash then ''-'' else []) @
         lower_hex (value div 16) # lower_hex (value mod 16) #
         decode_uuid_loop v dashed (Suc byte) n (out' + 2))"

text \<open>The compressed block of an LZ4 value, from the head, the tail, or copied together.\<close>

definition compressed_block :: "encoded_view \<Rightarrow> string" where
  "compressed_block v =
     (let kHeaderBytes = 4;
          compressed_length = view_encoded_size v - kHeaderBytes
      in if length (head_part v) \<ge> kHeaderBytes + compressed_length
           then substr (head_part v) kHeaderBytes compressed_length
         else if length (head_part v) \<le> kHeaderBytes
           then substr (tail_part v) (kHeaderBytes - length (head_part v)) compressed_length
         else copy_range v kHeaderBytes compressed_length)"

definition append_to :: "lz4 \<Rightarrow> encoded_view \<Rightarrow> string \<Rightarrow> string + string" where
  "append_to z v destination =
     (let tag = view_prefix v
      in if \<not> view_valid v then Inl ''invalid stored string encoding''
         else if \<not> view_enabled v then Inr ((destination @ head_part v) @ tail_part v)
         else if tag = kStringRaw then Inr (destination @ copy_range v 1 (view_encoded_size v - 1))
         else if tag \<le> 0x7F then Inr (destination @ to_chars_u tag)
         else if tag \<ge> kStringPositiveBase \<and> tag < kStringNegativeBase then
           Inr (destination @ to_chars_u (unat (positive_value v)))
         else if tag \<ge> kStringNegativeBase \<and> tag < kStringUuidHex then
           Inr (destination @ CHR ''-'' # to_chars_u (unat (negative_value v)))
         else if tag = kStringUuidHex \<or> tag = kStringUuidDashed then
           Inr (destination @ decode_uuid_loop v (tag = kStringUuidDashed) 0 16 0)
         else let decoded_length = view_size v
              in if decoded_length = 0 then Inr destination
                 else case decompress_safe z (compressed_block v) decoded_length of
                        None \<Rightarrow> Inl ''invalid stored LZ4 string encoding''
                      | Some d \<Rightarrow> Inr (destination @ d))"

definition view_to_string :: "lz4 \<Rightarrow> encoded_view \<Rightarrow> string + string" where
  "view_to_string z v = append_to z v []"

definition view_equals :: "lz4 \<Rightarrow> encoded_view \<Rightarrow> string \<Rightarrow> string + bool" where
  "view_equals z v logical =
     (if \<not> view_valid v \<or> view_size v \<noteq> length logical then Inr False
      else if \<not> view_enabled v then Inr (range_equals v 0 logical)
      else if view_prefix v = kStringRaw then Inr (range_equals v 1 logical)
      else map_sum id (\<lambda>s. s = logical) (view_to_string z v))"

definition string_value_fits ::
  "lz4 \<Rightarrow> string \<Rightarrow> string_encoding_options \<Rightarrow> compression_mode \<Rightarrow> bool" where
  "string_value_fits z value opts compression =
     (if length value \<le> max_value_bytes opts then True
      else case encode_string z value opts compression of Inl e \<Rightarrow> False | Inr e \<Rightarrow> True)"

end
