(* ===== verification/String_Encoding_Correct.thy ===== *)
theory String_Encoding_Correct
  imports String_Encoding
begin

unbundle bit_operations_syntax

text \<open>
  Correctness of the string encoding: reading back what was stored gives the value, whichever form
  the encoder chose and however the stored bytes are split into head and tail; sizes and comparisons
  agree with the value; which values can be stored; and the one class of digit strings the integer
  form does not preserve.
\<close>

section \<open>A view as the bytes it shows\<close>

definition view_bytes :: "encoded_view \<Rightarrow> string" where
  "view_bytes v = head_part v @ tail_part v"

lemma view_encoded_size_eq: "view_encoded_size v = length (view_bytes v)"
  by (simp add: view_encoded_size_def view_bytes_def)

lemma byte_at_eq: "byte_at v i = ord (view_bytes v ! i)"
  by (simp add: byte_at_def view_bytes_def nth_append)

lemma view_prefix_eq:
  "view_prefix v = (if \<not> view_enabled v \<or> view_bytes v = [] then 0xFF else ord (hd (view_bytes v)))"
  by (auto simp: view_prefix_def view_encoded_size_eq byte_at_eq hd_conv_nth)

lemma copy_range_eq: "off + len \<le> length (view_bytes v) \<Longrightarrow> copy_range v off len = substr (view_bytes v) off len"
  by (auto simp: copy_range_def view_bytes_def substr_def Let_def min_def not_less)


lemma compressed_block_eq: "4 \<le> length (view_bytes v) \<Longrightarrow> compressed_block v = drop 4 (view_bytes v)"
  by (auto simp: compressed_block_def Let_def view_encoded_size_def copy_range_eq view_bytes_def substr_def)

section \<open>Big-endian numbers\<close>

lemma push_or_byte: "b < 256 \<Longrightarrow> push_bit 8 (x :: u64) OR of_nat b = x * 256 + of_nat b"
proof -
  assume "b < 256"
  then have b: "take_bit 8 (of_nat b :: u64) = of_nat b"
    by (simp add: take_bit_of_nat take_bit_nat_eq_self)
  have "push_bit 8 x OR of_nat b = push_bit 8 x + of_nat b"
  proof (rule disjunctive_add [symmetric])
    fix n
    have "bit (of_nat b :: u64) n \<Longrightarrow> n < 8"
      using b by (metis bit_take_bit_iff)
    then show "\<not> bit (push_bit 8 x) n \<or> \<not> bit (of_nat b :: u64) n"
      by (auto simp: bit_push_bit_iff)
  qed
  then show ?thesis by (simp add: push_bit_eq_mult)
qed

lemma read_big_endian_eq:
  assumes "off + width \<le> length (view_bytes v)"
  shows "read_big_endian v off width = of_nat (be_value (substr (view_bytes v) off width))"
  using assms
proof (induction width)
  case 0
  then show ?case by (simp add: read_big_endian_def be_value_def substr_def)
next
  case (Suc width)
  then have "substr (view_bytes v) off (Suc width) =
      substr (view_bytes v) off width @ [view_bytes v ! (off + width)]"
    by (simp add: substr_def take_Suc_conv_app_nth)
  then have "be_value (substr (view_bytes v) off (Suc width)) =
      be_value (substr (view_bytes v) off width) * 256 + byte_at v (off + width)"
    by (simp add: be_value_append byte_at_eq)
  moreover have "read_big_endian v off (Suc width) =
      push_bit 8 (read_big_endian v off width) OR of_nat (byte_at v (off + width))"
    by (simp add: read_big_endian_def)
  ultimately show ?case
    using Suc by (simp add: push_or_byte byte_at_eq)
qed

lemma be_bytes_Suc: "be_bytes (Suc k) n = be_bytes k (n div 256) @ [chr n]"
  by (simp add: be_bytes_def)

lemma write_big_endian_eq: "write_big_endian x width = be_bytes width (unat x)"
proof (induction width arbitrary: x)
  case 0
  then show ?case by (simp add: be_bytes_def)
next
  case (Suc width)
  have "unat (drop_bit 8 x) = unat x div 256"
    unfolding unat_drop_bit_eq by (simp add: drop_bit_eq_div)
  moreover have a: "x AND 0xFF = take_bit 8 x"
    by (simp add: take_bit_eq_mask mask_eq_exp_minus_1)
  have "unat (x AND 0xFF) = unat x mod 256"
    unfolding a unsigned_take_bit_eq by (simp add: take_bit_eq_mod)
  moreover have "chr (unat x mod 256) = chr (unat x)"
    by (metis chr_add_256 mod_mult_div_eq)
  ultimately show ?case using Suc by (simp add: be_bytes_Suc)
qed

section \<open>The width of an offset\<close>

definition widths_below :: "nat \<Rightarrow> nat" where
  "widths_below w = (\<Sum>i = 1..<w. 256 ^ i)"

lemma widths_below_Suc: "1 \<le> w \<Longrightarrow> widths_below (Suc w) = widths_below w + 256 ^ w"
  by (simp add: widths_below_def)

lemma push_bit_byte: "push_bit (k * 8) (1 :: u64) = of_nat (256 ^ k)"
proof -
  have "(2 :: u64) ^ (k * 8) = (2 ^ 8) ^ k" by (metis mult.commute power_mult)
  then show ?thesis by (simp add: push_bit_eq_mult)
qed

lemma base_sum_eq: "base_sum b w = b + of_nat (widths_below w)"
proof (induction w)
  case 0
  then show ?case by (simp add: base_sum_def widths_below_def)
next
  case (Suc w)
  show ?case
  proof (cases "w = 0")
    case True
    then show ?thesis by (simp add: base_sum_def widths_below_def)
  next
    case False
    with Suc show ?thesis
      by (simp add: base_sum_def widths_below_Suc push_bit_byte [unfolded push_bit_of_1])
  qed
qed

lemma width_for_offset_from_spec:
  assumes "width_for_offset_from w off = (w', off')" and "1 \<le> w" and "w \<le> 8"
  shows "w \<le> w' \<and> w' \<le> 8 \<and> unat off' < 256 ^ w' \<and>
    unat off + widths_below w = unat off' + widths_below w'"
  using assms
proof (induction w off rule: width_for_offset_from.induct)
  case (1 w off)
  show ?case
  proof (cases "w < 8")
    case True
    have "(256 :: nat) ^ w < 2 ^ 64"
    proof -
      have "(256 :: nat) ^ w \<le> 256 ^ 7" using True by (intro power_increasing) auto
      then show ?thesis by simp
    qed
    then have "unat (of_nat (256 ^ w) :: u64) = 256 ^ w" by (rule unat_of_nat_less)
    then have c: "unat (push_bit (w * 8) (1 :: u64)) = 256 ^ w" by (simp only: push_bit_byte)
    show ?thesis
    proof (cases "off < push_bit (w * 8) 1")
      case less: True
      with True 1(2) have "w' = w" "off' = off" by (auto simp: width_for_offset_from.simps [of w] Let_def)
      with less True c show ?thesis by (simp add: word_less_nat_alt)
    next
      case False
      let ?off = "off - push_bit (w * 8) 1"
      have u: "unat ?off = unat off - 256 ^ w" and le: "256 ^ w \<le> unat off"
        using False c by (simp_all add: unat_sub word_less_nat_alt not_less word_le_nat_alt)
      have "width_for_offset_from (Suc w) ?off = (w', off')"
        using 1(2) True False by (simp add: width_for_offset_from.simps [of w] Let_def)
      with 1(1) [OF True refl False this] True 1(3) u le show ?thesis
        by (simp add: widths_below_Suc)
    qed
  next
    case False
    with 1(2,4) have "w = 8" "w' = 8" "off' = off" by (auto simp: width_for_offset_from.simps [of w])
    then show ?thesis using unsigned_less [of off] by simp
  qed
qed

section \<open>Reading back each form\<close>

text \<open>\<open>decodes z on bytes value\<close>: every view that shows \<open>bytes\<close>, however split, is valid, has the
  value's size and reads as the value.\<close>

definition decodes :: "lz4 \<Rightarrow> bool \<Rightarrow> string \<Rightarrow> string \<Rightarrow> bool" where
  "decodes z enabled bytes x \<longleftrightarrow>
     (\<forall>v. view_bytes v = bytes \<and> view_enabled v = enabled \<longrightarrow>
        view_valid v \<and> view_size v = length x \<and> view_to_string z v = Inr x)"

lemmas view_eqs = view_encoded_size_eq view_prefix_eq view_to_string_def append_to_def view_size_def
  view_valid_def string_limits

lemma decimal_digits_eq: "decimal_digits n = length (to_chars_u n)"
proof (induction n rule: decimal_digits.induct)
  case (1 n)
  then show ?case by (subst decimal_digits.simps, subst to_chars_u.simps) simp
qed

lemma ord_chr: "n < 256 \<Longrightarrow> ord (chr n) = n"
  by simp

lemma decodes_verbatim: "length x \<le> kStringMaxVerbatimBytes \<Longrightarrow> decodes z False x x"
  by (auto simp: decodes_def view_eqs Let_def view_bytes_def)

lemma decodes_raw:
  assumes "length x \<le> kStringMaxBytes"
  shows "decodes z True (chr 0xFF # x) x"
  unfolding decodes_def
proof (intro allI impI)
  fix v assume v: "view_bytes v = chr 0xFF # x \<and> view_enabled v = True"
  then have p: "view_prefix v = 0xFF" by (simp add: view_prefix_eq)
  from v assms have ok: "view_valid v"
    by (simp add: view_valid_def p Let_def view_encoded_size_eq string_limits)
  have "copy_range v 1 (length x) = x"
    using copy_range_eq [of 1 "length x" v] v by (simp add: substr_def)
  with v p ok show "view_valid v \<and> view_size v = length x \<and> view_to_string z v = Inr x"
    by (simp add: view_size_def view_to_string_def append_to_def Let_def view_encoded_size_eq)
qed

lemma decodes_small_int: "m \<le> 127 \<Longrightarrow> decodes z True [chr m] (to_chars_u m)"
  unfolding decodes_def
proof (intro allI impI)
  fix v assume m: "m \<le> 127" and v: "view_bytes v = [chr m] \<and> view_enabled v = True"
  then have p: "view_prefix v = m" by (simp add: view_prefix_eq)
  from v m have ok: "view_valid v"
    by (simp add: view_valid_def p Let_def view_encoded_size_eq string_limits)
  with v p m show "view_valid v \<and> view_size v = length (to_chars_u m) \<and> view_to_string z v = Inr (to_chars_u m)"
    by (simp add: view_size_def view_to_string_def append_to_def Let_def decimal_digits_eq)
qed

text \<open>An integer form: tag, then \<open>width\<close> offset bytes.\<close>

lemma integer_form:
  assumes "encode_integer base off = bytes" and "base = 0x80 \<or> base = 0x88"
    and "view_bytes v = bytes" and "view_enabled v"
  obtains width where "view_prefix v = base + width - 1" "1 \<le> width" "width \<le> 8"
    "view_valid v" "read_big_endian v 1 width = off - of_nat (widths_below width)"
proof -
  obtain w off' where w: "width_for_offset off = (w, off')" by fastforce
  then have s: "1 \<le> w" "w \<le> 8" "unat off' < 256 ^ w" "unat off = unat off' + widths_below w"
    using width_for_offset_from_spec [of 1 off w off']
    by (auto simp: width_for_offset_def widths_below_def)
  have b: "view_bytes v = chr (base + w - 1) # be_bytes w (unat off')"
    using assms(1,3) w by (simp add: encode_integer_def write_big_endian_eq)
  have p: "view_prefix v = base + w - 1"
    using b assms(2,4) s(1,2) by (auto simp: view_prefix_eq)
  have l: "view_encoded_size v = w + 1" using b by (simp add: view_encoded_size_eq)
  have "view_valid v"
    using assms(2,4) s(1,2) unfolding view_valid_def p l by (auto simp: Let_def string_limits)
  moreover have "read_big_endian v 1 w = off - of_nat (widths_below w)"
  proof -
    have "read_big_endian v 1 w = of_nat (unat off')"
      using read_big_endian_eq [of 1 w v] b s(3) by (simp add: substr_def)
    also have "of_nat (unat off') = (of_nat (unat off) - of_nat (widths_below w) :: u64)"
      unfolding s(4) by simp
    finally show ?thesis by simp
  qed
  ultimately show ?thesis using that p s(1,2) by blast
qed

lemma decodes_positive:
  assumes "\<not> m \<le> 127"
  shows "decodes z True (encode_integer 0x80 (m - 128)) (to_chars_u (unat m))"
  unfolding decodes_def
proof (intro allI impI)
  fix v assume v: "view_bytes v = encode_integer 0x80 (m - 128) \<and> view_enabled v = True"
  then obtain w where w: "view_prefix v = 0x80 + w - 1" "1 \<le> w" "w \<le> 8" "view_valid v"
    "read_big_endian v 1 w = m - 128 - of_nat (widths_below w)"
    using integer_form [where base = "0x80" and off = "m - 128" and v = v, OF refl] by auto
  then have "positive_value v = m"
    by (simp add: positive_value_def positive_base_def base_sum_eq)
  with v w show "view_valid v \<and> view_size v = length (to_chars_u (unat m)) \<and> view_to_string z v = Inr (to_chars_u (unat m))"
    by (auto simp: view_size_def view_to_string_def append_to_def Let_def decimal_digits_eq)
qed

lemma decodes_negative:
  "decodes z True (encode_integer 0x88 (m - 1)) (CHR ''-'' # to_chars_u (unat m))"
  unfolding decodes_def
proof (intro allI impI)
  fix v assume v: "view_bytes v = encode_integer 0x88 (m - 1) \<and> view_enabled v = True"
  then obtain w where w: "view_prefix v = 0x88 + w - 1" "1 \<le> w" "w \<le> 8" "view_valid v"
    "read_big_endian v 1 w = m - 1 - of_nat (widths_below w)"
    using integer_form [where base = "0x88" and off = "m - 1" and v = v, OF refl] by auto
  then have "negative_value v = m"
    by (simp add: negative_value_def negative_base_def base_sum_eq)
  with v w show "view_valid v \<and> view_size v = length (CHR ''-'' # to_chars_u (unat m)) \<and>
      view_to_string z v = Inr (CHR ''-'' # to_chars_u (unat m))"
    by (auto simp: view_size_def view_to_string_def append_to_def Let_def decimal_digits_eq)
qed

subsection \<open>UUIDs\<close>

lemma lower_hex_nibble_Some: "lower_hex_nibble c = Some h \<Longrightarrow> h < 16 \<and> lower_hex h = c"
  by (auto simp: lower_hex_nibble_def lower_hex_def split: if_splits)

lemma hex_pair: "h < 16 \<Longrightarrow> l < 16 \<Longrightarrow> ord (chr (16 * h + l)) div 16 = h \<and> ord (chr (16 * h + l)) mod 16 = l"
  by simp

lemma encode_uuid_loop_decode:
  "encode_uuid_loop x dashed n src = Some (bytes, e) \<Longrightarrow> e \<le> length x \<Longrightarrow>
   (\<And>i. i < n \<Longrightarrow> view_bytes v ! (byte + i + 1) = bytes ! i) \<Longrightarrow>
   length bytes = n \<and> src \<le> e \<and> decode_uuid_loop v dashed byte n src = substr x src (e - src)"
proof (induction n arbitrary: src bytes byte)
  case 0
  then show ?case by (simp add: substr_def)
next
  case (Suc n)
  define d where "d = (dashed \<and> src \<in> set kDashes)"
  define s1 where "s1 = (if d then src + 1 else src)"
  from Suc.prems(1) obtain h l bs where
    dash: "d \<Longrightarrow> x ! src = CHR ''-''" and
    h: "lower_hex_nibble (x ! s1) = Some h" and l: "lower_hex_nibble (x ! (s1 + 1)) = Some l" and
    r: "encode_uuid_loop x dashed n (s1 + 2) = Some (bs, e)" and bytes: "bytes = chr (16 * h + l) # bs"
    by (auto simp: Let_def d_def [symmetric] s1_def split: if_splits option.splits)
  have "view_bytes v ! (Suc byte + i + 1) = bs ! i" if "i < n" for i
    using Suc.prems(3) [of "Suc i"] that bytes by simp
  with Suc.IH [OF r Suc.prems(2), of "Suc byte"]
  have ih: "length bs = n" "s1 + 2 \<le> e" "decode_uuid_loop v dashed (Suc byte) n (s1 + 2) = substr x (s1 + 2) (e - (s1 + 2))"
    by auto
  have b: "byte_at v (byte + 1) = ord (chr (16 * h + l))"
    using Suc.prems(3) [of 0] bytes by (simp add: byte_at_eq)
  note hl = lower_hex_nibble_Some [OF h] lower_hex_nibble_Some [OF l]
  have "substr x src (e - src) = (if d then ''-'' else []) @ x ! s1 # x ! (s1 + 1) # substr x (s1 + 2) (e - (s1 + 2))"
  proof -
    have c: "substr x k (e - k) = x ! k # substr x (Suc k) (e - Suc k)" if "k < e" for k
      using that Suc.prems(2) by (simp add: substr_def Cons_nth_drop_Suc [symmetric] take_Cons' )
    show ?thesis
      using ih(2) dash c [of src] c [of s1] c [of "s1 + 1"] by (auto simp: s1_def)
  qed
  moreover have "src \<le> e" using ih(2) by (auto simp: s1_def split: if_splits)
  ultimately show ?case
    using b hl ih bytes by (auto simp: Let_def d_def [symmetric] s1_def [symmetric] hex_pair simp del: of_char_of)
qed

lemma decodes_uuid:
  assumes "encode_uuid x dashed = Some bytes"
  shows "decodes z True (chr (if dashed then 0x91 else 0x90) # bytes) x"
  unfolding decodes_def
proof (intro allI impI)
  fix v assume v: "view_bytes v = chr (if dashed then 0x91 else 0x90) # bytes \<and> view_enabled v = True"
  from assms obtain e where e: "encode_uuid_loop x dashed 16 0 = Some (bytes, e)" "e = length x"
    and l: "length x = (if dashed then 36 else 32)"
    by (auto simp: encode_uuid_def split: option.splits if_splits)
  have d: "length bytes = 16" "decode_uuid_loop v dashed 0 16 0 = x"
    using encode_uuid_loop_decode [OF e(1), of v 0] e(2) v by (auto simp: substr_def)
  have p: "view_prefix v = (if dashed then 0x91 else 0x90)"
    using v by (simp add: view_prefix_eq)
  have ok: "view_valid v"
    using v d(1) p by (simp add: view_valid_def Let_def view_encoded_size_eq string_limits)
  with v p d l show "view_valid v \<and> view_size v = length x \<and> view_to_string z v = Inr x"
    by (cases dashed) (simp_all add: view_size_def view_to_string_def append_to_def Let_def)
qed

subsection \<open>LZ4\<close>

lemma be_value_u24: "n \<le> 0xFFFFFF \<Longrightarrow> be_value (be_bytes 3 n) = n"
  by simp

lemma decodes_lz4:
  assumes "lz4_ok z" and "length x \<le> kStringMaxCompressedLogicalBytes" and "encode_lz4 z x opts = Some bytes"
  shows "decodes z True bytes x \<and> length bytes \<le> kStringMaxEncodedBytes"
proof -
  define cap where "cap = min (compress_bound z (length x)) (kStringMaxEncodedBytes - 4)"
  from assms(3) obtain out where c: "compress z (lz4_compress_level opts) x cap = Some out"
    and bytes: "bytes = chr 0xFE # write_big_endian (of_nat (length x)) 3 @ out"
    by (auto simp: encode_lz4_def Let_def cap_def)
  with assms(1) have out: "out \<noteq> []" "length out \<le> cap" "decompress_safe z out (length x) = Some x"
    by (auto simp: lz4_ok_def)
  have n: "unat (of_nat (length x) :: u64) = length x"
    using assms(2) by (simp add: unat_of_nat_less string_limits)
  have w: "write_big_endian (of_nat (length x)) 3 = be_bytes 3 (length x)"
    by (simp only: write_big_endian_eq n)
  have len: "length bytes = length out + 4" "length bytes \<le> 65535"
    using out(2) by (simp_all add: bytes w cap_def string_limits)
  have "view_valid v \<and> view_size v = length x \<and> view_to_string z v = Inr x"
    if v: "view_bytes v = bytes" "view_enabled v" for v
  proof -
    have p: "view_prefix v = 0xFE" using v by (simp add: view_prefix_eq bytes)
    have "read_big_endian v 1 3 = of_nat (length x)"
      using read_big_endian_eq [of 1 3 v] v len be_value_u24 [of "length x"] assms(2)
      by (simp add: bytes w substr_def string_limits)
    then have r: "read_u24_big_endian v 1 = length x"
      using assms(2) n by (simp add: read_u24_big_endian_def string_limits take_bit_of_nat take_bit_nat_eq_self)
    have ok: "view_valid v"
      using v len out(1) assms(2) r by (cases out) (simp_all add: view_valid_def p Let_def view_encoded_size_eq string_limits)
    have "compressed_block v = out"
      using compressed_block_eq [of v] v len by (simp add: bytes w)
    with v p ok r out(3) show ?thesis
      by (simp add: view_size_def view_to_string_def append_to_def Let_def)
  qed
  with len show ?thesis by (simp add: decodes_def string_limits)
qed

section \<open>The encoder\<close>

text \<open>Digit strings whose number does not fit 64 bits but that the magnitude parser accepts.\<close>

definition integer_text_wraps :: "string \<Rightarrow> bool" where
  "integer_text_wraps x \<longleftrightarrow>
     (let digits = (if x \<noteq> [] \<and> hd x = CHR ''-'' then tl x else x)
      in parse_canonical_u64 digits \<noteq> None \<and> 2 ^ 64 \<le> dec_value digits)"

lemma canonical_magnitude:
  assumes "parse_canonical_u64 x = Some m" and "dec_value x < 2 ^ 64"
  shows "to_chars_u (unat m) = x"
proof -
  note c = parse_canonical_u64_Some [OF assms(1)]
  have "unat m = dec_value x" unfolding c(4) by (rule unat_of_nat_less [OF assms(2)])
  with to_chars_u_dec_value [OF c(1,2,3)] show ?thesis by simp
qed

lemma encode_integer_length: "length (encode_integer base off) \<le> 17"
proof -
  obtain w off' where w: "width_for_offset off = (w, off')" by fastforce
  then have "w \<le> 8" using width_for_offset_from_spec [of 1 off w off'] by (auto simp: width_for_offset_def)
  with w show ?thesis by (simp add: encode_integer_def write_big_endian_eq)
qed

lemma encode_int_value_length: "encode_int_value x = Some bytes \<Longrightarrow> length bytes \<le> 17"
  by (auto simp: encode_int_value_def encode_integer_length split: if_splits option.splits)

lemma encode_int_value_decodes:
  assumes "encode_int_value x = Some bytes" and "\<not> integer_text_wraps x"
  shows "decodes z True bytes x"
proof (cases "parse_canonical_u64 x")
  case (Some m)
  note c = parse_canonical_u64_Some [OF Some]
  have "hd x \<noteq> CHR ''-''" using c(1,2) by (cases x) (auto simp: is_digit_def)
  with assms(2) Some have "dec_value x < 2 ^ 64" by (auto simp: integer_text_wraps_def not_le)
  from canonical_magnitude [OF Some this] have x: "to_chars_u (unat m) = x" .
  show ?thesis
  proof (cases "m \<le> 127")
    case True
    then have "unat m \<le> 127" by (simp add: word_le_nat_alt)
    from decodes_small_int [OF this, of z] True assms(1) Some x show ?thesis
      by (auto simp: encode_int_value_def split: if_splits)
  next
    case False
    from decodes_positive [OF this, of z] False assms(1) Some x show ?thesis
      by (auto simp: encode_int_value_def split: if_splits)
  qed
next
  case None
  with assms(1) obtain m where m: "hd x = CHR ''-''" "length x > 1" "parse_canonical_u64 (tl x) = Some m"
    and b: "bytes = encode_integer 0x88 (m - 1)"
    by (auto simp: encode_int_value_def split: if_splits option.splits)
  with assms(2) have "dec_value (tl x) < 2 ^ 64"
    by (auto simp: integer_text_wraps_def not_le split: if_splits)
  from canonical_magnitude [OF m(3) this] m have "CHR ''-'' # to_chars_u (unat m) = x"
    by (cases x) auto
  with decodes_negative [of z m] b show ?thesis by simp
qed

lemma encode_uuid_value_decodes:
  assumes "encode_uuid_value x = Some bytes"
  shows "decodes z True bytes x \<and> length bytes \<le> 17"
proof -
  obtain d bs where "encode_uuid x d = Some bs" "bytes = chr (if d then 0x91 else 0x90) # bs"
    using assms by (auto simp: encode_uuid_value_def split: if_splits option.splits)
  moreover from this(1) obtain e where "encode_uuid_loop x d 16 0 = Some (bs, e)" "e = length x"
    by (auto simp: encode_uuid_def split: option.splits if_splits)
  then have "length bs = 16"
    using encode_uuid_loop_decode [of x d 16 0 bs e "\<lparr>head_part = chr 0 # bs, tail_part = [], view_enabled = True\<rparr>" 0]
    by (auto simp: view_bytes_def)
  ultimately show ?thesis using decodes_uuid by auto
qed

lemma write_to_inline:
  "length bytes \<le> 17 \<Longrightarrow>
   write_to (inline_string x bytes) = bytes \<and> encoded_size (inline_string x bytes) = length bytes"
  by (simp add: write_to_def inline_string_def overwrite_def)

lemma encode_string_cases [consumes 1, case_names verbatim integer uuid lz4 raw]:
  assumes "encode_string z x opts c = Inr e"
  obtains "\<not> options_encoding_enabled opts" "length x \<le> kStringMaxVerbatimBytes"
      "storage_kind e = Verbatim" "source e = x" "encoded_size e = u16 (length x)"
  | bytes where "options_encoding_enabled opts" "encode_int_value x = Some bytes" "e = inline_string x bytes"
  | bytes where "options_encoding_enabled opts" "encode_uuid_value x = Some bytes" "e = inline_string x bytes"
  | bytes where "options_encoding_enabled opts" "length x \<le> kStringMaxCompressedLogicalBytes"
      "encode_lz4 z x opts = Some bytes" "storage_kind e = Lz4" "lz4_bytes e = bytes"
      "encoded_size e = u16 (length bytes)"
  | "options_encoding_enabled opts" "length x \<le> kStringMaxBytes" "storage_kind e = Raw" "source e = x"
      "encoded_size e = u16 (length x + 1)"
proof -
  have e: "options_encoding_enabled opts \<or> (length x \<le> kStringMaxVerbatimBytes \<and>
      storage_kind e = Verbatim \<and> source e = x \<and> encoded_size e = u16 (length x))"
    using assms by (auto simp: encode_string_def split: if_splits)
  consider "\<not> options_encoding_enabled opts"
    | bytes where "options_encoding_enabled opts" "encode_int_value x = Some bytes"
    | bytes where "options_encoding_enabled opts" "encode_int_value x = None" "encode_uuid_value x = Some bytes"
    | "options_encoding_enabled opts" "encode_int_value x = None" "encode_uuid_value x = None"
    by (metis not_None_eq)
  then show ?thesis
  proof cases
    case 1
    with e that(1) show ?thesis by blast
  next
    case 2
    with assms that(2) show ?thesis by (simp add: encode_string_def)
  next
    case 3
    with assms that(3) show ?thesis by (simp add: encode_string_def)
  next
    case 4
    with assms that(4,5) show ?thesis
      by (auto simp: encode_string_def split: if_splits option.splits)
  qed
qed

lemma encode_string_size:
  assumes "lz4_ok z" and "encode_string z x opts c = Inr e"
  shows "encoded_size e = length (write_to e) \<and> length (write_to e) \<le> kStringMaxEncodedBytes"
  using assms(2)
proof (cases rule: encode_string_cases)
  case (integer bytes)
  with encode_int_value_length have "length bytes \<le> 17" by blast
  with integer write_to_inline show ?thesis by (simp add: string_limits)
next
  case (uuid bytes)
  with encode_uuid_value_decodes have "length bytes \<le> 17" by blast
  with uuid write_to_inline show ?thesis by (simp add: string_limits)
next
  case (lz4 bytes)
  with decodes_lz4 [OF assms(1)] have "length bytes \<le> kStringMaxEncodedBytes" by blast
  with lz4 show ?thesis by (simp add: write_to_def string_limits)
qed (simp_all add: write_to_def string_limits)

lemma encode_string_decodes:
  assumes "lz4_ok z" and "encode_string z x opts c = Inr e"
    and "options_encoding_enabled opts \<Longrightarrow> \<not> integer_text_wraps x"
  shows "decodes z (options_encoding_enabled opts) (write_to e) x"
  using assms(2)
proof (cases rule: encode_string_cases)
  case verbatim
  then show ?thesis using decodes_verbatim by (simp add: write_to_def)
next
  case (integer bytes)
  then show ?thesis
    using encode_int_value_length write_to_inline encode_int_value_decodes assms(3) by simp
next
  case (uuid bytes)
  then show ?thesis using encode_uuid_value_decodes write_to_inline by simp
next
  case (lz4 bytes)
  then show ?thesis using decodes_lz4 [OF assms(1)] by (simp add: write_to_def)
next
  case raw
  then show ?thesis using decodes_raw by (simp add: write_to_def)
qed


lemma encode_string_fits:
  "length x \<le> max_value_bytes opts \<Longrightarrow> \<exists>e. encode_string z x opts c = Inr e"
  by (auto simp: encode_string_def max_value_bytes_def split: if_splits option.split)

lemma ord_eq_chr: "n < 256 \<Longrightarrow> ord c = n \<longleftrightarrow> c = chr n"
  by (metis chr_ord_eq ord_chr)

lemma equals_encoded_eq:
  assumes "encoded_size e = length (write_to e)"
  shows "equals_encoded e stored \<longleftrightarrow> stored = write_to e"
proof -
  have "(case storage_kind e of
        Verbatim \<Rightarrow> stored = source e
      | Raw \<Rightarrow> stored \<noteq> [] \<and> ord (hd stored) = 0xFF \<and> tl stored = source e
      | Inline \<Rightarrow> stored = take (encoded_size e) (inline_bytes e)
      | Lz4 \<Rightarrow> stored = lz4_bytes e) \<longleftrightarrow> stored = write_to e"
    by (cases "storage_kind e"; cases stored) (auto simp only: write_to_def ord_eq_chr storage.case list.sel)
  then show ?thesis unfolding equals_encoded_def using assms by auto
qed

lemma substr_take: "off + len \<le> n \<Longrightarrow> substr (take n x) off len = substr x off len"
  by (simp add: substr_def drop_take min_def)

lemma write_range_to_eq:
  assumes "off + len \<le> encoded_size e"
  shows "write_range_to e off len = substr (write_to e) off len"
  using assms substr_take [OF assms, of "inline_bytes e"]
  by (cases "storage_kind e"; cases off; cases len)
    (simp_all add: write_range_to_def write_to_def substr_def)

section \<open>Properties\<close>

text \<open>A concrete LZ4 that meets \<open>lz4_ok\<close>: a codec that stores its input.\<close>

definition store_lz4 :: lz4 where
  "store_lz4 = \<lparr>compress_bound = Suc,
     compress = (\<lambda>level src cap. if Suc (length src) \<le> cap then Some (chr 0 # src) else None),
     decompress_safe = (\<lambda>c n. if c \<noteq> [] \<and> length (tl c) = n then Some (tl c) else None)\<rparr>"

lemma store_lz4_ok: "lz4_ok store_lz4"
  by (auto simp: lz4_ok_def store_lz4_def)

text \<open>C8: storing and reading back. Whatever form the encoder picks for a value (verbatim, raw,
  integer, UUID, LZ4), every view of the written bytes, split into head and tail at any point, is
  valid, reports the value's length and reads as exactly the value, except for the over-long digit
  strings \<open>integer_text_wraps\<close> describes. LZ4 is any codec with \<open>lz4_ok\<close>.\<close>

theorem string_encoding_roundtrip:
  assumes "lz4_ok z" and "encode_string z x opts c = Inr e"
    and "options_encoding_enabled opts \<longrightarrow> \<not> integer_text_wraps x"
    and "head_part v @ tail_part v = write_to e" and "view_enabled v = options_encoding_enabled opts"
  shows "view_valid v \<and> view_size v = length x \<and> view_to_string z v = Inr x"
  using encode_string_decodes [OF assms(1,2)] assms(3,4,5) by (auto simp: decodes_def view_bytes_def)

lemma default_enabled: "options_encoding_enabled default_options"
  by (simp add: options_encoding_enabled_def default_options_def)

lemma maybe_int_hello: "\<not> maybe_int ''hello''" "\<not> integer_text_wraps ''hello''"
  by (simp_all add: maybe_int_def is_digit_def integer_text_wraps_def parse_canonical_u64_def parse_u64_eq decimal_text_def)

definition hello_raw :: encoded_string where
  "hello_raw = \<lparr>source = ''hello'', inline_bytes = replicate 17 (chr 0), lz4_bytes = [],
     encoded_size = 6, storage_kind = Raw\<rparr>"

lemma encode_hello: "encode_string store_lz4 ''hello'' default_options AllowLz4 = Inr hello_raw"
proof -
  have "\<not> lz4_enabled default_options" by (simp add: lz4_enabled_def default_options_def)
  then show ?thesis
    by (simp add: encode_string_def default_enabled encode_int_value_def maybe_int_hello encode_uuid_value_def
        may_compress_def string_limits hello_raw_def)
qed

theorem string_encoding_roundtrip_witness:
  "view_to_string store_lz4 \<lparr>head_part = [chr 0xFF, CHR ''h''], tail_part = ''ello'', view_enabled = True\<rparr> =
     Inr ''hello''"
  using string_encoding_roundtrip [OF store_lz4_ok encode_hello,
      of "\<lparr>head_part = [chr 0xFF, CHR ''h''], tail_part = ''ello'', view_enabled = True\<rparr>"]
  by (simp add: default_enabled maybe_int_hello write_to_def hello_raw_def)



text \<open>C29: the 16-bit size is never truncated: a stored form has at most 65,535 bytes and its recorded
  size is their number; \<open>equals_encoded\<close> recognises exactly the stored form, and writing a range writes
  that range of it.\<close>

theorem string_encoding_stored_form:
  assumes "lz4_ok z" and "encode_string z x opts c = Inr e"
  shows "encoded_size e = length (write_to e) \<and> encoded_size e \<le> 65535 \<and>
    (equals_encoded e stored \<longleftrightarrow> stored = write_to e) \<and>
    (off + len \<le> encoded_size e \<longrightarrow> write_range_to e off len = substr (write_to e) off len)"
  using encode_string_size [OF assms] equals_encoded_eq write_range_to_eq by (simp add: string_limits)

theorem string_encoding_stored_form_witness:
  "encoded_size hello_raw = length (write_to hello_raw) \<and> write_range_to hello_raw 0 3 = [chr 0xFF, CHR ''h'', CHR ''e'']"
  using string_encoding_stored_form [OF store_lz4_ok encode_hello, of "[]" 0 3]
  by (simp add: write_to_def hello_raw_def substr_def)

text \<open>\<open>string_value_fits\<close> answers exactly whether the encoder stores the value or throws.\<close>

lemma string_value_fits_exact:
  "string_value_fits z x opts c \<longleftrightarrow> (\<exists>e. encode_string z x opts c = Inr e)"
  using encode_string_fits [of x opts z c]
  by (auto simp: string_value_fits_def split: sum.split)

text \<open>C30: the exception is real. The 20-digit text below, a number above 64 bits, is stored as the
  integer it leaves modulo \<open>2 ^ 64\<close> and reads back as a different string.\<close>

theorem string_encoding_wraps:
  "\<exists>e. encode_string z ''28446744073709551616'' default_options c = Inr e \<and>
     view_to_string z \<lparr>head_part = write_to e, tail_part = [], view_enabled = True\<rparr> =
       Inr ''10000000000000000000''"
proof -
  define m :: u64 where "m = 10000000000000000000"
  have "parse_canonical_u64 ''28446744073709551616'' = Some m"
    by (simp add: parse_canonical_u64_def parse_u64_eq decimal_text_def is_digit_def ch_to_digit_def m_def)
  moreover have "\<not> m \<le> 127" by (simp add: m_def)
  ultimately have i: "encode_int_value ''28446744073709551616'' = Some (encode_integer 128 (m - 128))"
    by (simp add: encode_int_value_def maybe_int_def is_digit_def)
  let ?e = "inline_string ''28446744073709551616'' (encode_integer 128 (m - 128))"
  have "encode_string z ''28446744073709551616'' default_options c = Inr ?e"
    by (simp add: encode_string_def default_enabled i)
  moreover have "write_to ?e = encode_integer 128 (m - 128)"
    using write_to_inline encode_integer_length by blast
  moreover have "unat m = 10000000000000000000" by (simp add: m_def)
  then have "to_chars_u (unat m) = ''10000000000000000000''"
    using to_chars_u_dec_value [of "''10000000000000000000''"] by (simp add: is_digit_def ch_to_digit_def)
  ultimately show ?thesis
    using decodes_positive [OF \<open>\<not> m \<le> 127\<close>, of z] by (auto simp: decodes_def view_bytes_def)
qed

text \<open>The packed option word. Each setter changes its own field and no other: the threshold is
  capped just above the 24-bit limit, an invalid compression level becomes 0, and disabling the
  encoding also turns compression off.\<close>

lemma string_options_fields:
  "lz4_min_bytes (set_lz4_min_bytes n opts) =
     (if options_encoding_enabled opts then min n (kStringMaxCompressedLogicalBytes + 1) else 0) \<and>
   lz4_compress_level (set_lz4_min_bytes n opts) = lz4_compress_level opts \<and>
   options_encoding_enabled (set_lz4_min_bytes n opts) = options_encoding_enabled opts \<and>
   lz4_compress_level (set_lz4_compress_level l opts) = (if valid_lz4_compress_level l then l else 0) \<and>
   lz4_min_bytes (set_lz4_compress_level l opts) = lz4_min_bytes opts \<and>
   options_encoding_enabled (set_lz4_compress_level l opts) = options_encoding_enabled opts \<and>
   \<not> options_encoding_enabled (disable_encoding opts) \<and> \<not> lz4_enabled (disable_encoding opts)"
  by (simp add: set_lz4_min_bytes_fields set_lz4_compress_level_fields disable_fields)

end
