(* ===== verification/Resp_Writer.thy ===== *)
theory Resp_Writer
  imports String_Encoding
begin

text \<open>
  The RESP reply writer (\<open>include/goblin/core/resp_writer.hpp\<close>, \<open>src/resp_writer.cpp\<close>) and the
  text form of scores (\<open>include/goblin/core/score_format.hpp\<close>). Every function appends to the output
  string and returns it. The fast paths grow the string once with \<open>resize\<close> and then write through a
  pointer: here a position in the grown string, so that a write out of place or out of range would
  show. Floating-point values are a type parameter with the operations the code applies to them, the
  record \<open>double_ops\<close>.
\<close>

section \<open>Headers\<close>

function header_digits :: "nat \<Rightarrow> string" where
  "header_digits v =
     chr (48 + v mod 10) # (if v div 10 \<noteq> 0 then header_digits (v div 10) else [])"
  by pat_completeness auto
termination
  by (relation "measure id") auto

declare header_digits.simps [simp del]

definition make_header :: "char \<Rightarrow> nat \<Rightarrow> string" where
  "make_header prefix v = prefix # rev (header_digits v) @ crlf"

definition kSmallBulkHeaders :: "string list" where
  "kSmallBulkHeaders = map (make_header CHR ''$'') [0..<65]"

definition kSmallArrayHeaders :: "string list" where
  "kSmallArrayHeaders = map (make_header CHR ''*'') [0..<257]"

definition kSmallPushHeaders :: "string list" where
  "kSmallPushHeaders = map (make_header CHR ''>'') [0..<17]"

definition append_decimal_u :: "string \<Rightarrow> nat \<Rightarrow> string" where
  "append_decimal_u out v = out @ to_chars_u v"

definition append_decimal_i :: "string \<Rightarrow> int \<Rightarrow> string" where
  "append_decimal_i out v = out @ to_chars_i v"

definition bulk_string_wire_size :: "nat \<Rightarrow> nat" where
  "bulk_string_wire_size len =
     (if len < length kSmallBulkHeaders then length (kSmallBulkHeaders ! len) + len + 2
      else 1 + decimal_digits len + 2 + len + 2)"

definition array_header_wire_size :: "nat \<Rightarrow> nat" where
  "array_header_wire_size count =
     (if count < length kSmallArrayHeaders then length (kSmallArrayHeaders ! count)
      else 1 + decimal_digits count + 2)"

definition append_bulk_framing :: "string \<Rightarrow> nat \<Rightarrow> string" where
  "append_bulk_framing out len =
     (if len < length kSmallBulkHeaders then out @ kSmallBulkHeaders ! len
      else append_decimal_u (out @ ''$'') len @ crlf)"

definition append_bulk_payload :: "string \<Rightarrow> string \<Rightarrow> string" where
  "append_bulk_payload out v = append_bulk_framing out (length v) @ v @ crlf"

text \<open>\<open>write_small_bulk_string\<close> takes the memory and the position to write at and returns the memory
  and the position after the last byte written.\<close>

definition write_small_bulk_string :: "string \<Rightarrow> nat \<Rightarrow> string \<Rightarrow> string \<times> nat" where
  "write_small_bulk_string mem dst v =
     (let header = kSmallBulkHeaders ! length v;
          mem = overwrite mem dst header;
          dst = dst + length header;
          mem = (if v \<noteq> [] then overwrite mem dst v else mem);
          dst = dst + length v
      in (mem[dst := CR, dst + 1 := LF], dst + 2))"

definition can_write_small_bulk_string :: "nat \<Rightarrow> bool" where
  "can_write_small_bulk_string len \<longleftrightarrow> len < length kSmallBulkHeaders"

definition resize :: "string \<Rightarrow> nat \<Rightarrow> string" where
  "resize s n = take n s @ replicate (n - length s) (chr 0)"

section \<open>Reserving output capacity\<close>

text \<open>\<open>None\<close> would be the doubling loop not ending.\<close>

partial_function (option) reserve_grow :: "nat \<Rightarrow> nat \<Rightarrow> nat \<Rightarrow> nat option" where
  "reserve_grow max_size required target =
     (if target < required then
        if target > max_size div 2 then Some max_size
        else reserve_grow max_size required (target * 2)
      else Some target)"

text \<open>The capacity after the call (\<open>reserve\<close> never shrinks), or the thrown message.\<close>

definition reserve_append_capacity ::
  "nat \<Rightarrow> nat \<Rightarrow> nat \<Rightarrow> nat \<Rightarrow> nat \<Rightarrow> (string + nat) option" where
  "reserve_append_capacity sz capacity max_size append_bytes reserve_limit =
     (if append_bytes = 0 then Some (Inr capacity)
      else if append_bytes \<le> capacity - sz then Some (Inr capacity)
      else if append_bytes > max_size - sz then Some (Inl ''RESP output too large'')
      else let required = sz + append_bytes;
               reserve_cap = (if reserve_limit = 0 then max_size else min reserve_limit max_size)
           in if required > reserve_cap then
                Some (Inr (if capacity < reserve_cap then max capacity reserve_cap else capacity))
              else map_option (\<lambda>target. Inr (max capacity (min target reserve_cap)))
                     (reserve_grow max_size required (if capacity = 0 then append_bytes else capacity)))"

section \<open>Replies\<close>

definition append_simple_string :: "string \<Rightarrow> string \<Rightarrow> string" where
  "append_simple_string out v = out @ ''+'' @ v @ crlf"

definition append_error :: "string \<Rightarrow> string \<Rightarrow> string" where
  "append_error out message = out @ ''-'' @ message @ crlf"

definition append_integer :: "string \<Rightarrow> int \<Rightarrow> string" where
  "append_integer out v = append_decimal_i (out @ '':'') v @ crlf"

definition append_bulk_string :: "string \<Rightarrow> string \<Rightarrow> string" where
  "append_bulk_string out v =
     (if can_write_small_bulk_string (length v) then
        let offset = length out
        in fst (write_small_bulk_string (resize out (offset + bulk_string_wire_size (length v))) offset v)
      else append_decimal_u (out @ ''$'') (length v) @ crlf @ v @ crlf)"

definition view_is_raw :: "encoded_view \<Rightarrow> bool" where
  "view_is_raw v \<longleftrightarrow> \<not> view_enabled v \<or> view_prefix v = 0xFF"

text \<open>The bulk reply of a stored value; \<open>Inl\<close> is the exception of the decoder.\<close>

definition append_bulk_encoded :: "lz4 \<Rightarrow> string \<Rightarrow> encoded_view \<Rightarrow> string + string" where
  "append_bulk_encoded z out v =
     (if view_is_raw v then
        if \<not> view_enabled v then
          if tail_part v = [] then Inr (append_bulk_string out (head_part v))
          else Inr (append_bulk_framing out (view_encoded_size v) @ head_part v @ tail_part v @ crlf)
        else
          let encoded = view_encoded_size v; logical = encoded - 1;
              head = head_part v; tail = tail_part v
          in if encoded = 0 then Inr (append_bulk_string out [])
             else if tail = [] \<and> length head \<ge> 1 then
               Inr (append_bulk_string out (substr head 1 (length head - 1)))
             else if can_write_small_bulk_string logical then
               let offset = length out;
                   mem = resize out (offset + bulk_string_wire_size logical);
                   header = kSmallBulkHeaders ! logical;
                   mem = overwrite mem offset header;
                   dst = offset + length header;
                   (mem, dst) = (if length head > 1
                     then (overwrite mem dst (substr head 1 (length head - 1)), dst + (length head - 1))
                     else (mem, dst));
                   (mem, dst) = (if tail \<noteq> [] then (overwrite mem dst tail, dst + length tail) else (mem, dst))
               in Inr (mem[dst := CR, dst + 1 := LF])
             else
               Inr (append_bulk_framing out logical @
                    (if length head > 1 then substr head 1 (length head - 1) else []) @ tail @ crlf)
      else map_sum id (\<lambda>s. s @ crlf) (append_to z v (append_bulk_framing out (view_size v))))"

definition append_null_bulk_string :: "string \<Rightarrow> string" where
  "append_null_bulk_string out = out @ ''$-1'' @ crlf"

datatype resp_version = Resp2 | Resp3

definition append_null :: "string \<Rightarrow> resp_version \<Rightarrow> string" where
  "append_null out version =
     (if version = Resp3 then out @ ''_'' @ crlf else append_null_bulk_string out)"

definition append_array_header :: "string \<Rightarrow> nat \<Rightarrow> string" where
  "append_array_header out count =
     (if count < length kSmallArrayHeaders then out @ kSmallArrayHeaders ! count
      else append_decimal_u (out @ ''*'') count @ crlf)"

definition append_push_header :: "string \<Rightarrow> nat \<Rightarrow> string" where
  "append_push_header out count =
     (if count < length kSmallPushHeaders then out @ kSmallPushHeaders ! count
      else append_decimal_u (out @ ''>'') count @ crlf)"

definition append_map_header :: "string \<Rightarrow> nat \<Rightarrow> string" where
  "append_map_header out count = append_decimal_u (out @ ''%'') count @ crlf"

definition simple_string :: "string \<Rightarrow> string" where "simple_string v = append_simple_string [] v"
definition error_reply :: "string \<Rightarrow> string" where "error_reply message = append_error [] message"
definition integer_reply :: "int \<Rightarrow> string" where "integer_reply v = append_integer [] v"
definition bulk_string :: "string \<Rightarrow> string" where "bulk_string v = append_bulk_string [] v"
definition null_bulk_string :: string where "null_bulk_string = append_null_bulk_string []"

definition resp_array :: "string list \<Rightarrow> string" where
  "resp_array vs = foldl append_bulk_string (append_array_header [] (length vs)) vs"

section \<open>Members and scores\<close>

record 'd double_ops =
  is_nan :: "'d \<Rightarrow> bool"
  is_inf :: "'d \<Rightarrow> bool"
  below_zero :: "'d \<Rightarrow> bool"
  exact_integer_score :: "'d \<Rightarrow> int option"
  to_chars_double :: "'d \<Rightarrow> string option"
  stream_17 :: "'d \<Rightarrow> string"

definition try_format_finite :: "'d double_ops \<Rightarrow> 'd \<Rightarrow> string" where
  "try_format_finite d v =
     (case exact_integer_score d v of
        Some i \<Rightarrow> to_chars_i i
      | None \<Rightarrow> (case to_chars_double d v of Some t \<Rightarrow> t | None \<Rightarrow> []))"

definition finite_text :: "'d double_ops \<Rightarrow> 'd \<Rightarrow> string" where
  "finite_text d v = (let t = try_format_finite d v in if t = [] then stream_17 d v else t)"

definition format_score :: "'d double_ops \<Rightarrow> 'd \<Rightarrow> string" where
  "format_score d v =
     (if is_nan d v then ''nan''
      else if is_inf d v then (if below_zero d v then ''-inf'' else ''inf'')
      else finite_text d v)"

definition append_bulk_finite_double :: "'d double_ops \<Rightarrow> string \<Rightarrow> 'd \<Rightarrow> string" where
  "append_bulk_finite_double d out v =
     (let t = finite_text d v
      in if can_write_small_bulk_string (length t) then
           let offset = length out
           in fst (write_small_bulk_string (resize out (offset + bulk_string_wire_size (length t))) offset t)
         else append_bulk_string out t)"

definition append_bulk_member_and_text :: "string \<Rightarrow> string \<Rightarrow> string \<Rightarrow> string" where
  "append_bulk_member_and_text out member t =
     (if \<not> can_write_small_bulk_string (length member) \<or> \<not> can_write_small_bulk_string (length t)
      then append_bulk_string (append_bulk_string out member) t
      else let wire_bytes = bulk_string_wire_size (length member) + bulk_string_wire_size (length t);
               offset = length out;
               (mem, dst) = write_small_bulk_string (resize out (offset + wire_bytes)) offset member
           in fst (write_small_bulk_string mem dst t))"

definition append_bulk_member_and_finite_double :: "'d double_ops \<Rightarrow> string \<Rightarrow> string \<Rightarrow> 'd \<Rightarrow> string" where
  "append_bulk_member_and_finite_double d out member score =
     append_bulk_member_and_text out member (finite_text d score)"

definition kBulkWithscoresBatchLimit :: nat where
  "kBulkWithscoresBatchLimit = 256"

text \<open>The summation loop of the batch writers: \<open>None\<close> when an entry does not take the small path.\<close>

fun small_wire_bytes :: "string list \<Rightarrow> nat option" where
  "small_wire_bytes [] = Some 0"
| "small_wire_bytes (x # xs) =
     (if \<not> can_write_small_bulk_string (length x) then None
      else map_option ((+) (bulk_string_wire_size (length x))) (small_wire_bytes xs))"

fun write_all_small :: "string \<Rightarrow> nat \<Rightarrow> string list \<Rightarrow> string \<times> nat" where
  "write_all_small mem dst [] = (mem, dst)"
| "write_all_small mem dst (x # xs) =
     (let (mem, dst) = write_small_bulk_string mem dst x in write_all_small mem dst xs)"

definition append_small_batch :: "string \<Rightarrow> string list \<Rightarrow> string option" where
  "append_small_batch out xs =
     map_option (\<lambda>wire_bytes. fst (write_all_small (resize out (length out + wire_bytes)) (length out) xs))
       (small_wire_bytes xs)"

definition pair_texts :: "(string \<times> string) list \<Rightarrow> string list" where
  "pair_texts entries = concat (map (\<lambda>(m, t). [m, t]) entries)"

definition append_bulk_withscores_text_chunk :: "string \<Rightarrow> (string \<times> string) list \<Rightarrow> string" where
  "append_bulk_withscores_text_chunk out entries =
     (if entries = [] then out
      else case append_small_batch out (pair_texts entries) of
             Some out' \<Rightarrow> out'
           | None \<Rightarrow> foldl (\<lambda>o' (m, t). append_bulk_member_and_text o' m t) out entries)"

text \<open>The callers pass at most \<open>kWithscoresStreamChunk\<close> (16) entries, the size of the array of
  formatted rows.\<close>

definition append_bulk_withscores_chunk :: "'d double_ops \<Rightarrow> string \<Rightarrow> (string \<times> 'd) list \<Rightarrow> string" where
  "append_bulk_withscores_chunk d out entries =
     (if entries = [] then out
      else case append_small_batch out (pair_texts (map (\<lambda>(m, s). (m, finite_text d s)) entries)) of
             Some out' \<Rightarrow> out'
           | None \<Rightarrow> foldl (\<lambda>o' (m, s). append_bulk_member_and_finite_double d o' m s) out entries)"

definition append_bulk_members_batch :: "string \<Rightarrow> string list \<Rightarrow> string" where
  "append_bulk_members_batch out members =
     (if members = [] then out
      else if length members > kBulkWithscoresBatchLimit then foldl append_bulk_string out members
      else case append_small_batch out members of
             Some out' \<Rightarrow> out'
           | None \<Rightarrow> foldl append_bulk_string out members)"

definition append_bulk_withscores_batch :: "'d double_ops \<Rightarrow> string \<Rightarrow> (string \<times> 'd) list \<Rightarrow> string" where
  "append_bulk_withscores_batch d out entries =
     (if entries = [] then out
      else if length entries > kBulkWithscoresBatchLimit
        then foldl (\<lambda>o' (m, s). append_bulk_member_and_finite_double d o' m s) out entries
      else case append_small_batch out (pair_texts (map (\<lambda>(m, s). (m, finite_text d s)) entries)) of
             Some out' \<Rightarrow> out'
           | None \<Rightarrow> foldl (\<lambda>o' (m, s). append_bulk_member_and_finite_double d o' m s) out entries)"

definition append_bulk_withscores_text_batch :: "string \<Rightarrow> (string \<times> string) list \<Rightarrow> string" where
  "append_bulk_withscores_text_batch out entries =
     (if entries = [] then out
      else if length entries > kBulkWithscoresBatchLimit
        then foldl (\<lambda>o' (m, t). append_bulk_member_and_text o' m t) out entries
      else case append_small_batch out (pair_texts entries) of
             Some out' \<Rightarrow> out'
           | None \<Rightarrow> foldl (\<lambda>o' (m, t). append_bulk_member_and_text o' m t) out entries)"

definition append_bulk_double :: "'d double_ops \<Rightarrow> string \<Rightarrow> 'd \<Rightarrow> string" where
  "append_bulk_double d out v =
     (if is_nan d v then append_bulk_string out ''nan''
      else if is_inf d v then append_bulk_string out (if below_zero d v then ''-inf'' else ''inf'')
      else append_bulk_finite_double d out v)"

definition append_double_text :: "string \<Rightarrow> string \<Rightarrow> string" where
  "append_double_text out v = out @ '','' @ v @ crlf"

definition append_double :: "'d double_ops \<Rightarrow> string \<Rightarrow> 'd \<Rightarrow> string" where
  "append_double d out v =
     append_double_text out
       (if is_nan d v then ''nan''
        else if is_inf d v then (if below_zero d v then ''-inf'' else ''inf'')
        else finite_text d v)"

end
