(* ===== verification/List_Listpack.thy ===== *)
theory List_Listpack
  imports String_Encoding
begin

text \<open>
  The compact list (\<open>include/goblin/core/list_listpack.hpp\<close>): one allocation holding a header (entry
  bytes, entry count) and the entries back to back, each a one- or three-byte header and a payload.
  The object is the pointer \<open>p_\<close>: \<open>None\<close> for null, otherwise the bytes of the allocation. Every mutation
  builds a new allocation with \<open>memcpy\<close>; \<open>junk\<close> is the content of freshly allocated memory, an
  argument of the operations, so the theorems show that no byte of it is ever left in the result.
\<close>

type_synonym listpack = "string option"

definition kListListpackHeaderBytes :: nat where "kListListpackHeaderBytes = 8"
definition kListListpackMaxValueBytes :: nat where "kListListpackMaxValueBytes = 65535"
definition kListListpackMaxBlobBytes :: nat where
  "kListListpackMaxBlobBytes = kListListpackHeaderBytes + kListListpackMaxValueBytes + 3"

lemmas listpack_limits = kListListpackHeaderBytes_def kListListpackMaxValueBytes_def

record lp_header =
  hdr_len :: nat
  hdr_count :: nat
  hdr_entries :: string

record lp_entry =
  ent_length :: nat
  ent_header_bytes :: nat
  ent_raw :: bool

definition ent_bytes :: "lp_entry \<Rightarrow> nat" where
  "ent_bytes e = ent_header_bytes e + ent_length e"

definition unpack :: "listpack \<Rightarrow> lp_header" where
  "unpack p =
     (case p of
        None \<Rightarrow> \<lparr>hdr_len = 0, hdr_count = 0, hdr_entries = []\<rparr>
      | Some b \<Rightarrow> \<lparr>hdr_len = le_value (substr b 0 4), hdr_count = le_value (substr b 4 2),
                   hdr_entries = drop kListListpackHeaderBytes b\<rparr>)"

definition lp_size :: "listpack \<Rightarrow> nat" where
  "lp_size p = hdr_count (unpack p)"

definition allocated_bytes :: "listpack \<Rightarrow> nat" where
  "allocated_bytes p = (if p = None then 0 else kListListpackHeaderBytes + hdr_len (unpack p))"

text \<open>\<open>read_entry\<close> is given the memory from the entry on.\<close>

definition read_entry :: "string \<Rightarrow> lp_entry" where
  "read_entry m =
     (let code = ord (hd m)
      in if code = 0x7F \<or> code = 0xFF
         then \<lparr>ent_length = le_value (substr m 1 2), ent_header_bytes = 3, ent_raw = (code = 0xFF)\<rparr>
         else \<lparr>ent_length = code mod 128, ent_header_bytes = 1, ent_raw = (code div 128 \<noteq> 0)\<rparr>)"

definition write_header :: "string \<Rightarrow> nat \<Rightarrow> nat \<Rightarrow> string" where
  "write_header b entries_len count =
     (overwrite (overwrite b 0 (le_bytes 4 entries_len)) 4 (le_bytes 2 count))[6 := chr 0, 7 := chr 0]"

definition entry_header_bytes :: "nat \<Rightarrow> nat" where
  "entry_header_bytes stored_size = (if stored_size \<le> 126 then 1 else 3)"

definition entry_size :: "nat \<Rightarrow> nat" where
  "entry_size stored_size = entry_header_bytes stored_size + stored_size"

definition write_entry :: "string \<Rightarrow> nat \<Rightarrow> nat \<Rightarrow> bool \<Rightarrow> string \<Rightarrow> string" where
  "write_entry mem p stored_size raw payload =
     (if stored_size \<le> 126 then
        overwrite (mem[p := chr (stored_size + (if raw then 0x80 else 0))]) (p + 1) payload
      else
        overwrite (overwrite (mem[p := chr (if raw then 0xFF else 0x7F)]) (p + 1) (le_bytes 2 stored_size))
          (p + 3) payload)"

definition view_entry :: "string \<Rightarrow> string_encoding_options \<Rightarrow> encoded_view" where
  "view_entry m opts =
     (let entry = read_entry m;
          payload = substr m (ent_header_bytes entry) (ent_length entry)
      in if ent_raw entry \<and> options_encoding_enabled opts
         then \<lparr>head_part = [chr 0xFF], tail_part = payload, view_enabled = True\<rparr>
         else \<lparr>head_part = payload, tail_part = [], view_enabled = options_encoding_enabled opts\<rparr>)"

definition alloc_blob :: "(nat \<Rightarrow> char) \<Rightarrow> nat \<Rightarrow> string" where
  "alloc_blob junk entries_len = map junk [0..<kListListpackHeaderBytes + entries_len]"

fun offset_of_from :: "nat \<Rightarrow> string \<Rightarrow> nat \<Rightarrow> nat" where
  "offset_of_from 0 entries off = off"
| "offset_of_from (Suc n) entries off =
     offset_of_from n entries (off + ent_bytes (read_entry (drop off entries)))"

definition offset_of :: "nat \<Rightarrow> lp_header \<Rightarrow> nat" where
  "offset_of index hdr = offset_of_from index (hdr_entries hdr) 0"

definition lp_at :: "listpack \<Rightarrow> nat \<Rightarrow> string_encoding_options \<Rightarrow> encoded_view" where
  "lp_at p index opts =
     (let hdr = unpack p in view_entry (drop (offset_of index hdr) (hdr_entries hdr)) opts)"

section \<open>Mutations\<close>

definition insert_prepared ::
  "(nat \<Rightarrow> char) \<Rightarrow> listpack \<Rightarrow> nat \<Rightarrow> nat \<Rightarrow> bool \<Rightarrow> nat \<Rightarrow> nat \<Rightarrow> string \<Rightarrow> bool \<times> listpack" where
  "insert_prepared junk p index stored_size raw max_entries max_blob_bytes payload =
     (let hdr = unpack p; added = entry_size stored_size
      in if stored_size > kListListpackMaxValueBytes \<or> hdr_count hdr + 1 > max_entries \<or>
            kListListpackHeaderBytes + hdr_len hdr + added > max_blob_bytes \<or> hdr_count hdr = 65535
         then (False, p)
         else
           let insert_offset = offset_of index hdr;
               new_len = (hdr_len hdr + added) mod 2 ^ 32;
               nxt = write_header (alloc_blob junk new_len) new_len (u16 (hdr_count hdr + 1));
               dst = kListListpackHeaderBytes;
               nxt = (if insert_offset \<noteq> 0 then overwrite nxt dst (take insert_offset (hdr_entries hdr)) else nxt);
               nxt = write_entry nxt (dst + insert_offset) stored_size raw payload;
               nxt = (if insert_offset \<noteq> hdr_len hdr
                      then overwrite nxt (dst + insert_offset + added)
                             (substr (hdr_entries hdr) insert_offset (hdr_len hdr - insert_offset))
                      else nxt)
           in (True, Some nxt))"

definition set_prepared ::
  "(nat \<Rightarrow> char) \<Rightarrow> listpack \<Rightarrow> nat \<Rightarrow> nat \<Rightarrow> bool \<Rightarrow> nat \<Rightarrow> string \<Rightarrow> bool \<times> listpack" where
  "set_prepared junk p index stored_size raw max_blob_bytes payload =
     (let hdr = unpack p
      in if stored_size > kListListpackMaxValueBytes then (False, p)
         else
           let off = offset_of index hdr;
               old = read_entry (drop off (hdr_entries hdr));
               new_size = entry_size stored_size;
               projected = hdr_len hdr - ent_bytes old + new_size
           in if kListListpackHeaderBytes + projected > max_blob_bytes then (False, p)
              else if ent_length old = stored_size \<and> ent_raw old = raw \<and>
                      ent_header_bytes old = entry_header_bytes stored_size
              then (True, map_option (\<lambda>b. overwrite b (kListListpackHeaderBytes + off + ent_header_bytes old) payload) p)
              else
                let nxt = write_header (alloc_blob junk (projected mod 2 ^ 32)) (projected mod 2 ^ 32) (hdr_count hdr);
                    dst = kListListpackHeaderBytes;
                    nxt = (if off \<noteq> 0 then overwrite nxt dst (take off (hdr_entries hdr)) else nxt);
                    nxt = write_entry nxt (dst + off) stored_size raw payload;
                    rest = hdr_len hdr - off - ent_bytes old;
                    nxt = (if rest \<noteq> 0
                           then overwrite nxt (dst + off + new_size)
                                  (substr (hdr_entries hdr) (off + ent_bytes old) rest)
                           else nxt)
                in (True, Some nxt))"

definition erase_range_at :: "(nat \<Rightarrow> char) \<Rightarrow> nat \<Rightarrow> nat \<Rightarrow> nat \<Rightarrow> lp_header \<Rightarrow> listpack" where
  "erase_range_at junk off bytes count hdr =
     (let new_len = hdr_len hdr - bytes
      in if new_len = 0 then None
         else
           let nxt = write_header (alloc_blob junk new_len) new_len (u16 (hdr_count hdr - count));
               dst = kListListpackHeaderBytes;
               nxt = (if off \<noteq> 0 then overwrite nxt dst (take off (hdr_entries hdr)) else nxt);
               rest = hdr_len hdr - off - bytes;
               nxt = (if rest \<noteq> 0 then overwrite nxt (dst + off) (substr (hdr_entries hdr) (off + bytes) rest)
                      else nxt)
           in Some nxt)"

definition encoded_is_raw :: "encoded_string \<Rightarrow> bool" where
  "encoded_is_raw e \<longleftrightarrow> storage_kind e = Raw \<or> storage_kind e = Verbatim"

definition encoded_enabled :: "encoded_string \<Rightarrow> bool" where
  "encoded_enabled e \<longleftrightarrow> storage_kind e \<noteq> Verbatim"

definition skip_prefix :: "encoded_string \<Rightarrow> nat" where
  "skip_prefix e = (if encoded_is_raw e \<and> encoded_enabled e then 1 else 0)"

definition stored_size_of :: "encoded_string \<Rightarrow> nat" where
  "stored_size_of e = encoded_size e - skip_prefix e"

definition payload_of :: "encoded_string \<Rightarrow> string" where
  "payload_of e = write_range_to e (skip_prefix e) (encoded_size e - skip_prefix e)"

text \<open>\<open>Inl\<close> is the \<open>length_error\<close> of the encoder, before anything is changed.\<close>

definition lp_insert ::
  "lz4 \<Rightarrow> (nat \<Rightarrow> char) \<Rightarrow> listpack \<Rightarrow> nat \<Rightarrow> string \<Rightarrow> nat \<Rightarrow> string_encoding_options \<Rightarrow> compression_mode \<Rightarrow>
   nat \<Rightarrow> string + (bool \<times> listpack)" where
  "lp_insert z junk p index x max_entries opts compression max_blob_bytes =
     map_sum id (\<lambda>e. insert_prepared junk p index (stored_size_of e) (encoded_is_raw e) max_entries
                       max_blob_bytes (payload_of e))
       (encode_string z x opts compression)"

definition lp_insert_encoded ::
  "(nat \<Rightarrow> char) \<Rightarrow> listpack \<Rightarrow> nat \<Rightarrow> encoded_view \<Rightarrow> nat \<Rightarrow> nat \<Rightarrow> bool \<times> listpack" where
  "lp_insert_encoded junk p index v max_entries max_blob_bytes =
     (if \<not> view_valid v then (False, p)
      else let raw = (\<not> view_enabled v \<or> view_prefix v = 0xFF);
               skip = (if raw \<and> view_enabled v then 1 else 0);
               stored_size = view_encoded_size v - skip
           in insert_prepared junk p index stored_size raw max_entries max_blob_bytes
                (copy_range v skip (view_encoded_size v - skip)))"

definition lp_set ::
  "lz4 \<Rightarrow> (nat \<Rightarrow> char) \<Rightarrow> listpack \<Rightarrow> nat \<Rightarrow> string \<Rightarrow> string_encoding_options \<Rightarrow> compression_mode \<Rightarrow> nat \<Rightarrow>
   string + (bool \<times> listpack)" where
  "lp_set z junk p index x opts compression max_blob_bytes =
     map_sum id (\<lambda>e. set_prepared junk p index (stored_size_of e) (encoded_is_raw e) max_blob_bytes (payload_of e))
       (encode_string z x opts compression)"

definition lp_erase ::
  "lz4 \<Rightarrow> (nat \<Rightarrow> char) \<Rightarrow> listpack \<Rightarrow> nat \<Rightarrow> string_encoding_options \<Rightarrow> string + (string \<times> listpack)" where
  "lp_erase z junk p index opts =
     (let hdr = unpack p;
          off = offset_of index hdr;
          entry = read_entry (drop off (hdr_entries hdr))
      in map_sum id (\<lambda>removed. (removed, erase_range_at junk off (ent_bytes entry) 1 hdr))
           (view_to_string z (view_entry (drop off (hdr_entries hdr)) opts)))"

definition lp_erase_range :: "(nat \<Rightarrow> char) \<Rightarrow> listpack \<Rightarrow> nat \<Rightarrow> nat \<Rightarrow> listpack" where
  "lp_erase_range junk p first count =
     (let hdr = unpack p
      in if first \<ge> hdr_count hdr \<or> count = 0 then p
         else let removed_count = min count (hdr_count hdr - first);
                  off = offset_of first hdr;
                  removed_bytes = offset_of_from removed_count (hdr_entries hdr) off - off
              in erase_range_at junk off removed_bytes removed_count hdr)"

definition lp_concat :: "(nat \<Rightarrow> char) \<Rightarrow> listpack \<Rightarrow> listpack \<Rightarrow> nat \<Rightarrow> nat \<Rightarrow> bool \<times> listpack" where
  "lp_concat junk p other max_entries max_blob_bytes =
     (let self = unpack p; tail = unpack other;
          total_count = hdr_count self + hdr_count tail;
          total_len = hdr_len self + hdr_len tail
      in if total_count > max_entries \<or> total_count > 65535 then (False, p)
         else if kListListpackHeaderBytes + total_len > max_blob_bytes then (False, p)
         else if hdr_count tail = 0 then (True, p)
         else if hdr_count self = 0 then
           (case other of
              None \<Rightarrow> (True, None)
            | Some b \<Rightarrow> (True, Some (overwrite (alloc_blob junk (hdr_len tail)) 0
                                     (take (kListListpackHeaderBytes + hdr_len tail) b))))
         else
           let nxt = write_header (alloc_blob junk (total_len mod 2 ^ 32)) (total_len mod 2 ^ 32) (u16 total_count);
               dst = kListListpackHeaderBytes;
               nxt = overwrite nxt dst (take (hdr_len self) (hdr_entries self));
               nxt = overwrite nxt (dst + hdr_len self) (take (hdr_len tail) (hdr_entries tail))
           in (True, Some nxt))"

text \<open>The first loop of \<open>assign\<close>: encode every value and add up the entry sizes; \<open>Inr None\<close> is the early
  \<open>return false\<close>.\<close>

fun assign_prepare ::
  "lz4 \<Rightarrow> string_encoding_options \<Rightarrow> compression_mode \<Rightarrow> nat \<Rightarrow> nat \<Rightarrow> string list \<Rightarrow>
   string + (encoded_string list \<times> nat) option" where
  "assign_prepare z opts compression max_blob_bytes entries_len [] = Inr (Some ([], entries_len))"
| "assign_prepare z opts compression max_blob_bytes entries_len (x # xs) =
     (case encode_string z x opts compression of
        Inl err \<Rightarrow> Inl err
      | Inr e \<Rightarrow>
          let entries_len' = entries_len + entry_size (stored_size_of e)
          in if stored_size_of e > kListListpackMaxValueBytes \<or>
                entry_size (stored_size_of e) > 2 ^ 64 - 1 - entries_len \<or>
                kListListpackHeaderBytes + entries_len' > max_blob_bytes then Inr None
             else map_sum id (map_option (\<lambda>(es, total). (e # es, total)))
                    (assign_prepare z opts compression max_blob_bytes entries_len' xs))"

fun write_entries :: "string \<Rightarrow> nat \<Rightarrow> (bool \<times> string) list \<Rightarrow> string" where
  "write_entries mem dst [] = mem"
| "write_entries mem dst ((raw, payload) # es) =
     write_entries (write_entry mem dst (length payload) raw payload) (dst + entry_size (length payload)) es"

definition build_blob :: "(nat \<Rightarrow> char) \<Rightarrow> nat \<Rightarrow> (bool \<times> string) list \<Rightarrow> string" where
  "build_blob junk entries_len es =
     write_entries (write_header (alloc_blob junk (entries_len mod 2 ^ 32)) (entries_len mod 2 ^ 32) (u16 (length es)))
       kListListpackHeaderBytes es"

definition lp_assign ::
  "lz4 \<Rightarrow> (nat \<Rightarrow> char) \<Rightarrow> listpack \<Rightarrow> string list \<Rightarrow> nat \<Rightarrow> string_encoding_options \<Rightarrow> compression_mode \<Rightarrow> nat \<Rightarrow>
   string + (bool \<times> listpack)" where
  "lp_assign z junk p values max_entries opts compression max_blob_bytes =
     (if length values > max_entries \<or> length values > 65535 then Inr (False, p)
      else case assign_prepare z opts compression max_blob_bytes 0 values of
        Inl err \<Rightarrow> Inl err
      | Inr None \<Rightarrow> Inr (False, p)
      | Inr (Some (encoded, entries_len)) \<Rightarrow>
          if encoded = [] then Inr (True, None)
          else Inr (True, Some (build_blob junk entries_len
                      (map (\<lambda>e. (encoded_is_raw e, payload_of e)) encoded))))"

fun assign_raw_prepare :: "nat \<Rightarrow> nat \<Rightarrow> string list \<Rightarrow> nat option" where
  "assign_raw_prepare max_blob_bytes entries_len [] = Some entries_len"
| "assign_raw_prepare max_blob_bytes entries_len (x # xs) =
     (let entries_len' = entries_len + entry_size (length x)
      in if length x > kListListpackMaxValueBytes \<or> entry_size (length x) > 2 ^ 64 - 1 - entries_len \<or>
            kListListpackHeaderBytes + entries_len' > max_blob_bytes
         then None else assign_raw_prepare max_blob_bytes entries_len' xs)"

definition lp_assign_raw :: "(nat \<Rightarrow> char) \<Rightarrow> listpack \<Rightarrow> string list \<Rightarrow> nat \<Rightarrow> nat \<Rightarrow> bool \<times> listpack" where
  "lp_assign_raw junk p values max_entries max_blob_bytes =
     (if length values > max_entries \<or> length values > 65535 then (False, p)
      else case assign_raw_prepare max_blob_bytes 0 values of
        None \<Rightarrow> (False, p)
      | Some entries_len \<Rightarrow>
          if values = [] then (True, None)
          else (True, Some (build_blob junk entries_len (map (Pair True) values))))"

section \<open>Traversal and search\<close>

fun views_from :: "nat \<Rightarrow> string \<Rightarrow> nat \<Rightarrow> string_encoding_options \<Rightarrow> encoded_view list" where
  "views_from 0 entries off opts = []"
| "views_from (Suc n) entries off opts =
     view_entry (drop off entries) opts #
     views_from n entries (off + ent_bytes (read_entry (drop off entries))) opts"

text \<open>The views handed to the callback, in order.\<close>

definition lp_for_each :: "listpack \<Rightarrow> string_encoding_options \<Rightarrow> encoded_view list" where
  "lp_for_each p opts = (let hdr = unpack p in views_from (hdr_count hdr) (hdr_entries hdr) 0 opts)"

definition lp_for_range :: "listpack \<Rightarrow> nat \<Rightarrow> nat \<Rightarrow> string_encoding_options \<Rightarrow> encoded_view list" where
  "lp_for_range p first count opts =
     (let hdr = unpack p
      in if first \<ge> hdr_count hdr \<or> count = 0 then []
         else views_from (min (hdr_count hdr) (first + count) - first) (hdr_entries hdr) (offset_of first hdr) opts)"

fun find_first_view :: "lz4 \<Rightarrow> string \<Rightarrow> nat \<Rightarrow> encoded_view list \<Rightarrow> string + nat option" where
  "find_first_view z x i [] = Inr None"
| "find_first_view z x i (v # vs) =
     (case view_equals z v x of
        Inl err \<Rightarrow> Inl err
      | Inr True \<Rightarrow> Inr (Some i)
      | Inr False \<Rightarrow> find_first_view z x (Suc i) vs)"

definition lp_find_first ::
  "lz4 \<Rightarrow> listpack \<Rightarrow> string \<Rightarrow> nat \<Rightarrow> string_encoding_options \<Rightarrow> string + nat option" where
  "lp_find_first z p x first opts =
     (let hdr = unpack p
      in if first \<ge> hdr_count hdr then Inr None
         else find_first_view z x first
                (views_from (hdr_count hdr - first) (hdr_entries hdr) (offset_of first hdr) opts))"

fun find_last_view :: "lz4 \<Rightarrow> string \<Rightarrow> nat \<Rightarrow> nat option \<Rightarrow> encoded_view list \<Rightarrow> string + nat option" where
  "find_last_view z x i result [] = Inr result"
| "find_last_view z x i result (v # vs) =
     (case view_equals z v x of
        Inl err \<Rightarrow> Inl err
      | Inr b \<Rightarrow> find_last_view z x (Suc i) (if b then Some i else result) vs)"

definition lp_find_last ::
  "lz4 \<Rightarrow> listpack \<Rightarrow> string \<Rightarrow> nat \<Rightarrow> string_encoding_options \<Rightarrow> string + nat option" where
  "lp_find_last z p x stop opts =
     (let hdr = unpack p
      in find_last_view z x 0 None (views_from (min stop (hdr_count hdr)) (hdr_entries hdr) 0 opts))"

end
