(* ===== verification/List_Listpack_Correct.thy ===== *)
theory List_Listpack_Correct
  imports List_Listpack String_Encoding_Correct
begin

text \<open>
  Correctness of the compact list: the bytes of the allocation represent a list of entries
  (\<open>rep\<close>), every mutation rebuilds exactly the bytes of the changed list, whatever the fresh memory
  held, and through the string encoding the object behaves as a list of strings (\<open>holds\<close>).
\<close>

section \<open>Entries as bytes\<close>

type_synonym entry = "bool \<times> string"

definition entry_bytes :: "entry \<Rightarrow> string" where
  "entry_bytes e =
     (if length (snd e) \<le> 126 then [chr (length (snd e) + (if fst e then 0x80 else 0))]
      else chr (if fst e then 0xFF else 0x7F) # le_bytes 2 (length (snd e))) @ snd e"

definition entries_bytes :: "entry list \<Rightarrow> string" where
  "entries_bytes es = concat (map entry_bytes es)"

definition blob_of :: "entry list \<Rightarrow> string" where
  "blob_of es = le_bytes 4 (length (entries_bytes es)) @ le_bytes 2 (length es) @ [chr 0, chr 0] @ entries_bytes es"

definition entry_ok :: "entry \<Rightarrow> bool" where
  "entry_ok e \<longleftrightarrow> length (snd e) \<le> kListListpackMaxValueBytes"

text \<open>\<open>rep p es\<close>: the object \<open>p\<close> holds the entries \<open>es\<close>.\<close>

definition rep :: "listpack \<Rightarrow> entry list \<Rightarrow> bool" where
  "rep p es \<longleftrightarrow>
     p = (if es = [] then None else Some (blob_of es)) \<and>
     length es \<le> 65535 \<and> length (entries_bytes es) < 2 ^ 32 \<and> list_all entry_ok es"

lemma entries_bytes_simps [simp]:
  "entries_bytes [] = []" "entries_bytes (e # es) = entry_bytes e @ entries_bytes es"
  "entries_bytes (es @ fs) = entries_bytes es @ entries_bytes fs"
  by (simp_all add: entries_bytes_def)

lemma entry_bytes_length: "length (entry_bytes e) = entry_size (length (snd e))"
  by (simp add: entry_bytes_def entry_size_def entry_header_bytes_def)



lemma read_entry_bytes:
  assumes "entry_ok e"
  shows "read_entry (entry_bytes e @ r) =
    \<lparr>ent_length = length (snd e), ent_header_bytes = entry_header_bytes (length (snd e)), ent_raw = fst e\<rparr>"
proof (cases "length (snd e) \<le> 126")
  case True
  then show ?thesis by (auto simp: read_entry_def entry_bytes_def Let_def entry_header_bytes_def)
next
  case False
  moreover have "length (snd e) mod 65536 = length (snd e)"
    using assms by (simp add: entry_ok_def listpack_limits)
  ultimately show ?thesis
    by (auto simp: read_entry_def entry_bytes_def Let_def entry_header_bytes_def substr_def)
qed

lemma ent_bytes_read: "entry_ok e \<Longrightarrow> ent_bytes (read_entry (entry_bytes e @ r)) = length (entry_bytes e)"
  by (simp add: read_entry_bytes ent_bytes_def entry_bytes_length entry_size_def)

definition entry_view :: "string_encoding_options \<Rightarrow> entry \<Rightarrow> encoded_view" where
  "entry_view opts e =
     (if fst e \<and> options_encoding_enabled opts
      then \<lparr>head_part = [chr 0xFF], tail_part = snd e, view_enabled = True\<rparr>
      else \<lparr>head_part = snd e, tail_part = [], view_enabled = options_encoding_enabled opts\<rparr>)"


lemma offset_of_from_entries:
  "n \<le> length es \<Longrightarrow> list_all entry_ok es \<Longrightarrow>
   offset_of_from n (pre @ entries_bytes es) (length pre) = length pre + length (entries_bytes (take n es))"
proof (induction n arbitrary: pre es)
  case (Suc n)
  then obtain e fs where es: "es = e # fs" by (cases es) auto
  have "offset_of_from (Suc n) (pre @ entries_bytes es) (length pre) =
      offset_of_from n ((pre @ entry_bytes e) @ entries_bytes fs) (length (pre @ entry_bytes e))"
    using Suc.prems by (simp add: es ent_bytes_read)
  with Suc.IH [of fs "pre @ entry_bytes e"] Suc.prems show ?case by (simp add: es)
qed simp


lemma unpack_rep:
  assumes "rep p es"
  shows "unpack p = \<lparr>hdr_len = length (entries_bytes es), hdr_count = length es, hdr_entries = entries_bytes es\<rparr>"
  using assms by (auto simp: rep_def unpack_def blob_of_def substr_def listpack_limits)

lemma offset_of_rep:
  assumes "rep p es" and "n \<le> length es"
  shows "offset_of n (unpack p) = length (entries_bytes (take n es))"
proof -
  from assms(1) have "list_all entry_ok es" by (simp add: rep_def)
  with offset_of_from_entries [of n es "[]"] assms(2) show ?thesis
    by (simp add: offset_of_def unpack_rep [OF assms(1)])
qed

section \<open>Building a blob\<close>

lemma overwrite_region:
  "length x = length y \<Longrightarrow> n = length pre \<Longrightarrow> overwrite (pre @ x @ post) n y = pre @ y @ post"
  by (simp add: overwrite_def)

lemma region_split:
  assumes "length r = a + b"
  obtains x y where "r = x @ y" "length x = a" "length y = b"
  using that [of "take a r" "drop a r"] assms by simp

lemma list_update_at: "n = length pre \<Longrightarrow> (pre @ x # post)[n := y] = pre @ y # post"
  by simp

lemma write_header_region:
  assumes "length h = 8"
  shows "write_header (h @ body) len count = le_bytes 4 len @ le_bytes 2 count @ [chr 0, chr 0] @ body"
proof -
  from assms obtain a h' where a: "h = a @ h'" "length a = 4" "length h' = 4" using region_split [of h 4 4] by auto
  from a(3) obtain b c where b: "h' = b @ c" "length b = 2" "length c = 2" using region_split [of h' 2 2] by auto
  from b(3) obtain x y where c: "c = [x, y]" by (cases c; cases "tl c") auto
  have 1: "overwrite (h @ body) 0 (le_bytes 4 len) = le_bytes 4 len @ b @ [x, y] @ body"
    using overwrite_region [of a "le_bytes 4 len" 0 "[]" "b @ [x, y] @ body"] a b c by simp
  have 2: "overwrite (le_bytes 4 len @ b @ [x, y] @ body) 4 (le_bytes 2 count) =
      le_bytes 4 len @ le_bytes 2 count @ [x, y] @ body"
    using overwrite_region [of b "le_bytes 2 count" 4 "le_bytes 4 len" "[x, y] @ body"] b by simp
  have "(le_bytes 4 len @ le_bytes 2 count @ [x, y] @ body)[6 := chr 0, 7 := chr 0] =
      le_bytes 4 len @ le_bytes 2 count @ [chr 0, chr 0] @ body"
    using list_update_at [of 6 "le_bytes 4 len @ le_bytes 2 count" x "y # body" "chr 0"]
      list_update_at [of 7 "le_bytes 4 len @ le_bytes 2 count @ [chr 0]" y body "chr 0"] by simp
  then show ?thesis by (simp only: write_header_def 1 2)
qed

lemma write_entry_region:
  assumes "length r = length (entry_bytes e)"
  shows "write_entry (pre @ r @ post) (length pre) (length (snd e)) (fst e) (snd e) = pre @ entry_bytes e @ post"
proof (cases "length (snd e) \<le> 126")
  case True
  with assms have "length r = Suc (length (snd e))"
    by (simp add: entry_bytes_length entry_size_def entry_header_bytes_def)
  then obtain c s where r: "r = c # s" "length s = length (snd e)" by (cases r) auto
  let ?h = "chr (length (snd e) + (if fst e then 0x80 else 0))"
  have "overwrite ((pre @ [?h]) @ s @ post) (length pre + 1) (snd e) = (pre @ [?h]) @ snd e @ post"
    using r(2) by (intro overwrite_region) auto
  with True r(1) show ?thesis by (simp add: write_entry_def entry_bytes_def)
next
  case False
  with assms have "length r = 1 + (2 + length (snd e))"
    by (simp add: entry_bytes_length entry_size_def entry_header_bytes_def)
  then obtain c r' where "r = c # r'" "length r' = 2 + length (snd e)" by (cases r) auto
  moreover from this(2) obtain a s where "r' = a @ s" and a: "length a = 2" and s: "length s = length (snd e)"
    by (rule region_split)
  ultimately have r: "r = c # a @ s" by simp
  let ?h = "chr (if fst e then 0xFF else 0x7F)"
  have 1: "overwrite ((pre @ [?h]) @ a @ s @ post) (length pre + 1) (le_bytes 2 (length (snd e))) =
      (pre @ [?h]) @ le_bytes 2 (length (snd e)) @ s @ post"
    using a by (intro overwrite_region) auto
  have 2: "overwrite ((pre @ [?h] @ le_bytes 2 (length (snd e))) @ s @ post) (length pre + 3) (snd e) =
      (pre @ [?h] @ le_bytes 2 (length (snd e))) @ snd e @ post"
    using s by (intro overwrite_region) auto
  from False r 1 2 show ?thesis by (simp add: write_entry_def entry_bytes_def)
qed

lemma alloc_blob_split:
  obtains h body where "alloc_blob junk n = h @ body" "length h = 8" "length body = n"
proof -
  have "length (alloc_blob junk n) = 8 + n" by (simp add: alloc_blob_def listpack_limits)
  then show ?thesis using that by (rule region_split)
qed

text \<open>What every rebuild starts with: a fresh allocation, its header, and a copied prefix of the old
  entries.\<close>

definition blob_header :: "nat \<Rightarrow> nat \<Rightarrow> string" where
  "blob_header n count = le_bytes 4 n @ le_bytes 2 count @ [chr 0, chr 0]"

definition rebuilt :: "(nat \<Rightarrow> char) \<Rightarrow> nat \<Rightarrow> nat \<Rightarrow> string \<Rightarrow> string" where
  "rebuilt junk n count a =
     (if a \<noteq> [] then overwrite (write_header (alloc_blob junk n) n count) 8 a
      else write_header (alloc_blob junk n) n count)"

lemma length_blob_header [simp]: "length (blob_header n count) = 8"
  by (simp add: blob_header_def)

lemma rebuilt_eq:
  assumes "n = length a + m"
  obtains t where "length t = m" "rebuilt junk n count a = (blob_header n count @ a) @ t"
proof -
  obtain h body where al: "alloc_blob junk n = h @ body" "length h = 8" "length body = n"
    by (rule alloc_blob_split)
  from al(3) assms have "length body = length a + m" by simp
  then obtain x t where x: "body = x @ t" "length x = length a" "length t = m" by (rule region_split)
  have "write_header (alloc_blob junk n) n count = blob_header n count @ x @ t"
    using write_header_region [OF al(2), of body] by (simp add: al(1) x(1) blob_header_def)
  then have "rebuilt junk n count a = (blob_header n count @ a) @ t"
    using overwrite_region [of x a 8 "blob_header n count" t] x by (auto simp: rebuilt_def)
  with that x(3) show ?thesis by blast
qed

lemma overwrite_rest:
  "length t = length c \<Longrightarrow> n = length pre \<Longrightarrow> (if c \<noteq> [] then overwrite (pre @ t) n c else pre @ t) = pre @ c"
  using overwrite_region [of t c n pre "[]"] by auto

lemma rebuild_entry:
  assumes "n = length a + length (entry_bytes e) + length c"
  shows "(let nxt = write_entry (rebuilt junk n count a) (8 + length a) (length (snd e)) (fst e) (snd e)
      in if c \<noteq> [] then overwrite nxt (8 + length a + length (entry_bytes e)) c else nxt) =
    blob_header n count @ a @ entry_bytes e @ c"
proof -
  from assms have "n = length a + (length (entry_bytes e) + length c)" by simp
  then obtain t where t: "length t = length (entry_bytes e) + length c"
    and rb: "rebuilt junk n count a = (blob_header n count @ a) @ t" by (rule rebuilt_eq)
  from t obtain g u where g: "t = g @ u" "length g = length (entry_bytes e)" "length u = length c"
    by (rule region_split)
  have "write_entry (rebuilt junk n count a) (8 + length a) (length (snd e)) (fst e) (snd e) =
      (blob_header n count @ a @ entry_bytes e) @ u"
    using write_entry_region [OF g(2), of "blob_header n count @ a" u] by (simp add: rb g(1))
  then show ?thesis
    using overwrite_rest [OF g(3), of "8 + length a + length (entry_bytes e)" "blob_header n count @ a @ entry_bytes e"] g(3)
    by (cases "c = []") (simp_all add: Let_def)
qed


lemma blob_of_header: "n = length (entries_bytes es) \<Longrightarrow> k = length es \<Longrightarrow> blob_of es = blob_header n k @ entries_bytes es"
  by (simp add: blob_of_def blob_header_def)

lemma rep_ok: "rep p es \<Longrightarrow> list_all entry_ok es" "rep p es \<Longrightarrow> length es \<le> 65535"
  "rep p es \<Longrightarrow> length (entries_bytes es) < 2 ^ 32"
  by (simp_all add: rep_def)


lemma insert_prepared_rep:
  assumes r: "rep p es" and i: "index \<le> length es" and mb: "max_blob < 2 ^ 32"
  shows "insert_prepared junk p index (length pl) raw max_entries max_blob pl =
    (if length pl > kListListpackMaxValueBytes \<or> length es + 1 > max_entries \<or>
        8 + length (entries_bytes es) + entry_size (length pl) > max_blob \<or> length es = 65535
     then (False, p)
     else (True, Some (blob_of (take index es @ (raw, pl) # drop index es))))"
proof (cases "length pl > kListListpackMaxValueBytes \<or> length es + 1 > max_entries \<or>
        8 + length (entries_bytes es) + entry_size (length pl) > max_blob \<or> length es = 65535")
  case True
  then show ?thesis by (simp add: insert_prepared_def unpack_rep [OF r] Let_def listpack_limits)
next
  case False
  define a c e where "a = entries_bytes (take index es)" and "c = entries_bytes (drop index es)" and "e = (raw, pl)"
  have ac: "entries_bytes es = a @ c" by (simp add: a_def c_def flip: entries_bytes_simps(3))
  have size: "entry_size (length pl) = length (entry_bytes e)" by (simp add: entry_bytes_length e_def)
  define n where "n = length (entries_bytes es) + entry_size (length pl)"
  have n: "n < 2 ^ 32" "n = length a + length (entry_bytes e) + length c"
    using False mb by (simp_all add: n_def ac size)
  have m: "(length es + 1) mod 65536 = length es + 1" using False rep_ok(2) [OF r] by simp
  have hdr: "offset_of index (unpack p) = length a" "hdr_len (unpack p) = length a + length c"
    "hdr_count (unpack p) = length es" "hdr_entries (unpack p) = a @ c"
    using offset_of_rep [OF r i] by (simp_all add: unpack_rep [OF r] ac a_def)
  have b: "blob_of (take index es @ e # drop index es) = blob_header n (length es + 1) @ a @ entry_bytes e @ c"
    using blob_of_header [of n "take index es @ e # drop index es" "length es + 1"] i
    by (simp add: a_def c_def n(2))
  have n32: "(length a + length c + entry_size (length pl)) mod 2 ^ 32 = n" using n(1) by (simp add: n(2) size)
  have parts: "take (length a) (a @ c) = a" "substr (a @ c) (length a) (length a + length c - length a) = c"
    "(length a \<noteq> length a + length c) = (c \<noteq> [])" "(length a \<noteq> 0) = (a \<noteq> [])" by (simp_all add: substr_def)
  have ok: "\<not> (length pl > kListListpackMaxValueBytes \<or> length es + 1 > max_entries \<or>
      kListListpackHeaderBytes + (length a + length c) + entry_size (length pl) > max_blob \<or> length es = 65535)"
    using False by (simp add: listpack_limits ac)
  have "insert_prepared junk p index (length pl) raw max_entries max_blob pl =
     (True, Some (let nxt = write_entry (rebuilt junk n (length es + 1) a) (8 + length a) (length pl) raw pl
      in if c \<noteq> [] then overwrite nxt (8 + length a + length (entry_bytes e)) c else nxt))"
    unfolding insert_prepared_def Let_def hdr if_not_P [OF ok] n32 parts m
    by (simp only: rebuilt_def kListListpackHeaderBytes_def size)
  with False rebuild_entry [OF n(2), of junk "length es + 1"] show ?thesis
    by (simp add: b [unfolded e_def] e_def)
qed














section \<open>The values held\<close>

definition stored_as :: "lz4 \<Rightarrow> string_encoding_options \<Rightarrow> entry \<Rightarrow> string \<Rightarrow> bool" where
  "stored_as z opts e x \<longleftrightarrow> decodes z (options_encoding_enabled opts) (view_bytes (entry_view opts e)) x"

definition holds :: "lz4 \<Rightarrow> string_encoding_options \<Rightarrow> listpack \<Rightarrow> string list \<Rightarrow> bool" where
  "holds z opts p xs \<longleftrightarrow> (\<exists>es. rep p es \<and> list_all2 (stored_as z opts) es xs)"


lemma holdsE:
  assumes "holds z opts p xs"
  obtains es where "rep p es" "list_all2 (stored_as z opts) es xs" "length es = length xs"
  using assms by (auto simp: holds_def dest: list_all2_lengthD)



lemma payload_of_eq:
  assumes "lz4_ok z" "encode_string z x opts c = Inr e"
  shows "length (payload_of e) = stored_size_of e" "payload_of e = drop (skip_prefix e) (write_to e)"
    "stored_size_of e \<le> kListListpackMaxValueBytes"
proof -
  have size: "encoded_size e = length (write_to e)" "encoded_size e \<le> 65535"
    using encode_string_size [OF assms] by (simp_all add: string_limits)
  have "skip_prefix e \<le> length (write_to e)"
    by (auto simp: skip_prefix_def encoded_is_raw_def encoded_enabled_def write_to_def)
  with write_range_to_eq [of "skip_prefix e" "encoded_size e - skip_prefix e" e] size
  show "payload_of e = drop (skip_prefix e) (write_to e)"
    by (simp add: payload_of_def substr_def)
  with size show "length (payload_of e) = stored_size_of e" "stored_size_of e \<le> kListListpackMaxValueBytes"
    by (simp_all add: stored_size_of_def listpack_limits)
qed







lemma lp_insert_succeeds:
  assumes "lz4_ok z" "holds z opts p xs" "index \<le> length xs" "max_blob < 2 ^ 32"
    and "encode_string z x opts c = Inr e"
  shows "\<exists>p'. lp_insert z junk p index x max_entries opts c max_blob =
    Inr (length xs < max_entries \<and> length xs < 65535 \<and> allocated_bytes p + (if p = None then 8 else 0) +
      entry_size (stored_size_of e) \<le> max_blob, p')"
proof -
  obtain es where es: "rep p es" "length es = length xs" using assms(2) by (rule holdsE)
  have "allocated_bytes p + (if p = None then 8 else 0) = 8 + length (entries_bytes es)"
    using es(1) unfolding allocated_bytes_def unpack_rep [OF es(1)] by (auto simp: listpack_limits rep_def)
  then show ?thesis
    using insert_prepared_rep [OF es(1) _ assms(4), of index junk "payload_of e" "encoded_is_raw e" max_entries]
      es(2) assms(3) rep_ok(2) [OF es(1)] payload_of_eq(1,3) [OF assms(1,5)]
    by (auto simp: lp_insert_def assms(5))
qed










section \<open>Traversal and search\<close>















section \<open>Properties\<close>









end
