(* ===== verification/Transaction.thy ===== *)
theory Transaction
  imports Goblin_Prelude
begin

text \<open>
  Transactions (\<open>src/transaction.hpp\<close>, \<open>src/transaction.cpp\<close>): the fixed mapping that queues the
  commands of a \<open>MULTI\<close> block as length-prefixed records, the per-connection transaction state, and
  the registry of watched keys.

  The mapping \<open>data_\<close> is the list of its bytes, so \<open>capacity_\<close> is its length. The registry holds
  pointers to transaction states: a state is named by a number, all states are one function from
  numbers to states, and the hash table of watchers is an association list (its iteration order does
  not matter to any operation). Page locking and unmapping have no effect on the content.
\<close>

section \<open>TransactionBuffer\<close>

record transaction_buffer =
  tb_data :: string
  used_bytes :: nat
  command_count :: nat

definition kRecordHeaderBytes :: nat where "kRecordHeaderBytes = 8"
definition kFieldHeaderBytes :: nat where "kFieldHeaderBytes = 4"

definition mapped_bytes :: "transaction_buffer \<Rightarrow> nat" where
  "mapped_bytes b = length (tb_data b)"

text \<open>The constructor; \<open>None\<close> is \<open>bad_alloc\<close>. An anonymous mapping is zero-filled.\<close>

definition new_transaction_buffer :: "nat \<Rightarrow> transaction_buffer option" where
  "new_transaction_buffer n =
     (if n = 0 then None else Some \<lparr>tb_data = replicate n (chr 0), used_bytes = 0, command_count = 0\<rparr>)"

fun record_size :: "string list \<Rightarrow> nat \<Rightarrow> nat option" where
  "record_size [] record_bytes = Some record_bytes"
| "record_size (f # fs) record_bytes =
     (if length f > (2 ^ 32 - 1) - kFieldHeaderBytes \<or>
         record_bytes > (2 ^ 32 - 1) - kFieldHeaderBytes - length f
      then None
      else record_size fs (record_bytes + (kFieldHeaderBytes + length f)))"

fun write_fields :: "string \<Rightarrow> nat \<Rightarrow> string list \<Rightarrow> string" where
  "write_fields mem cursor [] = mem"
| "write_fields mem cursor (f # fs) =
     (let mem = overwrite mem cursor (le_bytes 4 (length f));
          cursor = cursor + 4;
          mem = (if f \<noteq> [] then overwrite mem cursor f else mem)
      in write_fields mem (cursor + length f) fs)"

definition tb_append :: "transaction_buffer \<Rightarrow> string list \<Rightarrow> bool \<times> transaction_buffer" where
  "tb_append b fs =
     (if length fs > 2 ^ 32 - 1 then (False, b)
      else case record_size fs kRecordHeaderBytes of
        None \<Rightarrow> (False, b)
      | Some record_bytes \<Rightarrow>
          if record_bytes > mapped_bytes b - used_bytes b then (False, b)
          else
            let cursor = used_bytes b;
                mem = overwrite (tb_data b) cursor (le_bytes 4 record_bytes);
                cursor = cursor + 4;
                mem = overwrite mem cursor (le_bytes 4 (length fs));
                cursor = cursor + 4;
                mem = write_fields mem cursor fs
            in (True, b\<lparr>tb_data := mem, used_bytes := used_bytes b + record_bytes,
                        command_count := command_count b + 1\<rparr>))"

text \<open>\<open>decode\<close> hands out views into the mapping: a view is a position and a length. The loop yields the
  views, or \<open>None\<close> for \<open>return false\<close>.\<close>

type_synonym view = "nat \<times> nat"

definition view_text :: "string \<Rightarrow> view \<Rightarrow> string" where
  "view_text mem v = substr mem (fst v) (snd v)"

fun decode_fields :: "string \<Rightarrow> nat \<Rightarrow> nat \<Rightarrow> nat \<Rightarrow> view list option" where
  "decode_fields mem end_at 0 cursor = (if cursor \<noteq> end_at then None else Some [])"
| "decode_fields mem end_at (Suc n) cursor =
     (if end_at - cursor < kFieldHeaderBytes then None
      else let field_bytes = le_value (substr mem cursor 4); cursor = cursor + 4
           in if end_at - cursor < field_bytes then None
              else map_option (Cons (cursor, field_bytes)) (decode_fields mem end_at n (cursor + field_bytes)))"

definition tb_decode :: "transaction_buffer \<Rightarrow> nat \<Rightarrow> (view list \<times> nat) option" where
  "tb_decode b offset =
     (if offset \<ge> used_bytes b \<or> used_bytes b - offset < kRecordHeaderBytes then None
      else let record_bytes = le_value (substr (tb_data b) offset 4);
               field_count = le_value (substr (tb_data b) (offset + 4) 4)
           in if record_bytes < kRecordHeaderBytes \<or> record_bytes > used_bytes b - offset then None
              else map_option (\<lambda>views. (views, offset + record_bytes))
                     (decode_fields (tb_data b) (offset + record_bytes) field_count (offset + kRecordHeaderBytes)))"

definition tb_clear :: "transaction_buffer \<Rightarrow> transaction_buffer" where
  "tb_clear b =
     b\<lparr>tb_data := overwrite (tb_data b) 0 (replicate (used_bytes b) (chr 0)), used_bytes := 0, command_count := 0\<rparr>"

section \<open>TransactionState\<close>

datatype transaction_failure = No_failure | Command_error | Buffer_limit

record transaction_state =
  commands :: transaction_buffer
  in_multi :: bool
  watch_dirty :: bool
  has_watches :: bool
  failure :: transaction_failure

definition new_transaction_state :: "nat \<Rightarrow> transaction_state option" where
  "new_transaction_state n =
     map_option (\<lambda>b. \<lparr>commands = b, in_multi = False, watch_dirty = False, has_watches = False,
                      failure = No_failure\<rparr>) (new_transaction_buffer n)"

definition ts_begin :: "transaction_state \<Rightarrow> transaction_state" where
  "ts_begin t = t\<lparr>commands := tb_clear (commands t), in_multi := True, failure := No_failure\<rparr>"

definition ts_finish :: "transaction_state \<Rightarrow> transaction_state" where
  "ts_finish t = t\<lparr>commands := tb_clear (commands t), in_multi := False, failure := No_failure\<rparr>"

definition ts_reset :: "transaction_state \<Rightarrow> transaction_state" where
  "ts_reset t = (ts_finish t)\<lparr>watch_dirty := False, has_watches := False\<rparr>"

section \<open>WatchRegistry\<close>

type_synonym watch_table = "(string \<times> nat list) list"
type_synonym states = "nat \<Rightarrow> transaction_state"

text \<open>\<open>try_emplace\<close> and the insertion into the watcher set.\<close>

definition wt_emplace :: "watch_table \<Rightarrow> string \<Rightarrow> watch_table" where
  "wt_emplace w key = (if key \<in> fst ` set w then w else w @ [(key, [])])"

definition wt_insert :: "nat \<Rightarrow> watch_table \<Rightarrow> string \<Rightarrow> watch_table" where
  "wt_insert i w key =
     map (\<lambda>(k, ws). if k = key then (k, List.insert i ws) else (k, ws)) (wt_emplace w key)"

definition registry_remove :: "nat \<Rightarrow> states \<times> watch_table \<Rightarrow> states \<times> watch_table" where
  "registry_remove i sw =
     (let states = fst sw; w = snd sw; t = states i
      in if \<not> has_watches t then (states(i := t\<lparr>watch_dirty := False\<rparr>), w)
         else (states(i := t\<lparr>has_watches := False, watch_dirty := False\<rparr>),
               filter (\<lambda>(k, ws). ws \<noteq> []) (map (\<lambda>(k, ws). (k, filter (\<lambda>j. j \<noteq> i) ws)) w)))"

text \<open>Registration may run out of memory; \<open>room\<close> is the number of keys for which it does not, and the
  Boolean result tells whether \<open>bad_alloc\<close> leaves the function.\<close>

definition registry_watch ::
  "nat option \<Rightarrow> nat \<Rightarrow> string list \<Rightarrow> states \<times> watch_table \<Rightarrow> bool \<times> states \<times> watch_table" where
  "registry_watch room i keys sw =
     (let states = fst sw; w = snd sw; states = states(i := (states i)\<lparr>has_watches := True\<rparr>)
      in case room of
           None \<Rightarrow> (True, states, foldl (wt_insert i) w keys)
         | Some n \<Rightarrow>
             if length keys \<le> n then (True, states, foldl (wt_insert i) w keys)
             else (False, registry_remove i (states, wt_emplace (foldl (wt_insert i) w (take n keys)) (keys ! n))))"

definition mark_dirty :: "states \<Rightarrow> nat list \<Rightarrow> states" where
  "mark_dirty states ws = (\<lambda>i. if i \<in> set ws then (states i)\<lparr>watch_dirty := True\<rparr> else states i)"

definition registry_modified :: "string \<Rightarrow> states \<times> watch_table \<Rightarrow> states \<times> watch_table" where
  "registry_modified key sw =
     (case map_of (snd sw) key of
        None \<Rightarrow> sw
      | Some watchers \<Rightarrow> (mark_dirty (fst sw) watchers, snd sw))"

definition registry_modified_all :: "states \<times> watch_table \<Rightarrow> states \<times> watch_table" where
  "registry_modified_all sw = (foldl mark_dirty (fst sw) (map snd (snd sw)), snd sw)"

text \<open>What the store reports to the registry after a change.\<close>

datatype mutation = Key_Modified string | All_Modified

fun notify :: "mutation \<Rightarrow> states \<times> watch_table \<Rightarrow> states \<times> watch_table" where
  "notify (Key_Modified k) sw = registry_modified k sw"
| "notify All_Modified sw = registry_modified_all sw"

section \<open>The buffer as a list of commands\<close>

definition record_bytes_of :: "string list \<Rightarrow> nat" where
  "record_bytes_of fs = kRecordHeaderBytes + sum_list (map (\<lambda>f. kFieldHeaderBytes + length f) fs)"

definition fields_bytes :: "string list \<Rightarrow> string" where
  "fields_bytes fs = concat (map (\<lambda>f. le_bytes 4 (length f) @ f) fs)"

definition record_of :: "string list \<Rightarrow> string" where
  "record_of fs = le_bytes 4 (record_bytes_of fs) @ le_bytes 4 (length fs) @ fields_bytes fs"

definition record_ok :: "string list \<Rightarrow> bool" where
  "record_ok fs \<longleftrightarrow> record_bytes_of fs < 2 ^ 32"

definition queue_bytes :: "string list list \<Rightarrow> string" where
  "queue_bytes cs = concat (map record_of cs)"

text \<open>\<open>tb_rest b off cs\<close>: from \<open>off\<close> on the buffer holds the commands \<open>cs\<close>, and every byte past them is
  zero; \<open>tb_holds b cs\<close>: these are all its commands.\<close>

definition tb_rest :: "transaction_buffer \<Rightarrow> nat \<Rightarrow> string list list \<Rightarrow> bool" where
  "tb_rest b off cs \<longleftrightarrow>
     used_bytes b = off + length (queue_bytes cs) \<and> used_bytes b \<le> mapped_bytes b \<and>
     drop off (tb_data b) = queue_bytes cs @ replicate (mapped_bytes b - used_bytes b) (chr 0) \<and> list_all record_ok cs"

definition tb_holds :: "transaction_buffer \<Rightarrow> string list list \<Rightarrow> bool" where
  "tb_holds b cs \<longleftrightarrow> tb_rest b 0 cs \<and> command_count b = length cs"

lemma length_fields_bytes: "kRecordHeaderBytes + length (fields_bytes fs) = record_bytes_of fs"
  by (induction fs) (simp_all add: fields_bytes_def record_bytes_of_def kFieldHeaderBytes_def)

lemma length_record_of [simp]: "length (record_of fs) = record_bytes_of fs"
  using length_fields_bytes [of fs] by (simp add: record_of_def kRecordHeaderBytes_def)

lemma record_size_eq:
  "n < 2 ^ 32 \<Longrightarrow> record_size fs n =
     (let m = n + sum_list (map (\<lambda>f. kFieldHeaderBytes + length f) fs) in if m < 2 ^ 32 then Some m else None)"
proof (induction fs arbitrary: n)
  case (Cons f fs)
  show ?case
  proof (cases "n + (kFieldHeaderBytes + length f) < 2 ^ 32")
    case True
    with Cons.IH [of "n + (kFieldHeaderBytes + length f)"] show ?thesis
      by (auto simp: kFieldHeaderBytes_def Let_def)
  next
    case False
    then show ?thesis by (auto simp: kFieldHeaderBytes_def Let_def)
  qed
qed simp

lemma record_ok_length: "record_ok fs \<Longrightarrow> length fs < 2 ^ 32"
proof -
  have "length fs \<le> sum_list (map (\<lambda>f. kFieldHeaderBytes + length f) fs)"
    by (induction fs) (simp_all add: kFieldHeaderBytes_def)
  then show "record_ok fs \<Longrightarrow> length fs < 2 ^ 32" by (simp add: record_ok_def record_bytes_of_def)
qed

lemma write_fields_region:
  "length r = length (fields_bytes fs) \<Longrightarrow>
   write_fields (pre @ r @ post) (length pre) fs = pre @ fields_bytes fs @ post"
proof (induction fs arbitrary: pre r)
  case (Cons f fs)
  let ?l = "le_bytes 4 (length f)"
  obtain a b c where r: "r = a @ b @ c" "length a = 4" "length b = length f" "length c = length (fields_bytes fs)"
    using Cons.prems that [of "take 4 r" "take (length f) (drop 4 r)" "drop (4 + length f) r"]
    by (auto simp: fields_bytes_def) (metis add.commute append_take_drop_id drop_drop)
  have 1: "overwrite (pre @ r @ post) (length pre) ?l = (pre @ ?l) @ b @ c @ post"
    using r by (simp add: overwrite_def)
  have 2: "(if f \<noteq> [] then overwrite ((pre @ ?l) @ b @ c @ post) (length pre + 4) f else (pre @ ?l) @ b @ c @ post) =
      (pre @ ?l @ f) @ c @ post"
    using r(3) by (auto simp: overwrite_def)
  have "write_fields (pre @ r @ post) (length pre) (f # fs) =
      write_fields ((pre @ ?l @ f) @ c @ post) (length (pre @ ?l @ f)) fs"
    by (simp add: 1 2 Let_def add.assoc del: append_assoc)
  with Cons.IH [OF r(4), of "pre @ ?l @ f"] show ?case by (simp add: fields_bytes_def)
qed (simp add: fields_bytes_def)

lemma queue_bytes_simps [simp]:
  "queue_bytes [] = []" "queue_bytes (c # cs) = record_of c @ queue_bytes cs"
  "queue_bytes (cs @ ds) = queue_bytes cs @ queue_bytes ds"
  by (simp_all add: queue_bytes_def)

lemma tb_append_eq:
  assumes h: "tb_holds b cs"
  shows "tb_append b fs =
    (if record_ok fs \<and> record_bytes_of fs \<le> mapped_bytes b - used_bytes b
     then (True, b\<lparr>tb_data := queue_bytes (cs @ [fs]) @
                       replicate (mapped_bytes b - used_bytes b - record_bytes_of fs) (chr 0),
                   used_bytes := used_bytes b + record_bytes_of fs, command_count := command_count b + 1\<rparr>)
     else (False, b))"
proof -
  have rs: "record_size fs kRecordHeaderBytes = (if record_ok fs then Some (record_bytes_of fs) else None)"
    by (simp add: record_size_eq kRecordHeaderBytes_def record_ok_def record_bytes_of_def Let_def)
  show ?thesis
  proof (cases "record_ok fs \<and> record_bytes_of fs \<le> mapped_bytes b - used_bytes b")
    case True
    define rest where "rest = replicate (mapped_bytes b - used_bytes b - record_bytes_of fs) (chr 0)"
    define q where "q = queue_bytes cs"
    have "mapped_bytes b - used_bytes b =
        8 + length (fields_bytes fs) + (mapped_bytes b - used_bytes b - record_bytes_of fs)"
      using True length_fields_bytes [of fs] unfolding kRecordHeaderBytes_def by linarith
    then have d: "tb_data b = q @ (replicate 4 (chr 0) @ replicate 4 (chr 0) @
        replicate (length (fields_bytes fs)) (chr 0)) @ rest"
      using h by (simp add: tb_holds_def tb_rest_def q_def rest_def flip: replicate_add append_assoc)
    have u: "used_bytes b = length q" using h by (simp add: tb_holds_def tb_rest_def q_def)
    let ?h = "le_bytes 4 (record_bytes_of fs)" and ?n = "le_bytes 4 (length fs)"
    have 1: "overwrite (tb_data b) (length q) ?h = q @ ?h @ replicate 4 (chr 0) @
        replicate (length (fields_bytes fs)) (chr 0) @ rest"
      unfolding d by (simp add: overwrite_def)
    have 2: "overwrite (q @ ?h @ replicate 4 (chr 0) @ replicate (length (fields_bytes fs)) (chr 0) @ rest)
        (length q + 4) ?n = (q @ ?h @ ?n) @ replicate (length (fields_bytes fs)) (chr 0) @ rest"
      by (simp add: overwrite_def)
    have 3: "write_fields ((q @ ?h @ ?n) @ replicate (length (fields_bytes fs)) (chr 0) @ rest)
        (length q + 4 + 4) fs = (q @ ?h @ ?n) @ fields_bytes fs @ rest"
      using write_fields_region [of "replicate (length (fields_bytes fs)) (chr 0)" fs "q @ ?h @ ?n" rest]
      by (simp add: add.assoc)
    have w: "write_fields (overwrite (overwrite (tb_data b) (used_bytes b) ?h) (used_bytes b + 4) ?n)
        (used_bytes b + 4 + 4) fs = queue_bytes (cs @ [fs]) @ rest"
      unfolding u 1 2 3 by (simp add: q_def record_of_def)
    have "\<not> length fs > 2 ^ 32 - 1" using record_ok_length [of fs] True by simp
    with True w show ?thesis by (simp add: tb_append_def Let_def rs rest_def)
  next
    case False
    then show ?thesis by (auto simp: tb_append_def rs Let_def)
  qed
qed

lemma tb_append_holds:
  assumes "tb_holds b cs" and "tb_append b fs = (ok, b')"
  shows "if ok then tb_holds b' (cs @ [fs]) else b' = b"
    and "ok \<longleftrightarrow> record_ok fs \<and> length (queue_bytes cs) + record_bytes_of fs \<le> mapped_bytes b"
    and "mapped_bytes b' = mapped_bytes b"
proof -
  have u: "used_bytes b = length (queue_bytes cs)" "used_bytes b \<le> mapped_bytes b"
    and cs: "list_all record_ok cs" "command_count b = length cs"
    using assms(1) by (simp_all add: tb_holds_def tb_rest_def)
  let ?C = "record_ok fs \<and> record_bytes_of fs \<le> mapped_bytes b - used_bytes b"
  let ?b = "b\<lparr>tb_data := queue_bytes (cs @ [fs]) @ replicate (mapped_bytes b - used_bytes b - record_bytes_of fs) (chr 0),
      used_bytes := used_bytes b + record_bytes_of fs, command_count := command_count b + 1\<rparr>"
  have e: "(ok, b') = (if ?C then (True, ?b) else (False, b))"
    using assms(2) unfolding tb_append_eq [OF assms(1)] by (rule sym)
  have r: "ok = ?C" "ok \<Longrightarrow> b' = ?b" "\<not> ok \<Longrightarrow> b' = b"
    using e by (simp_all split: if_splits)
  from r(1) u show "ok \<longleftrightarrow> record_ok fs \<and> length (queue_bytes cs) + record_bytes_of fs \<le> mapped_bytes b"
    by auto
  have mb: "mapped_bytes ?b = mapped_bytes b" if ?C using that u by (auto simp: mapped_bytes_def)
  with r show "mapped_bytes b' = mapped_bytes b" by metis
  have "tb_holds ?b (cs @ [fs])" if c: ?C
    unfolding tb_holds_def tb_rest_def mb [OF c] using c u cs by auto
  with r show "if ok then tb_holds b' (cs @ [fs]) else b' = b" by metis
qed

fun views_of :: "nat \<Rightarrow> string list \<Rightarrow> view list" where
  "views_of cursor [] = []"
| "views_of cursor (f # fs) = (cursor + 4, length f) # views_of (cursor + 4 + length f) fs"

lemma decode_fields_eq:
  "list_all (\<lambda>f. length f < 2 ^ 32) fs \<Longrightarrow>
   decode_fields (pre @ fields_bytes fs @ post) (length pre + length (fields_bytes fs)) (length fs) (length pre) =
     Some (views_of (length pre) fs)"
proof (induction fs arbitrary: pre)
  case (Cons f fs)
  let ?l = "le_bytes 4 (length f)"
  have mem: "pre @ fields_bytes (f # fs) @ post = (pre @ ?l @ f) @ fields_bytes fs @ post"
    and len: "length (fields_bytes (f # fs)) = 4 + (length f + length (fields_bytes fs))"
    by (simp_all add: fields_bytes_def)
  have n: "le_value (substr ((pre @ ?l @ f) @ fields_bytes fs @ post) (length pre) 4) = length f"
    using Cons.prems by (simp add: substr_def)
  show ?case
    unfolding mem using Cons.IH [of "pre @ ?l @ f"] Cons.prems
    by (simp add: n len Let_def kFieldHeaderBytes_def add.assoc del: append_assoc)
qed (simp add: fields_bytes_def)

lemma view_text_views_of:
  "map (view_text (pre @ fields_bytes fs @ post)) (views_of (length pre) fs) = fs"
proof (induction fs arbitrary: pre)
  case (Cons f fs)
  let ?l = "le_bytes 4 (length f)"
  have mem: "pre @ fields_bytes (f # fs) @ post = (pre @ ?l @ f) @ fields_bytes fs @ post"
    by (simp add: fields_bytes_def)
  show ?case
    unfolding mem using Cons.IH [of "pre @ ?l @ f"]
    by (simp add: view_text_def substr_def add.assoc del: append_assoc)
qed simp

lemma record_ok_fields: "record_ok fs \<Longrightarrow> list_all (\<lambda>f. length f < 2 ^ 32) fs"
proof -
  have "f \<in> set fs \<Longrightarrow> length f \<le> sum_list (map (\<lambda>f. kFieldHeaderBytes + length f) fs)" for f
    by (induction fs) auto
  then show "record_ok fs \<Longrightarrow> list_all (\<lambda>f. length f < 2 ^ 32) fs"
    by (fastforce simp: list_all_iff record_ok_def record_bytes_of_def)
qed

text \<open>Decoding walks over the records in the order they were appended.\<close>

lemma tb_decode_rest:
  assumes h: "tb_rest b off (fs # ds)"
  shows "tb_decode b off = Some (views_of (off + 8) fs, off + record_bytes_of fs)"
    and "map (view_text (tb_data b)) (views_of (off + 8) fs) = fs"
    and "tb_rest b (off + record_bytes_of fs) ds"
proof -
  define q post where "q = take off (tb_data b)"
    and "post = queue_bytes ds @ replicate (mapped_bytes b - used_bytes b) (chr 0)"
  have ok: "record_ok fs" and dr: "drop off (tb_data b) = record_of fs @ post"
    and u: "used_bytes b = off + record_bytes_of fs + length (queue_bytes ds)" "used_bytes b \<le> mapped_bytes b"
    using h by (simp_all add: tb_rest_def post_def)
  have q: "length q = off" using u by (simp add: q_def mapped_bytes_def)
  have d: "tb_data b = q @ record_of fs @ post" unfolding q_def dr [symmetric] by simp
  have rb: "record_bytes_of fs = 8 + length (fields_bytes fs)" "record_bytes_of fs < 2 ^ 32" "length fs < 2 ^ 32"
    using length_fields_bytes [of fs] ok record_ok_length [OF ok] by (simp_all add: kRecordHeaderBytes_def record_ok_def)
  have h1: "le_value (substr (tb_data b) off 4) = record_bytes_of fs"
    and h2: "le_value (substr (tb_data b) (off + 4) 4) = length fs"
    using rb q by (simp_all add: d record_of_def substr_def)
  let ?pre = "q @ le_bytes 4 (record_bytes_of fs) @ le_bytes 4 (length fs)"
  have d': "tb_data b = ?pre @ fields_bytes fs @ post" by (simp add: d record_of_def)
  have pre: "length ?pre = off + 8" using q by simp
  have "decode_fields (tb_data b) (off + record_bytes_of fs) (length fs) (off + 8) = Some (views_of (off + 8) fs)"
    using decode_fields_eq [OF record_ok_fields [OF ok], of ?pre post] unfolding pre d' [symmetric]
    by (simp add: rb(1) add.assoc)
  with rb(1) u show "tb_decode b off = Some (views_of (off + 8) fs, off + record_bytes_of fs)"
    by (simp add: tb_decode_def Let_def h1 h2 kRecordHeaderBytes_def)
  show "map (view_text (tb_data b)) (views_of (off + 8) fs) = fs"
    using view_text_views_of [of ?pre fs post] unfolding pre d' [symmetric] .
  have "drop (off + record_bytes_of fs) (tb_data b) = drop (record_bytes_of fs) (drop off (tb_data b))"
    by (simp add: add.commute)
  then show "tb_rest b (off + record_bytes_of fs) ds"
    using u h unfolding tb_rest_def dr by (simp add: post_def)
qed

lemma tb_clear_rest:
  assumes "tb_rest b off cs"
  shows "tb_holds (tb_clear b) []"
proof -
  have u: "used_bytes b = off + length (queue_bytes cs)" "used_bytes b \<le> mapped_bytes b"
    and d: "drop off (tb_data b) = queue_bytes cs @ replicate (mapped_bytes b - used_bytes b) (chr 0)"
    using assms by (simp_all add: tb_rest_def)
  have "drop (used_bytes b) (tb_data b) = drop (length (queue_bytes cs)) (drop off (tb_data b))"
    by (simp add: u(1) add.commute)
  also have "\<dots> = replicate (mapped_bytes b - used_bytes b) (chr 0)" by (simp add: d)
  finally have "tb_data (tb_clear b) = replicate (mapped_bytes b) (chr 0)"
    using u(2) by (simp add: tb_clear_def overwrite_def flip: replicate_add)
  then show ?thesis by (simp add: tb_holds_def tb_rest_def mapped_bytes_def tb_clear_def)
qed

lemma mapped_bytes_clear [simp]: "used_bytes b \<le> mapped_bytes b \<Longrightarrow> mapped_bytes (tb_clear b) = mapped_bytes b"
  by (simp add: tb_clear_def mapped_bytes_def overwrite_def)

lemma tb_holds_empty:
  assumes "tb_holds b []"
  shows "used_bytes b = 0 \<and> command_count b = 0 \<and> tb_data b = replicate (mapped_bytes b) (chr 0)"
  using assms by (simp add: tb_holds_def tb_rest_def)

section \<open>The registry as a relation\<close>

text \<open>\<open>watches w i k\<close>: connection \<open>i\<close> is registered under key \<open>k\<close>.\<close>

definition watches :: "watch_table \<Rightarrow> nat \<Rightarrow> string \<Rightarrow> bool" where
  "watches w i k \<longleftrightarrow> (\<exists>ws. (k, ws) \<in> set w \<and> i \<in> set ws)"

definition registry_ok :: "states \<times> watch_table \<Rightarrow> bool" where
  "registry_ok sw \<longleftrightarrow>
     distinct (map fst (snd sw)) \<and> (\<forall>k. (k, []) \<notin> set (snd sw)) \<and>
     (\<forall>i k. watches (snd sw) i k \<longrightarrow> has_watches (fst sw i))"

lemma wt_emplace_distinct: "distinct (map fst w) \<Longrightarrow> distinct (map fst (wt_emplace w k))"
  by (auto simp: wt_emplace_def)

lemma watches_emplace [simp]: "watches (wt_emplace w k) i = watches w i"
  by (auto simp: wt_emplace_def watches_def fun_eq_iff)

lemma fst_wt_insert: "map fst (wt_insert i w k) = map fst (wt_emplace w k)"
  by (auto simp: wt_insert_def)

lemma watches_simps [simp]:
  "watches [] i k = False" "watches ((k', ws) # w) i k \<longleftrightarrow> (k = k' \<and> i \<in> set ws) \<or> watches w i k"
  by (auto simp: watches_def)

lemma insert_not_Nil: "[] \<noteq> List.insert i ws"
  by (metis empty_iff empty_set insert_iff set_insert)

lemma watches_insert: "watches (wt_insert i w k) j k' \<longleftrightarrow> watches w j k' \<or> (j = i \<and> k' = k)"
proof -
  have "watches (map (\<lambda>(k', ws). if k' = k then (k', List.insert i ws) else (k', ws)) u) j k' \<longleftrightarrow>
      watches u j k' \<or> (j = i \<and> k' = k \<and> k \<in> fst ` set u)" for u
    by (induction u) (auto split: if_splits)
  moreover have "k \<in> fst ` set (wt_emplace w k)" by (auto simp: wt_emplace_def)
  ultimately show ?thesis by (simp add: wt_insert_def)
qed

lemma wt_insert_nonempty: "\<forall>k'. (k', []) \<notin> set w \<Longrightarrow> (k', []) \<notin> set (wt_insert i w k)"
  by (auto simp: wt_insert_def wt_emplace_def insert_not_Nil split: if_splits)

lemma foldl_wt_insert:
  "distinct (map fst w) \<Longrightarrow> distinct (map fst (foldl (wt_insert i) w ks))"
  "\<forall>k'. (k', []) \<notin> set w \<Longrightarrow> (k', []) \<notin> set (foldl (wt_insert i) w ks)"
  "watches (foldl (wt_insert i) w ks) j k' \<longleftrightarrow> watches w j k' \<or> (j = i \<and> k' \<in> set ks)"
proof (induction ks arbitrary: w)
  case (Cons k ks)
  { case 1 with Cons.IH(1) [of "wt_insert i w k"] show ?case by (simp add: fst_wt_insert wt_emplace_distinct) }
  { case 2 with Cons.IH(2) [of "wt_insert i w k"] show ?case by (simp add: wt_insert_nonempty) }
  { case 3 show ?case using Cons.IH(3) [of "wt_insert i w k"] by (auto simp: watches_insert) }
qed simp_all

lemma map_of_distinct: "distinct (map fst w) \<Longrightarrow> map_of w k = Some ws \<longleftrightarrow> (k, ws) \<in> set w"
  by (auto dest: map_of_SomeD)

lemma registry_remove_table:
  "watches (snd (registry_remove i sw)) j k \<longleftrightarrow>
     watches (snd sw) j k \<and> (has_watches (fst sw i) \<longrightarrow> j \<noteq> i)"
proof -
  have "watches (filter (\<lambda>(k, ws). ws \<noteq> []) (map (\<lambda>(k, ws). (k, filter (\<lambda>j. j \<noteq> i) ws)) w)) j k \<longleftrightarrow>
      watches w j k \<and> j \<noteq> i" for w
    by (induction w) (auto simp: filter_empty_conv)
  then show ?thesis by (simp add: registry_remove_def Let_def)
qed

lemma registry_remove_state:
  "fst (registry_remove i sw) i = (fst sw i)\<lparr>watch_dirty := False, has_watches := False\<rparr>"
  "j \<noteq> i \<Longrightarrow> fst (registry_remove i sw) j = fst sw j"
  by (auto simp: registry_remove_def Let_def)

lemma registry_remove_ok:
  assumes "registry_ok sw"
  shows "registry_ok (registry_remove i sw)"
    and "watches (snd (registry_remove i sw)) j k \<longleftrightarrow> watches (snd sw) j k \<and> j \<noteq> i"
proof -
  show w: "watches (snd (registry_remove i sw)) j k \<longleftrightarrow> watches (snd sw) j k \<and> j \<noteq> i" for j k
    using assms by (auto simp: registry_remove_table registry_ok_def)
  have "distinct (map fst (snd (registry_remove i sw)))"
    using assms by (auto simp: registry_remove_def Let_def registry_ok_def distinct_map inj_on_def split_def
        intro!: distinct_filter)
  moreover have "(k, []) \<notin> set (snd (registry_remove i sw))" for k
    using assms by (auto simp: registry_remove_def Let_def registry_ok_def)
  moreover have "watches (snd (registry_remove i sw)) j k \<Longrightarrow> has_watches (fst (registry_remove i sw) j)" for j k
    using assms unfolding w by (auto simp: registry_remove_state registry_ok_def)
  ultimately show "registry_ok (registry_remove i sw)" unfolding registry_ok_def by blast
qed

lemma registry_watch_ok:
  assumes ok: "registry_ok sw" and w: "registry_watch room i keys sw = (done, sw')"
  shows "registry_ok sw'"
    and "watches (snd sw') j k \<longleftrightarrow>
      (if done then watches (snd sw) j k \<or> (j = i \<and> k \<in> set keys) else watches (snd sw) j k \<and> j \<noteq> i)"
    and "j \<noteq> i \<Longrightarrow> fst sw' j = fst sw j"
    and "fst sw' i = (fst sw i)\<lparr>has_watches := done, watch_dirty := (done \<and> watch_dirty (fst sw i))\<rparr>"
proof -
  define s1 where "s1 = (fst sw)(i := (fst sw i)\<lparr>has_watches := True\<rparr>)"
  consider (full) "done" "sw' = (s1, foldl (wt_insert i) (snd sw) keys)"
    | (short) n where "\<not> done" "sw' = registry_remove i (s1, wt_emplace (foldl (wt_insert i) (snd sw) (take n keys)) (keys ! n))"
    using w by (auto simp: registry_watch_def Let_def s1_def split: option.splits if_splits)
  then have "registry_ok sw' \<and> (\<forall>j k. watches (snd sw') j k \<longleftrightarrow>
      (if done then watches (snd sw) j k \<or> (j = i \<and> k \<in> set keys) else watches (snd sw) j k \<and> j \<noteq> i)) \<and>
      (\<forall>j. j \<noteq> i \<longrightarrow> fst sw' j = fst sw j) \<and>
      fst sw' i = (fst sw i)\<lparr>has_watches := done, watch_dirty := (done \<and> watch_dirty (fst sw i))\<rparr>"
  proof cases
    case full
    then show ?thesis using ok by (auto simp: registry_ok_def foldl_wt_insert s1_def)
  next
    case (short n)
    let ?t = "wt_emplace (foldl (wt_insert i) (snd sw) (take n keys)) (keys ! n)"
    have "distinct (map fst ?t)" using ok by (simp add: registry_ok_def wt_emplace_distinct foldl_wt_insert)
    then have "distinct (map fst (snd sw'))"
      by (auto simp: short registry_remove_def Let_def s1_def distinct_map inj_on_def split_def intro!: distinct_filter)
    moreover have "(k, []) \<notin> set (snd sw')" for k by (auto simp: short registry_remove_def Let_def s1_def)
    moreover have t: "watches (snd sw') j k \<longleftrightarrow> watches (snd sw) j k \<and> j \<noteq> i" for j k
      by (auto simp: short registry_remove_table s1_def foldl_wt_insert)
    moreover have s: "j \<noteq> i \<Longrightarrow> fst sw' j = fst sw j" for j by (simp add: short registry_remove_state s1_def)
    moreover have "watches (snd sw') j k \<Longrightarrow> has_watches (fst sw' j)" for j k
      using ok by (auto simp: t s registry_ok_def)
    moreover have "fst sw' i = (fst sw i)\<lparr>has_watches := done, watch_dirty := (done \<and> watch_dirty (fst sw i))\<rparr>"
      using short(1) by (simp add: short registry_remove_state s1_def)
    ultimately show ?thesis using short(1) unfolding registry_ok_def by auto
  qed
  then show "registry_ok sw'" "watches (snd sw') j k \<longleftrightarrow>
      (if done then watches (snd sw) j k \<or> (j = i \<and> k \<in> set keys) else watches (snd sw) j k \<and> j \<noteq> i)"
    "j \<noteq> i \<Longrightarrow> fst sw' j = fst sw j"
    "fst sw' i = (fst sw i)\<lparr>has_watches := done, watch_dirty := (done \<and> watch_dirty (fst sw i))\<rparr>"
    by blast+
qed

fun hits :: "watch_table \<Rightarrow> nat \<Rightarrow> mutation \<Rightarrow> bool" where
  "hits w i (Key_Modified k) \<longleftrightarrow> watches w i k"
| "hits w i All_Modified \<longleftrightarrow> (\<exists>k. watches w i k)"

lemma foldl_mark_dirty:
  "foldl mark_dirty states wss i =
     (if \<exists>ws \<in> set wss. i \<in> set ws then (states i)\<lparr>watch_dirty := True\<rparr> else states i)"
  by (induction wss arbitrary: states) (auto simp: mark_dirty_def)

lemma notify_eq:
  assumes "distinct (map fst (snd sw))"
  shows "snd (notify m sw) = snd sw"
    and "fst (notify m sw) i = (if hits (snd sw) i m then (fst sw i)\<lparr>watch_dirty := True\<rparr> else fst sw i)"
proof -
  show "snd (notify m sw) = snd sw"
    by (cases m) (auto simp: registry_modified_def registry_modified_all_def split: option.splits)
  show "fst (notify m sw) i = (if hits (snd sw) i m then (fst sw i)\<lparr>watch_dirty := True\<rparr> else fst sw i)"
  proof (cases m)
    case (Key_Modified k)
    show ?thesis
    proof (cases "map_of (snd sw) k")
      case None
      then have "\<not> watches (snd sw) i k" by (force simp: watches_def map_of_eq_None_iff)
      with None Key_Modified show ?thesis by (simp add: registry_modified_def)
    next
      case (Some ws)
      then have "watches (snd sw) i k \<longleftrightarrow> i \<in> set ws"
        unfolding watches_def map_of_distinct [OF assms, of k, symmetric] by simp
      with Some Key_Modified show ?thesis by (simp add: registry_modified_def mark_dirty_def)
    qed
  next
    case All_Modified
    then show ?thesis by (auto simp: registry_modified_all_def foldl_mark_dirty watches_def) force+
  qed
qed

lemma notify_ok: "registry_ok sw \<Longrightarrow> registry_ok (notify m sw)"
  using notify_eq [of sw m] by (auto simp: registry_ok_def)

end
