(* ===== verification/Transaction_Exec.thy ===== *)
theory Transaction_Exec
  imports Transaction Resp_Writer
begin

text \<open>
  The transaction commands of the server (\<open>src/server.cpp\<close>: \<open>execute_queued_transaction\<close>,
  \<open>execute_transaction_control\<close>, \<open>dispatch_resp_command\<close>).

  What is not transaction handling is an argument, the record \<open>engine\<close>: the command parser, the
  command executor, Pub/Sub, the replication and snapshot runtimes, all acting on a value of type
  \<open>'w\<close> that stands for the store and the rest of the server. An executor reports the store's calls of
  the mutation observer as a list of \<^typ>\<open>mutation\<close>s, which the server passes to the watch registry.
  Connections are numbers; \<open>observed\<close> is the history of all observer calls.
\<close>

section \<open>Commands\<close>

text \<open>The enumerators of \<open>CommandType\<close> that the dispatcher tells apart; every other one by its name.\<close>

datatype command_type =
  Ct_ping | Ct_hello | Ct_auth | Ct_quit | Ct_multi | Ct_exec | Ct_discard | Ct_watch | Ct_unwatch
| Ct_goblin_firehose | Ct_goblin_dumpworld
| Ct_subscribe | Ct_unsubscribe | Ct_psubscribe | Ct_punsubscribe | Ct_publish | Ct_pubsub
| Ct_other string | Ct_unknown

record command =
  cmd_type :: command_type
  cmd_args :: "string list"

definition is_pubsub_command :: "command_type \<Rightarrow> bool" where
  "is_pubsub_command t \<longleftrightarrow>
     t = Ct_subscribe \<or> t = Ct_unsubscribe \<or> t = Ct_psubscribe \<or> t = Ct_punsubscribe \<or> t = Ct_publish \<or> t = Ct_pubsub"

definition allowed_while_resp2_subscribed :: "command_type \<Rightarrow> bool" where
  "allowed_while_resp2_subscribed t \<longleftrightarrow>
     t = Ct_subscribe \<or> t = Ct_unsubscribe \<or> t = Ct_psubscribe \<or> t = Ct_punsubscribe \<or> t = Ct_ping \<or> t = Ct_quit"

definition allowed_before_authentication :: "command_type \<Rightarrow> bool" where
  "allowed_before_authentication t \<longleftrightarrow> t = Ct_auth \<or> t = Ct_hello \<or> t = Ct_quit"

definition ascii_upper :: "char \<Rightarrow> nat" where
  "ascii_upper c = (if ord c \<ge> 97 \<and> ord c \<le> 122 then ord c - 32 else ord c)"

definition equals_ascii_ci :: "string \<Rightarrow> string \<Rightarrow> bool" where
  "equals_ascii_ci lhs rhs \<longleftrightarrow>
     length lhs = length rhs \<and> list_all (\<lambda>(a, b). ascii_upper a = ascii_upper b) (zip lhs rhs)"

text \<open>\<open>scrub_auth_request\<close> on views into a buffer: the arguments of AUTH and HELLO are zeroed in place.\<close>

definition scrub_auth_request :: "string \<Rightarrow> view list \<Rightarrow> string" where
  "scrub_auth_request mem views =
     (if views = [] \<or> (\<not> equals_ascii_ci (view_text mem (hd views)) ''AUTH'' \<and>
                       \<not> equals_ascii_ci (view_text mem (hd views)) ''HELLO'') then mem
      else foldl (\<lambda>m v. overwrite m (fst v) (replicate (snd v) (chr 0))) mem (tl views))"

section \<open>The server\<close>

datatype wire_mode = Undecided | Wire_resp2 | Wire_resp3 | Wire_sbe

record 'w engine =
  parse_command :: "string list \<Rightarrow> string + command"
  execute_command_into :: "nat \<Rightarrow> bool \<Rightarrow> command \<Rightarrow> 'w \<Rightarrow> string \<Rightarrow> 'w \<times> string \<times> mutation list"
  pubsub_execute :: "nat \<Rightarrow> command \<Rightarrow> 'w \<Rightarrow> string \<Rightarrow> 'w \<times> string"
  purge_if_expired :: "string \<Rightarrow> 'w \<Rightarrow> 'w \<times> mutation list"
  firehose_subscribe :: "nat \<Rightarrow> 'w \<Rightarrow> string \<Rightarrow> 'w \<times> (string + string)"
  dump_world_start :: "nat \<Rightarrow> bool \<Rightarrow> 'w \<Rightarrow> string \<Rightarrow> 'w \<times> (string + string)"
  remove_session :: "nat \<Rightarrow> 'w \<Rightarrow> 'w"
  replication_begin :: "'w \<Rightarrow> 'w"
  replication_finish :: "nat \<Rightarrow> 'w \<Rightarrow> 'w"
  record_reply :: "nat \<Rightarrow> nat \<Rightarrow> string \<Rightarrow> 'w \<Rightarrow> 'w"
  serve_ready :: "'w \<Rightarrow> (nat \<Rightarrow> string) \<Rightarrow> 'w \<times> (nat \<Rightarrow> string) \<times> mutation list"
  resp_version_of :: "nat \<Rightarrow> 'w \<Rightarrow> resp_version"
  wire_mode_of :: "nat \<Rightarrow> 'w \<Rightarrow> wire_mode"
  set_wire_mode :: "nat \<Rightarrow> wire_mode \<Rightarrow> 'w \<Rightarrow> 'w"
  needs_authentication :: "nat \<Rightarrow> 'w \<Rightarrow> bool"
  subscription_count :: "nat \<Rightarrow> 'w \<Rightarrow> nat"

record 'w server =
  txns :: states
  watched :: watch_table
  outputs :: "nat \<Rightarrow> string"
  world :: 'w
  observed :: "mutation list"

abbreviation "registry s \<equiv> (txns s, watched s)"

definition set_registry :: "states \<times> watch_table \<Rightarrow> 'w server \<Rightarrow> 'w server" where
  "set_registry sw s = s\<lparr>txns := fst sw, watched := snd sw\<rparr>"

definition set_txn :: "nat \<Rightarrow> transaction_state \<Rightarrow> 'w server \<Rightarrow> 'w server" where
  "set_txn i t s = s\<lparr>txns := (txns s)(i := t)\<rparr>"

definition set_output :: "nat \<Rightarrow> string \<Rightarrow> 'w server \<Rightarrow> 'w server" where
  "set_output i out s = s\<lparr>outputs := (outputs s)(i := out)\<rparr>"

text \<open>The store calls the observer.\<close>

definition observe :: "'w server \<Rightarrow> mutation \<Rightarrow> 'w server" where
  "observe s m = (set_registry (notify m (registry s)) s)\<lparr>observed := observed s @ [m]\<rparr>"

definition run_command :: "'w engine \<Rightarrow> nat \<Rightarrow> bool \<Rightarrow> command \<Rightarrow> 'w server \<Rightarrow> 'w server" where
  "run_command e i blocking c s =
     (case execute_command_into e i blocking c (world s) (outputs s i) of
        (w, out, ms) \<Rightarrow> foldl observe (set_output i out (s\<lparr>world := w\<rparr>)) ms)"

definition run_pubsub :: "'w engine \<Rightarrow> nat \<Rightarrow> command \<Rightarrow> 'w server \<Rightarrow> 'w server" where
  "run_pubsub e i c s =
     (case pubsub_execute e i c (world s) (outputs s i) of (w, out) \<Rightarrow> set_output i out (s\<lparr>world := w\<rparr>))"

definition reply_with :: "nat \<Rightarrow> (string \<Rightarrow> string \<Rightarrow> string) \<Rightarrow> string \<Rightarrow> 'w server \<Rightarrow> 'w server" where
  "reply_with i app t s = set_output i (app (outputs s i) t) s"

section \<open>EXEC\<close>

text \<open>One queued command. The decoded fields are views into the transaction buffer, which the scrub
  writes to.\<close>

definition run_parsed :: "'w engine \<Rightarrow> nat \<Rightarrow> string list \<Rightarrow> 'w server \<Rightarrow> 'w server" where
  "run_parsed e i fs s =
     (case parse_command e fs of
        Inl err \<Rightarrow> reply_with i append_error err s
      | Inr c \<Rightarrow>
          if cmd_type c = Ct_unwatch then reply_with i append_simple_string ''OK'' s
          else if is_pubsub_command (cmd_type c) then run_pubsub e i c s
          else run_command e i False c s)"

definition run_queued :: "'w engine \<Rightarrow> nat \<Rightarrow> view list \<Rightarrow> 'w server \<Rightarrow> 'w server" where
  "run_queued e i views s =
     (let s' = run_parsed e i (map (view_text (tb_data (commands (txns s i)))) views) s;
          t = txns s' i; b = commands t
      in set_txn i (t\<lparr>commands := b\<lparr>tb_data := scrub_auth_request (tb_data b) views\<rparr>\<rparr>) s')"

fun run_queue :: "'w engine \<Rightarrow> nat \<Rightarrow> nat \<Rightarrow> nat \<Rightarrow> 'w server \<Rightarrow> 'w server" where
  "run_queue e i 0 offset s = s"
| "run_queue e i (Suc n) offset s =
     (case tb_decode (commands (txns s i)) offset of
        None \<Rightarrow> reply_with i append_error ''ERR corrupt transaction buffer'' s
      | Some (views, offset') \<Rightarrow> run_queue e i n offset' (run_queued e i views s))"

definition append_transaction_limit_error :: "string \<Rightarrow> nat \<Rightarrow> string" where
  "append_transaction_limit_error out n =
     append_error out (''ERR transaction exceeds the configured '' @ to_chars_u n @ ''-byte buffer limit'')"

definition execute_queued_transaction :: "'w engine \<Rightarrow> nat \<Rightarrow> 'w server \<Rightarrow> 'w server" where
  "execute_queued_transaction e i s =
     (if \<not> in_multi (txns s i) then reply_with i append_error ''ERR EXEC without MULTI'' s
      else
        let dirty = watch_dirty (txns s i);
            s = set_registry (registry_remove i (registry s)) s
        in if dirty then
             let s = set_txn i (ts_finish (txns s i)) s
             in if resp_version_of e i (world s) = Resp3
                then set_output i (append_null (outputs s i) (resp_version_of e i (world s))) s
                else set_output i (outputs s i @ ''*-1'' @ crlf) s
           else
             let fail = failure (txns s i)
             in if fail \<noteq> No_failure then
                  let capacity = mapped_bytes (commands (txns s i));
                      s = set_txn i (ts_finish (txns s i)) s
                  in if fail = Buffer_limit
                     then reply_with i append_error (''EXECABORT Transaction discarded because its '' @
                            to_chars_u capacity @ ''-byte buffer limit was exceeded.'') s
                     else reply_with i append_error
                            ''EXECABORT Transaction discarded because of previous errors.'' s
                else
                  let count = command_count (commands (txns s i));
                      s = set_output i (append_array_header (outputs s i) count) s;
                      s = set_txn i ((txns s i)\<lparr>in_multi := False\<rparr>) s;
                      s = run_queue e i count 0 s
                  in set_txn i (ts_finish (txns s i)) s)"

section \<open>MULTI, DISCARD, WATCH, UNWATCH and queueing\<close>

definition purge_keys :: "'w engine \<Rightarrow> string list \<Rightarrow> 'w server \<Rightarrow> 'w server" where
  "purge_keys e keys s =
     foldl (\<lambda>s key. case purge_if_expired e key (world s) of (w, ms) \<Rightarrow> foldl observe (s\<lparr>world := w\<rparr>) ms) s keys"

text \<open>Queueing is what is left of a command inside \<open>MULTI\<close> after the control commands.\<close>

definition queue_command :: "nat \<Rightarrow> string list \<Rightarrow> 'w server \<Rightarrow> bool \<times> 'w server" where
  "queue_command i fs s =
     (let t = txns s i
      in if \<not> in_multi t then (False, s)
         else if failure t = Buffer_limit
         then (True, set_output i (append_transaction_limit_error (outputs s i) (mapped_bytes (commands t))) s)
         else case tb_append (commands t) fs of
           (False, b) \<Rightarrow>
             (True, set_output i (append_transaction_limit_error (outputs s i) (mapped_bytes b))
                      (set_txn i (t\<lparr>commands := b, failure := Buffer_limit\<rparr>) s))
         | (True, b) \<Rightarrow>
             (True, set_output i (append_simple_string (outputs s i) ''QUEUED'') (set_txn i (t\<lparr>commands := b\<rparr>) s)))"

definition execute_transaction_control ::
  "'w engine \<Rightarrow> nat option \<Rightarrow> nat \<Rightarrow> command \<Rightarrow> string list \<Rightarrow> 'w server \<Rightarrow> bool \<times> 'w server" where
  "execute_transaction_control e room i c fs s =
     (let t = txns s i
      in if cmd_type c = Ct_multi then
           (True, if in_multi t then reply_with i append_error ''ERR MULTI calls can not be nested'' s
                  else reply_with i append_simple_string ''OK'' (set_txn i (ts_begin t) s))
         else if cmd_type c = Ct_exec then (True, execute_queued_transaction e i s)
         else if cmd_type c = Ct_discard then
           (True, if \<not> in_multi t then reply_with i append_error ''ERR DISCARD without MULTI'' s
                  else let s = set_registry (registry_remove i (registry s)) s;
                           s = set_txn i (ts_finish (txns s i)) s
                       in reply_with i append_simple_string ''OK'' s)
         else if cmd_type c = Ct_watch then
           (True, if in_multi t then reply_with i append_error ''ERR WATCH inside MULTI is not allowed'' s
                  else let s = purge_keys e (cmd_args c) s
                       in case registry_watch room i (cmd_args c) (registry s) of
                            (ok, sw) \<Rightarrow>
                              if ok then reply_with i append_simple_string ''OK'' (set_registry sw s)
                              else reply_with i append_error ''ERR unable to register watched keys''
                                     (set_registry sw s))
         else if cmd_type c = Ct_unwatch \<and> \<not> in_multi t then
           (True, reply_with i append_simple_string ''OK'' (set_registry (registry_remove i (registry s)) s))
         else queue_command i fs s)"

section \<open>The dispatcher\<close>

definition note_failure :: "nat \<Rightarrow> 'w server \<Rightarrow> 'w server" where
  "note_failure i s =
     (let t = txns s i
      in if in_multi t \<and> failure t \<noteq> Buffer_limit then set_txn i (t\<lparr>failure := Command_error\<rparr>) s else s)"

definition log_reply :: "'w engine \<Rightarrow> nat \<Rightarrow> nat \<Rightarrow> 'w server \<Rightarrow> 'w server" where
  "log_reply e i prior_size s = s\<lparr>world := record_reply e i prior_size (outputs s i) (world s)\<rparr>"

definition update_wire_mode :: "'w engine \<Rightarrow> nat \<Rightarrow> 'w server \<Rightarrow> 'w server" where
  "update_wire_mode e i s =
     (if wire_mode_of e i (world s) \<noteq> Wire_sbe
      then s\<lparr>world := set_wire_mode e i (if resp_version_of e i (world s) = Resp3 then Wire_resp3 else Wire_resp2) (world s)\<rparr>
      else s)"

definition serve_blocked :: "'w engine \<Rightarrow> 'w server \<Rightarrow> 'w server" where
  "serve_blocked e s =
     (case serve_ready e (world s) (outputs s) of
        (w, outs, ms) \<Rightarrow> foldl observe (s\<lparr>world := w, outputs := outs\<rparr>) ms)"

definition run_firehose :: "'w engine \<Rightarrow> nat \<Rightarrow> 'w server \<Rightarrow> 'w server" where
  "run_firehose e i s =
     (let s = s\<lparr>world := remove_session e i (world s)\<rparr>;
          s = set_registry (registry_remove i (registry s)) s
      in case firehose_subscribe e i (world s) (outputs s i) of
           (w, Inl err) \<Rightarrow> reply_with i append_error err (s\<lparr>world := w\<rparr>)
         | (w, Inr out) \<Rightarrow> set_output i out (set_txn i (ts_reset (txns s i)) (s\<lparr>world := w\<rparr>)))"

definition run_dumpworld :: "'w engine \<Rightarrow> nat \<Rightarrow> command \<Rightarrow> 'w server \<Rightarrow> 'w server" where
  "run_dumpworld e i c s =
     (if resp_version_of e i (world s) \<noteq> Resp3
      then reply_with i append_error ''ERR GOBLIN.DUMPWORLD requires HELLO 3'' s
      else
        let noaccel = (cmd_args c \<noteq> [] \<and> equals_ascii_ci (hd (cmd_args c)) ''NOACCEL'');
            valid = (cmd_args c = [] \<or> noaccel \<or> equals_ascii_ci (hd (cmd_args c)) ''ACCEL'')
        in if \<not> valid then reply_with i append_error ''ERR syntax error, expected ACCEL or NOACCEL'' s
           else
             let s = s\<lparr>world := remove_session e i (world s)\<rparr>;
                 s = set_registry (registry_remove i (registry s)) s
             in case dump_world_start e i (\<not> noaccel) (world s) (outputs s i) of
                  (w, Inl err) \<Rightarrow> reply_with i append_error err (s\<lparr>world := w\<rparr>)
                | (w, Inr out) \<Rightarrow> set_output i out (s\<lparr>world := w\<rparr>))"

text \<open>The arm of the dispatcher that a command takes once it is known and parsed.\<close>

definition dispatch_command ::
  "'w engine \<Rightarrow> nat option \<Rightarrow> nat \<Rightarrow> command \<Rightarrow> string list \<Rightarrow> 'w server \<Rightarrow> 'w server" where
  "dispatch_command e room i c fs s =
     (if needs_authentication e i (world s) \<and> \<not> allowed_before_authentication (cmd_type c)
      then reply_with i append_error ''NOAUTH Authentication required.'' s
      else if wire_mode_of e i (world s) = Wire_resp2 \<and> subscription_count e i (world s) \<noteq> 0 \<and>
              \<not> allowed_while_resp2_subscribed (cmd_type c)
      then reply_with i append_error ''ERR Can't execute this command while subscribed to a channel'' s
      else if wire_mode_of e i (world s) = Wire_resp2 \<and> subscription_count e i (world s) \<noteq> 0 \<and>
              cmd_type c = Ct_ping
      then set_output i
             (append_bulk_string (append_bulk_string (append_array_header (outputs s i) 2) ''pong'')
                (if cmd_args c = [] then [] else hd (cmd_args c))) s
      else case execute_transaction_control e room i c fs s of
             (True, s') \<Rightarrow> s'
           | (False, s') \<Rightarrow>
               if cmd_type c = Ct_goblin_firehose then run_firehose e i s'
               else if cmd_type c = Ct_goblin_dumpworld then run_dumpworld e i c s'
               else if is_pubsub_command (cmd_type c) then run_pubsub e i c s'
               else run_command e i True c s')"

text \<open>The replication scope opens once the command is parsed and closes when the function returns.\<close>

definition dispatch_resp_command ::
  "'w engine \<Rightarrow> nat option \<Rightarrow> nat \<Rightarrow> string list \<Rightarrow> 'w server \<Rightarrow> 'w server" where
  "dispatch_resp_command e room i fs s =
     (let prior_size = length (outputs s i)
      in case parse_command e fs of
           Inl err \<Rightarrow> log_reply e i prior_size (reply_with i append_error err (note_failure i s))
         | Inr c \<Rightarrow>
             let s = s\<lparr>world := replication_begin e (world s)\<rparr>;
                 s = (if in_multi (txns s i) \<and> cmd_type c = Ct_unknown
                      then log_reply e i prior_size (run_command e i True c (note_failure i s))
                      else
                        let s = dispatch_command e room i c fs s;
                            s = update_wire_mode e i s;
                            s = log_reply e i prior_size s
                        in serve_blocked e s)
             in s\<lparr>world := replication_finish e i (world s)\<rparr>)"

text \<open>A peer that reconnects, and likewise one that goes away, is removed from the registries and its
  transaction is reset.\<close>

definition reset_session :: "'w engine \<Rightarrow> nat \<Rightarrow> 'w server \<Rightarrow> 'w server" where
  "reset_session e i s =
     (let s = s\<lparr>world := remove_session e i (world s)\<rparr>;
          s = set_registry (registry_remove i (registry s)) s
      in set_output i [] (set_txn i (ts_reset (txns s i)) s))"

section \<open>Executions\<close>

datatype event = Request (ev_session: nat) "nat option" "string list" | Reconnect (ev_session: nat)

fun step :: "'w engine \<Rightarrow> 'w server \<Rightarrow> event \<Rightarrow> 'w server" where
  "step e s (Request i room fs) = dispatch_resp_command e room i fs s"
| "step e s (Reconnect i) = reset_session e i s"

text \<open>A server as it starts: one fresh transaction state per connection, nothing watched.\<close>

definition initial :: "'w server \<Rightarrow> bool" where
  "initial s \<longleftrightarrow> (\<forall>i. \<exists>n. new_transaction_state n = Some (txns s i)) \<and> watched s = [] \<and> observed s = []"

inductive reachable :: "'w engine \<Rightarrow> 'w server \<Rightarrow> bool" for e where
  start: "initial s \<Longrightarrow> reachable e s"
| move: "reachable e s \<Longrightarrow> reachable e (step e s ev)"

end
