(* ===== verification/Transaction_Correct.thy ===== *)
theory Transaction_Correct
  imports Transaction_Exec
begin

text \<open>
  Correctness of transactions. Everything the server does apart from transaction control is \<open>quiet\<close>: it
  can only mark connections that watch a changed key. EXEC is shown equal to running the queued
  commands on a server whose transaction is already over (\<open>exec_runs\<close>); each request of one connection
  leaves what the others watch and queue as it was (\<open>good\<close>), which gives the invariant of all reachable
  servers and the guarantee of WATCH.
\<close>

section \<open>Steps that only observe\<close>

text \<open>\<open>quiet s s'\<close>: no transaction was touched, except that the observer calls in between marked the
  connections that watch a changed key.\<close>

definition marked :: "watch_table \<Rightarrow> mutation list \<Rightarrow> nat \<Rightarrow> transaction_state \<Rightarrow> transaction_state" where
  "marked w ms i t = (if \<exists>m \<in> set ms. hits w i m then t\<lparr>watch_dirty := True\<rparr> else t)"

definition quiet :: "'w server \<Rightarrow> 'w server \<Rightarrow> bool" where
  "quiet s s' \<longleftrightarrow> watched s' = watched s \<and>
     (\<exists>ms. observed s' = observed s @ ms \<and> (\<forall>i. txns s' i = marked (watched s) ms i (txns s i)))"

lemma marked_simps [simp]:
  "marked w [] i t = t"
  "marked w ms i (marked w ns i t) = marked w (ns @ ms) i t"
  "commands (marked w ms i t) = commands t" "in_multi (marked w ms i t) = in_multi t"
  "failure (marked w ms i t) = failure t" "has_watches (marked w ms i t) = has_watches t"
  "watch_dirty (marked w ms i t) \<longleftrightarrow> watch_dirty t \<or> (\<exists>m \<in> set ms. hits w i m)"
  "marked w ms i (t\<lparr>commands := b\<rparr>) = (marked w ms i t)\<lparr>commands := b\<rparr>"
  by (auto simp: marked_def)

lemma quietI: "watched s' = watched s \<Longrightarrow> observed s' = observed s \<Longrightarrow> txns s' = txns s \<Longrightarrow> quiet s s'"
  by (simp add: quiet_def)

lemma quiet_trans: "quiet s s' \<Longrightarrow> quiet s' s'' \<Longrightarrow> quiet s s''"
  by (auto simp: quiet_def)

lemma observe_quiet:
  assumes "registry_ok (registry s)"
  shows "quiet s (observe s m)" and "registry_ok (registry (observe s m))"
proof -
  have d: "distinct (map fst (snd (registry s)))" using assms by (simp add: registry_ok_def)
  have "watched (observe s m) = watched s" "observed (observe s m) = observed s @ [m]"
    "txns (observe s m) i = marked (watched s) [m] i (txns s i)" for i
    using notify_eq [OF d, of m] by (simp_all add: observe_def set_registry_def marked_def)
  then show "quiet s (observe s m)" by (auto simp: quiet_def)
  show "registry_ok (registry (observe s m))"
    using notify_ok [OF assms, of m] by (simp add: observe_def set_registry_def)
qed

lemma observe_all_quiet:
  "registry_ok (registry s) \<Longrightarrow> quiet s (foldl observe s ms) \<and> registry_ok (registry (foldl observe s ms))"
proof (induction ms arbitrary: s)
  case (Cons m ms)
  then show ?case using observe_quiet [of s m] Cons.IH [of "observe s m"] quiet_trans by auto
qed (simp add: quietI)

lemma quiet_registry_ok: "quiet s s' \<Longrightarrow> registry_ok (registry s) \<Longrightarrow> registry_ok (registry s')"
  by (auto simp: quiet_def registry_ok_def)

lemma set_output_simps [simp]:
  "txns (set_output i out s) = txns s" "watched (set_output i out s) = watched s"
  "observed (set_output i out s) = observed s" "world (set_output i out s) = world s"
  by (simp_all add: set_output_def)

lemma reply_with_simps [simp]:
  "txns (reply_with i app t s) = txns s" "watched (reply_with i app t s) = watched s"
  "observed (reply_with i app t s) = observed s" "world (reply_with i app t s) = world s"
  by (simp_all add: reply_with_def)

lemma set_txn_simps [simp]:
  "txns (set_txn i t s) = (txns s)(i := t)" "watched (set_txn i t s) = watched s"
  "observed (set_txn i t s) = observed s" "world (set_txn i t s) = world s" "outputs (set_txn i t s) = outputs s"
  by (simp_all add: set_txn_def)

lemma set_registry_simps [simp]:
  "txns (set_registry sw s) = fst sw" "watched (set_registry sw s) = snd sw"
  "observed (set_registry sw s) = observed s" "world (set_registry sw s) = world s"
  "outputs (set_registry sw s) = outputs s"
  by (simp_all add: set_registry_def)

lemma executor_quiet:
  assumes ok: "registry_ok (registry s)"
  shows "quiet s (run_command e i b c s)" "quiet s (run_pubsub e i c s)" "quiet s (run_parsed e i fs s)"
    "quiet s (purge_keys e keys s)" "quiet s (serve_blocked e s)" "quiet s (log_reply e i n s)"
    "quiet s (update_wire_mode e i s)"
proof -
  have obs: "quiet s (foldl observe s' ms)"
    if "watched s' = watched s" "observed s' = observed s" "txns s' = txns s" for s' ms
    using observe_all_quiet [of s' ms] ok that quiet_trans [OF quietI] by (metis (no_types))
  show rc: "quiet s (run_command e i b c s)" for b c
    by (auto simp: run_command_def intro!: obs split: prod.splits)
  show rp: "quiet s (run_pubsub e i c s)" for c by (auto simp: run_pubsub_def intro!: quietI split: prod.splits)
  show "quiet s (run_parsed e i fs s)"
    by (auto simp: run_parsed_def rc rp intro!: quietI split: sum.splits)
  show "quiet s (serve_blocked e s)" by (auto simp: serve_blocked_def intro!: obs split: prod.splits)
  show "quiet s (log_reply e i n s)" by (auto simp: log_reply_def intro!: quietI)
  show "quiet s (update_wire_mode e i s)" by (auto simp: update_wire_mode_def intro!: quietI)
  have "registry_ok (registry s) \<Longrightarrow> quiet s (purge_keys e keys s)" for s
  proof (induction keys arbitrary: s)
    case (Cons k keys)
    obtain w ms where p: "purge_if_expired e k (world s) = (w, ms)" by fastforce
    have q: "quiet s (foldl observe (s\<lparr>world := w\<rparr>) ms)"
      using observe_all_quiet [of "s\<lparr>world := w\<rparr>" ms] Cons.prems quiet_trans [OF quietI, of "s\<lparr>world := w\<rparr>" s] by simp
    then show ?case
      using Cons.IH [of "foldl observe (s\<lparr>world := w\<rparr>) ms"] quiet_registry_ok [OF q Cons.prems] quiet_trans [OF q] p
      by (simp add: purge_keys_def)
  qed (simp add: purge_keys_def quietI)
  then show "quiet s (purge_keys e keys s)" using ok by blast
qed

section \<open>Running a queue\<close>

abbreviation set_cmds :: "nat \<Rightarrow> transaction_buffer \<Rightarrow> 'w server \<Rightarrow> 'w server" where
  "set_cmds i b s \<equiv> set_txn i ((txns s i)\<lparr>commands := b\<rparr>) s"

lemma set_cmds_registry_ok: "registry_ok (registry s) \<Longrightarrow> registry_ok (registry (set_cmds i b s))"
  by (auto simp: registry_ok_def)

lemma observe_set_cmds:
  assumes "registry_ok (registry s)"
  shows "observe (set_cmds i b s) m = set_cmds i b (observe s m)"
proof -
  have d: "distinct (map fst (watched s))" using assms by (simp add: registry_ok_def)
  have n: "notify m ((txns s)(i := (txns s i)\<lparr>commands := b\<rparr>), watched s) =
      ((fst (notify m (registry s)))(i := (fst (notify m (registry s)) i)\<lparr>commands := b\<rparr>), watched s)"
    using d notify_eq [of "((txns s)(i := (txns s i)\<lparr>commands := b\<rparr>), watched s)" m] notify_eq [of "registry s" m]
    by (intro prod_eqI) (auto simp: fun_eq_iff)
  show ?thesis
    using notify_eq(1) [of "registry s" m] d by (simp add: observe_def n set_registry_def set_txn_def)
qed

lemma observe_all_set_cmds:
  "registry_ok (registry s) \<Longrightarrow> foldl observe (set_cmds i b s) ms = set_cmds i b (foldl observe s ms)"
  by (induction ms arbitrary: s) (simp_all add: observe_set_cmds observe_quiet)

lemma run_parsed_registry_ok: "registry_ok (registry s) \<Longrightarrow> registry_ok (registry (run_parsed e i fs s))"
  using executor_quiet(3) quiet_registry_ok by blast

lemma run_parsed_set_cmds:
  assumes ok: "registry_ok (registry s)"
  shows "run_parsed e i fs (set_cmds i b s) = set_cmds i b (run_parsed e i fs s)"
proof -
  have out: "set_output i out (set_cmds i b s) = set_cmds i b (set_output i out s)" for out and s :: "'a server"
    by (simp add: set_output_def set_txn_def)
  have "run_command e i False c (set_cmds i b s) = set_cmds i b (run_command e i False c s)" for c
  proof (cases "execute_command_into e i False c (world s) (outputs s i)")
    case (fields w' o' ms)
    let ?s = "set_output i o' (s\<lparr>world := w'\<rparr>)"
    have "set_output i o' ((set_cmds i b s)\<lparr>world := w'\<rparr>) = set_cmds i b ?s"
      by (simp add: set_output_def set_txn_def)
    moreover have "registry_ok (registry ?s)" using ok by simp
    ultimately show ?thesis
      using observe_all_set_cmds [of ?s i b ms] fields by (simp add: run_command_def)
  qed
  moreover have "run_pubsub e i c (set_cmds i b s) = set_cmds i b (run_pubsub e i c s)" for c
    by (cases "pubsub_execute e i c (world s) (outputs s i)") (simp add: run_pubsub_def set_output_def set_txn_def)
  moreover have "reply_with i app x (set_cmds i b s) = set_cmds i b (reply_with i app x s)" for app x
    by (simp add: reply_with_def out)
  ultimately show ?thesis by (simp add: run_parsed_def split: sum.split)
qed

lemma run_all_set_cmds:
  "registry_ok (registry s) \<Longrightarrow>
   foldl (\<lambda>s fs. run_parsed e i fs s) (set_cmds i b s) cs = set_cmds i b (foldl (\<lambda>s fs. run_parsed e i fs s) s cs)"
proof (induction cs arbitrary: s)
  case (Cons c cs)
  then show ?case
    using Cons.IH [OF run_parsed_registry_ok [OF Cons.prems]] by (simp add: run_parsed_set_cmds)
qed simp

lemma run_all_quiet:
  "registry_ok (registry s) \<Longrightarrow> quiet s (foldl (\<lambda>s fs. run_parsed e i fs s) s cs)"
proof (induction cs arbitrary: s)
  case (Cons c cs)
  then show ?case
    using quiet_trans [OF executor_quiet(3) [OF Cons.prems] Cons.IH [OF run_parsed_registry_ok [OF Cons.prems]]] by simp
qed (simp add: quietI)

text \<open>Scrubbing writes inside the record that was just run.\<close>

lemma zero_views:
  assumes "\<forall>v \<in> set vs. fst v + snd v \<le> n" "n \<le> length mem"
  shows "length (foldl (\<lambda>m v. overwrite m (fst v) (replicate (snd v) (chr 0))) mem vs) = length mem \<and>
    drop n (foldl (\<lambda>m v. overwrite m (fst v) (replicate (snd v) (chr 0))) mem vs) = drop n mem"
  using assms
proof (induction vs arbitrary: mem)
  case (Cons v vs)
  let ?m = "overwrite mem (fst v) (replicate (snd v) (chr 0))"
  have "length ?m = length mem" "drop n ?m = drop n mem" using Cons.prems by (simp_all add: overwrite_def)
  with Cons show ?case by simp
qed simp

lemma views_of_bound: "v \<in> set (views_of n fs) \<Longrightarrow> fst v + snd v \<le> n + length (fields_bytes fs)"
  by (induction n fs rule: views_of.induct) (auto simp: fields_bytes_def)

lemma scrub_rest:
  assumes "tb_rest b n ds" and "\<forall>v \<in> set vs. fst v + snd v \<le> n"
  shows "tb_rest (b\<lparr>tb_data := scrub_auth_request (tb_data b) vs\<rparr>) n ds"
    and "mapped_bytes (b\<lparr>tb_data := scrub_auth_request (tb_data b) vs\<rparr>) = mapped_bytes b"
proof -
  have n: "n \<le> length (tb_data b)" using assms(1) by (simp add: tb_rest_def mapped_bytes_def)
  have "\<forall>v \<in> set (tl vs). fst v + snd v \<le> n" using assms(2) by (cases vs) auto
  with zero_views [OF _ n]
  have "length (scrub_auth_request (tb_data b) vs) = length (tb_data b) \<and>
      drop n (scrub_auth_request (tb_data b) vs) = drop n (tb_data b)"
    by (simp add: scrub_auth_request_def)
  with assms(1) show "tb_rest (b\<lparr>tb_data := scrub_auth_request (tb_data b) vs\<rparr>) n ds"
    "mapped_bytes (b\<lparr>tb_data := scrub_auth_request (tb_data b) vs\<rparr>) = mapped_bytes b"
    by (simp_all add: tb_rest_def mapped_bytes_def)
qed

lemma run_queue_eq:
  "registry_ok (registry s) \<Longrightarrow> tb_rest (commands (txns s i)) off cs \<Longrightarrow>
   \<exists>b n. run_queue e i (length cs) off s = set_cmds i b (foldl (\<lambda>s fs. run_parsed e i fs s) s cs) \<and>
     tb_rest b n [] \<and> mapped_bytes b = mapped_bytes (commands (txns s i))"
proof (induction cs arbitrary: s off)
  case Nil
  then show ?case by (intro exI [of _ "commands (txns s i)"] exI [of _ off]) (simp add: set_txn_def)
next
  case (Cons fs ds)
  let ?b = "commands (txns s i)" and ?vs = "views_of (off + 8) fs" and ?n = "off + record_bytes_of fs"
  let ?s1 = "run_parsed e i fs s" and ?b1 = "?b\<lparr>tb_data := scrub_auth_request (tb_data ?b) ?vs\<rparr>"
  note dec = tb_decode_rest [OF Cons.prems(2)]
  have q: "quiet s ?s1" and ok1: "registry_ok (registry ?s1)"
    using executor_quiet(3) Cons.prems(1) quiet_registry_ok by blast+
  have c1: "commands (txns ?s1 i) = ?b" using q by (auto simp: quiet_def)
  have run: "run_queued e i ?vs s = set_cmds i ?b1 ?s1"
    by (simp add: run_queued_def Let_def dec(2) c1)
  have "\<forall>v \<in> set ?vs. fst v + snd v \<le> ?n"
    using views_of_bound [of _ "off + 8" fs] length_fields_bytes [of fs] by (fastforce simp: kRecordHeaderBytes_def)
  note r = scrub_rest [OF dec(3) this]
  obtain b n where b: "run_queue e i (length ds) ?n (set_cmds i ?b1 ?s1) =
      set_cmds i b (foldl (\<lambda>s fs. run_parsed e i fs s) (set_cmds i ?b1 ?s1) ds)"
    "tb_rest b n []" "mapped_bytes b = mapped_bytes ?b1"
    using Cons.IH [OF set_cmds_registry_ok [OF ok1], of i ?b1 ?n] r(1) by auto
  have "set_cmds i b (set_cmds i ?b1 s') = set_cmds i b s'" for s' by (simp add: set_txn_def)
  then show ?case
    using b r(2) by (intro exI [of _ b] exI [of _ n]) (simp add: dec(1) run run_all_set_cmds [OF ok1])
qed

section \<open>What EXEC does\<close>

lemma tb_clear_eq:
  assumes "tb_rest b n cs"
  shows "tb_clear b = \<lparr>tb_data = replicate (mapped_bytes b) (chr 0), used_bytes = 0, command_count = 0\<rparr>"
proof -
  have "tb_data (tb_clear b) = replicate (mapped_bytes (tb_clear b)) (chr 0)"
    using tb_holds_empty [OF tb_clear_rest [OF assms]] by simp
  moreover have "mapped_bytes (tb_clear b) = mapped_bytes b" using assms by (simp add: tb_rest_def)
  ultimately show ?thesis by (simp add: tb_clear_def)
qed

lemma ts_finish_done:
  "in_multi t = False \<Longrightarrow> failure t = No_failure \<Longrightarrow> ts_finish (t\<lparr>commands := b\<rparr>) = t\<lparr>commands := tb_clear b\<rparr>"
  by (cases t) (simp add: ts_finish_def)

text \<open>The server right after EXEC has decided to run: the watches are gone, the array header is written and
  the transaction is over.\<close>

definition exec_begun :: "nat \<Rightarrow> nat \<Rightarrow> 'w server \<Rightarrow> 'w server" where
  "exec_begun i n s =
     (let s = set_registry (registry_remove i (registry s)) s;
          s = set_output i (append_array_header (outputs s i) n) s
      in set_txn i (ts_finish (txns s i)) s)"

lemma registry_remove_pair [simp]:
  "(fst (registry_remove i sw), snd (registry_remove i sw)) = registry_remove i sw" by simp

lemma exec_runs:
  assumes ok: "registry_ok (registry s)" and h: "tb_holds (commands (txns s i)) cs"
    and m: "in_multi (txns s i)" "\<not> watch_dirty (txns s i)" "failure (txns s i) = No_failure"
  shows "execute_queued_transaction e i s = foldl (\<lambda>s fs. run_parsed e i fs s) (exec_begun i (length cs) s) cs"
proof -
  let ?all = "foldl (\<lambda>s fs. run_parsed e i fs s)"
  define t where "t = (txns s i)\<lparr>watch_dirty := False, has_watches := False\<rparr>"
  define s1 where "s1 = set_output i (append_array_header (outputs s i) (length cs))
    (set_registry (registry_remove i (registry s)) s)"
  define s2 where "s2 = set_txn i (t\<lparr>in_multi := False\<rparr>) s1"
  have t1: "txns s1 i = t" by (simp add: s1_def t_def registry_remove_state)
  have t: "commands t = commands (txns s i)" "failure t = No_failure" "command_count (commands (txns s i)) = length cs"
    using m(3) h by (simp_all add: t_def tb_holds_def)
  have ok2: "registry_ok (registry s2)"
    using registry_remove_ok [OF ok, of i] by (auto simp: registry_ok_def s2_def s1_def t1 t_def registry_remove_state)
  have r2: "tb_rest (commands (txns s2 i)) 0 cs" using h by (simp add: s2_def t tb_holds_def)
  obtain b n where b: "run_queue e i (length cs) 0 s2 = set_cmds i b (?all s2 cs)" "tb_rest b n []"
    "mapped_bytes b = mapped_bytes (commands (txns s i))"
    using run_queue_eq [OF ok2 r2, of e] by (auto simp: s2_def t)
  have clear: "tb_clear b = tb_clear (commands (txns s i))"
    using tb_clear_eq [OF b(2)] tb_clear_eq [of "commands (txns s i)" 0 cs] h b(3) by (simp add: tb_holds_def)
  have s1t: "txns s1 = fst (registry_remove i (registry s))" by (simp add: s1_def)
  have fin: "t\<lparr>in_multi := False, commands := tb_clear (commands t)\<rparr> = ts_finish t"
    using t(2) by (cases t) (simp add: ts_finish_def)
  have q: "in_multi (txns (?all s2 cs) i) = False" "failure (txns (?all s2 cs) i) = No_failure"
    using run_all_quiet [OF ok2, of e i cs] by (auto simp: quiet_def s2_def t)
  have "execute_queued_transaction e i s = set_txn i (ts_finish (txns (run_queue e i (length cs) 0 s2) i)) (run_queue e i (length cs) 0 s2)"
    using m by (simp add: execute_queued_transaction_def Let_def registry_remove_state t(3) s2_def s1_def t_def)
  also have "\<dots> = set_cmds i (tb_clear b) (?all s2 cs)"
    using ts_finish_done [OF q] by (simp add: b(1) set_txn_def)
  also have "\<dots> = ?all (set_cmds i (tb_clear b) s2) cs" by (simp add: run_all_set_cmds [OF ok2])
  also have "set_cmds i (tb_clear b) s2 = exec_begun i (length cs) s"
    using fin t1 s1t by (simp add: exec_begun_def Let_def s2_def clear set_txn_def flip: s1_def t(1))
  finally show ?thesis .
qed

lemma exec_aborts:
  assumes "in_multi (txns s i)" "watch_dirty (txns s i)"
  shows "world (execute_queued_transaction e i s) = world s"
    "observed (execute_queued_transaction e i s) = observed s"
    "outputs (execute_queued_transaction e i s) = (outputs s)(i := outputs s i @
       (if resp_version_of e i (world s) = Resp3 then ''_'' else ''*-1'') @ crlf)"
    "txns (execute_queued_transaction e i s) i = ts_reset (txns s i)"
  using assms by (simp_all add: execute_queued_transaction_def Let_def set_output_def append_null_def
      registry_remove_state ts_finish_def ts_reset_def)

section \<open>The invariant\<close>

definition txn_ok :: "transaction_state \<Rightarrow> bool" where
  "txn_ok t \<longleftrightarrow> (\<exists>cs. tb_holds (commands t) cs \<and> (in_multi t \<or> cs = [] \<and> failure t = No_failure))"

definition server_ok :: "'w server \<Rightarrow> bool" where
  "server_ok s \<longleftrightarrow> registry_ok (registry s) \<and> (\<forall>i. txn_ok (txns s i))"

text \<open>\<open>keeps j s s'\<close>: connection \<open>j\<close> still watches the same keys, and of its transaction only the mark for
  a changed watched key may be new.\<close>

definition keeps :: "nat \<Rightarrow> 'w server \<Rightarrow> 'w server \<Rightarrow> bool" where
  "keeps j s s' \<longleftrightarrow> (\<forall>k. watches (watched s') j k = watches (watched s) j k) \<and>
     (\<exists>ms. observed s' = observed s @ ms \<and> txns s' j = marked (watched s) ms j (txns s j))"

definition good :: "nat \<Rightarrow> 'w server \<Rightarrow> 'w server \<Rightarrow> bool" where
  "good i s s' \<longleftrightarrow> (server_ok s \<longrightarrow> server_ok s' \<and> (\<forall>j. j \<noteq> i \<longrightarrow> keeps j s s'))"

lemma hits_cong: "(\<And>k. watches w' j k = watches w j k) \<Longrightarrow> hits w' j m = hits w j m"
  by (cases m) auto

lemma marked_cong: "(\<And>k. watches w' j k = watches w j k) \<Longrightarrow> marked w' ms j t = marked w ms j t"
  using hits_cong by (metis marked_def)

lemma keeps_trans: "keeps j s s' \<Longrightarrow> keeps j s' s'' \<Longrightarrow> keeps j s s''"
  using marked_cong [of "watched s'" j "watched s"] by (auto simp: keeps_def)

lemma quiet_keeps: "quiet s s' \<Longrightarrow> keeps j s s'"
  by (auto simp: quiet_def keeps_def)

lemma good_trans [trans]: "good i s s' \<Longrightarrow> good i s' s'' \<Longrightarrow> good i s s''"
  using keeps_trans unfolding good_def by blast

lemma quiet_server_ok: "quiet s s' \<Longrightarrow> server_ok s \<Longrightarrow> server_ok s'"
  using quiet_registry_ok [of s s'] by (auto simp: server_ok_def quiet_def txn_ok_def)

lemma quiet_good: "(server_ok s \<Longrightarrow> quiet s s') \<Longrightarrow> good i s s'"
  using quiet_server_ok quiet_keeps unfolding good_def by blast

lemma good_executor:
  "good j s (run_command e i b c s)" "good j s (run_pubsub e i c s)" "good j s (run_parsed e i fs s)"
  "good j s (purge_keys e keys s)" "good j s (serve_blocked e s)" "good j s (log_reply e i n s)"
  "good j s (update_wire_mode e i s)"
  using executor_quiet by (auto intro!: quiet_good simp: server_ok_def)

lemma good_output:
  "good j s (set_output i out s)" "good j s (reply_with i app t s)" "good j s (s\<lparr>world := w\<rparr>)"
  by (auto intro!: quiet_good quietI)

lemma good_set_txn:
  assumes "server_ok s \<Longrightarrow> txn_ok t" "has_watches t = has_watches (txns s i)"
  shows "good i s (set_txn i t s)"
  using assms by (auto simp: good_def server_ok_def registry_ok_def keeps_def)

lemma txn_ok_clear:
  assumes "txn_ok t"
  shows "txn_ok (ts_begin t)" "txn_ok (ts_finish t)" "txn_ok (ts_reset t)"
  using assms tb_clear_rest
  by (auto simp: txn_ok_def ts_begin_def ts_finish_def ts_reset_def tb_holds_def intro!: exI [of _ "[]"])

lemma good_remove: "good i s (set_registry (registry_remove i (registry s)) s)"
proof -
  have "server_ok s \<Longrightarrow> txn_ok (fst (registry_remove i (registry s)) j)" for j
    by (cases "j = i") (auto simp: registry_remove_state server_ok_def txn_ok_def)
  then show ?thesis
    using registry_remove_ok [of "registry s" i]
    by (auto simp: good_def server_ok_def keeps_def registry_remove_state intro!: exI [of _ "[]"])
qed

lemma removed_state: "txns (set_registry (registry_remove i (registry s)) s) i =
    (txns s i)\<lparr>watch_dirty := False, has_watches := False\<rparr>"
  by (simp add: registry_remove_state)

lemma server_okD: "server_ok s \<Longrightarrow> txn_ok (txns s i)" "server_ok s \<Longrightarrow> registry_ok (registry s)"
  by (simp_all add: server_ok_def)

lemma good_run_all: "good i s (foldl (\<lambda>s fs. run_parsed e i fs s) s cs)"
proof (induction cs arbitrary: s)
  case (Cons c cs)
  from good_trans [OF good_executor(3) Cons] show ?case by simp
qed (simp add: good_def keeps_def)

lemma good_finish: "good i s (set_txn i (ts_finish (txns s i)) s)"
  by (rule good_set_txn) (use txn_ok_clear(2) server_okD(1) in blast, simp add: ts_finish_def)

lemma good_exec: "good i s (execute_queued_transaction e i s)"
proof (cases "in_multi (txns s i) \<and> \<not> watch_dirty (txns s i) \<and> failure (txns s i) = No_failure")
  case True
  have b: "good i s (exec_begun i n s)" for n
    unfolding exec_begun_def Let_def by (rule good_trans [OF good_remove good_trans [OF good_output(1) good_finish]])
  show ?thesis
  proof (cases "server_ok s")
    case ok: True
    then obtain cs where "tb_holds (commands (txns s i)) cs" using server_okD(1) [of s i] by (auto simp: txn_ok_def)
    then have "execute_queued_transaction e i s = foldl (\<lambda>s fs. run_parsed e i fs s) (exec_begun i (length cs) s) cs"
      using True ok by (intro exec_runs) (auto simp: server_ok_def)
    with good_trans [OF b good_run_all] show ?thesis by simp
  qed (simp add: good_def)
next
  case False
  show ?thesis
  proof (cases "in_multi (txns s i)")
    case True
    have "good i s (set_output i out (set_txn i (ts_finish (txns (set_registry (registry_remove i (registry s)) s) i))
        (set_registry (registry_remove i (registry s)) s)))" for out
      by (rule good_trans [OF good_remove good_trans [OF good_finish good_output(1)]])
    moreover have "watch_dirty (txns s i) \<or>
        failure (txns (set_registry (registry_remove i (registry s)) s) i) \<noteq> No_failure"
      using True False by (auto simp: registry_remove_state)
    ultimately show ?thesis
      using True unfolding execute_queued_transaction_def Let_def reply_with_def by auto
  qed (simp add: execute_queued_transaction_def good_output)
qed

lemma good_refl: "good i s s"
  by (rule quiet_good) (simp add: quietI)

lemma good_queue: "good i s (snd (queue_command i fs s))"
proof (cases "in_multi (txns s i) \<and> failure (txns s i) \<noteq> Buffer_limit")
  case True
  let ?t = "txns s i"
  obtain ok b where a: "tb_append (commands ?t) fs = (ok, b)" by fastforce
  have "server_ok s \<Longrightarrow> txn_ok (?t\<lparr>commands := b, failure := f\<rparr>)" for f
    using tb_append_holds(1) [OF _ a] True server_okD(1) [of s i] by (cases ok) (auto simp: txn_ok_def)
  then have g: "good i s (set_txn i (?t\<lparr>commands := b, failure := f\<rparr>) s)" for f
    by (intro good_set_txn) auto
  have eq: "?t\<lparr>commands := b, failure := failure ?t\<rparr> = ?t\<lparr>commands := b\<rparr>" by simp
  show ?thesis
    using good_trans [OF g [of Buffer_limit] good_output(1)] good_trans [OF g [of "failure ?t"] good_output(1)] True a
    unfolding eq by (cases ok) (simp_all add: queue_command_def Let_def)
next
  case False
  then show ?thesis by (auto simp: queue_command_def Let_def good_output good_refl)
qed

lemma good_watch:
  assumes "registry_watch room i keys (registry s) = (ok, sw)"
  shows "good i s (set_registry sw s)"
proof -
  have "server_ok s \<Longrightarrow> txn_ok (fst sw j)" for j
    using registry_watch_ok(3,4) [OF _ assms] server_okD [of s]
    by (cases "j = i") (auto simp: txn_ok_def)
  then show ?thesis
    using registry_watch_ok [OF _ assms] by (auto simp: good_def server_ok_def keeps_def intro!: exI [of _ "[]"])
qed

lemma good_control: "good i s (snd (execute_transaction_control e room i c fs s))"
proof -
  have beg: "good i s (set_txn i (ts_begin (txns s i)) s)"
    by (rule good_set_txn) (use txn_ok_clear(1) server_okD(1) in blast, simp add: ts_begin_def)
  have w: "good i s (case registry_watch room i keys (registry s') of
      (ok, sw) \<Rightarrow> if ok then reply_with i append_simple_string ''OK'' (set_registry sw s')
                  else reply_with i append_error ''ERR unable to register watched keys'' (set_registry sw s'))"
    if "good i s s'" for keys s'
    using good_trans [OF that good_trans [OF good_watch good_output(2)]] by (auto split: prod.split)
  show ?thesis
    unfolding execute_transaction_control_def Let_def
    by (auto simp: good_queue good_exec good_output(2) intro: good_trans [OF beg good_output(2)]
        good_trans [OF good_remove good_output(2)] w [OF good_executor(4)]
        good_trans [OF good_remove good_trans [OF good_finish good_output(2)], unfolded set_registry_simps])
qed

lemma good_reset:
  assumes "\<not> has_watches (txns s i)"
  shows "good i s (set_txn i (ts_reset (txns s i)) s)"
  by (rule good_set_txn) (use txn_ok_clear(3) server_okD(1) in blast, simp add: ts_reset_def assms)

lemma good_firehose: "good i s (run_firehose e i s)"
proof -
  let ?s = "s\<lparr>world := remove_session e i (world s)\<rparr>"
  let ?r = "set_registry (registry_remove i (registry ?s)) ?s"
  have r: "good i s ?r" by (rule good_trans [OF good_output(3) good_remove])
  have n: "\<not> has_watches (txns (?r\<lparr>world := w\<rparr>) i)" for w by (simp add: registry_remove_state)
  have "good i s (reply_with i append_error err (?r\<lparr>world := w\<rparr>))" for err w
    by (rule good_trans [OF r good_trans [OF good_output(3) good_output(2)]])
  moreover have "good i s (set_output i out (set_txn i (ts_reset (txns ?r i)) (?r\<lparr>world := w\<rparr>)))" for out w
    using good_trans [OF r good_trans [OF good_output(3) good_trans [OF good_reset [OF n] good_output(1)]]] by simp
  ultimately show ?thesis unfolding run_firehose_def Let_def by (simp split: prod.split sum.split)
qed

lemma good_dumpworld: "good i s (run_dumpworld e i c s)"
proof -
  let ?s = "s\<lparr>world := remove_session e i (world s)\<rparr>"
  let ?r = "set_registry (registry_remove i (registry ?s)) ?s"
  have r: "good i s ?r" by (rule good_trans [OF good_output(3) good_remove])
  have "good i s (reply_with i append_error err (?r\<lparr>world := w\<rparr>))" for err w
    by (rule good_trans [OF r good_trans [OF good_output(3) good_output(2)]])
  moreover have "good i s (set_output i out (?r\<lparr>world := w\<rparr>))" for out w
    by (rule good_trans [OF r good_trans [OF good_output(3) good_output(1)]])
  ultimately show ?thesis unfolding run_dumpworld_def Let_def by (simp add: good_output split: prod.split sum.split)
qed

lemma good_dispatch: "good i s (dispatch_command e room i c fs s)"
proof -
  obtain h s' where x: "execute_transaction_control e room i c fs s = (h, s')" by fastforce
  with good_control [of i s e room c fs] have g: "good i s s'" by simp
  show ?thesis
    using g good_trans [OF g good_firehose] good_trans [OF g good_dumpworld] good_trans [OF g good_executor(1)]
      good_trans [OF g good_executor(2)]
    unfolding dispatch_command_def x by (cases h) (simp_all add: good_output)
qed

lemma good_note: "good i s (note_failure i s)"
  unfolding note_failure_def Let_def
  by (auto simp: good_refl intro!: good_set_txn dest!: server_okD(1) [of _ i]) (auto simp: txn_ok_def)

lemma good_step: "good (ev_session ev) s (step e s ev)"
proof (cases ev)
  case (Request i room fs)
  let ?n = "length (outputs s i)"
  have "good i s (dispatch_resp_command e room i fs s)"
  proof (cases "parse_command e fs")
    case (Inl err)
    then show ?thesis
      using good_trans [OF good_note good_trans [OF good_output(2) good_executor(6)]]
      by (simp add: dispatch_resp_command_def)
  next
    case (Inr c)
    let ?s = "s\<lparr>world := replication_begin e (world s)\<rparr>"
    have "good i ?s (log_reply e i ?n (run_command e i True c (note_failure i ?s)))"
      by (rule good_trans [OF good_note good_trans [OF good_executor(1) good_executor(6)]])
    moreover have "good i ?s (serve_blocked e (log_reply e i ?n (update_wire_mode e i (dispatch_command e room i c fs ?s))))"
      by (rule good_trans [OF good_dispatch good_trans [OF good_executor(7) good_trans [OF good_executor(6) good_executor(5)]]])
    ultimately show ?thesis
      using Inr by (auto simp: dispatch_resp_command_def Let_def intro: good_trans [OF good_trans [OF good_output(3)] good_output(3)])
  qed
  with Request show ?thesis by simp
next
  case (Reconnect i)
  let ?s = "s\<lparr>world := remove_session e i (world s)\<rparr>"
  let ?r = "set_registry (registry_remove i (registry ?s)) ?s"
  have n: "\<not> has_watches (txns ?r i)" by (simp add: registry_remove_state)
  show ?thesis
    using good_trans [OF good_output(3) good_trans [OF good_remove good_trans [OF good_reset [OF n] good_output(1)]]] Reconnect
    by (simp add: reset_session_def Let_def)
qed

section \<open>Executions of many connections\<close>

lemma reachable_ok: "reachable e s \<Longrightarrow> server_ok s"
proof (induction rule: reachable.induct)
  case (start s)
  have "txn_ok (txns s i) \<and> \<not> has_watches (txns s i)" for i
  proof -
    from start obtain n where "new_transaction_state n = Some (txns s i)" by (auto simp: initial_def)
    then have "txns s i = \<lparr>commands = \<lparr>tb_data = replicate n (chr 0), used_bytes = 0, command_count = 0\<rparr>, in_multi = False,
        watch_dirty = False, has_watches = False, failure = No_failure\<rparr>"
      by (auto simp: new_transaction_state_def new_transaction_buffer_def split: if_splits)
    then have "tb_holds (commands (txns s i)) []" "failure (txns s i) = No_failure" "\<not> has_watches (txns s i)"
      by (simp_all add: tb_holds_def tb_rest_def mapped_bytes_def)
    then show ?thesis by (auto simp: txn_ok_def)
  qed
  with start show ?case by (auto simp: server_ok_def registry_ok_def initial_def)
next
  case (move s ev)
  then show ?case using good_step by (auto simp: good_def)
qed

lemma others_keep:
  "server_ok s \<Longrightarrow> \<forall>ev \<in> set evs. ev_session ev \<noteq> i \<Longrightarrow>
   server_ok (foldl (step e) s evs) \<and> keeps i s (foldl (step e) s evs)"
proof (induction evs arbitrary: s)
  case Nil
  then show ?case by (auto simp: keeps_def)
next
  case (Cons ev evs)
  have "server_ok (step e s ev)" "keeps i s (step e s ev)"
    using good_step [of ev s e] Cons.prems by (auto simp: good_def)
  with Cons.IH [of "step e s ev"] Cons.prems keeps_trans show ?case by auto
qed

text \<open>The observer calls of an execution.\<close>

definition changes :: "'w server \<Rightarrow> 'w server \<Rightarrow> mutation list" where
  "changes s s' = drop (length (observed s)) (observed s')"

lemma keeps_dirty:
  "keeps i s s' \<Longrightarrow> watch_dirty (txns s' i) \<longleftrightarrow> watch_dirty (txns s i) \<or> (\<exists>m \<in> set (changes s s'). hits (watched s) i m)"
  "keeps i s s' \<Longrightarrow> commands (txns s' i) = commands (txns s i)"
  "keeps i s s' \<Longrightarrow> in_multi (txns s' i) = in_multi (txns s i)"
  "keeps i s s' \<Longrightarrow> failure (txns s' i) = failure (txns s i)"
  by (auto simp: keeps_def changes_def)

section \<open>Properties\<close>

text \<open>C2: optimistic locking. Let connection \<open>i\<close> be inside \<open>MULTI\<close> in a reachable server and let other
  connections then send any requests. If the connection was already marked, or one of the changes the
  store reported in between hits a key it watches, then \<open>EXEC\<close> runs nothing: store and history stay as
  they are, the reply is the null array and the transaction is reset. Otherwise, when nothing was
  refused while queueing, \<open>EXEC\<close> is exactly the execution of the queued commands, one after the other
  in their order, after the array header.\<close>

theorem watch_guards_exec:
  assumes "reachable e s" and "in_multi (txns s i)" and "tb_holds (commands (txns s i)) cs"
    and "\<forall>ev \<in> set evs. ev_session ev \<noteq> i" and "s' = foldl (step e) s evs"
  shows "if watch_dirty (txns s i) \<or> (\<exists>m \<in> set (changes s s'). hits (watched s) i m)
    then world (execute_queued_transaction e i s') = world s' \<and>
      observed (execute_queued_transaction e i s') = observed s' \<and>
      outputs (execute_queued_transaction e i s') = (outputs s')(i := outputs s' i @
        (if resp_version_of e i (world s') = Resp3 then ''_'' else ''*-1'') @ crlf) \<and>
      txns (execute_queued_transaction e i s') i = ts_reset (txns s' i)
    else failure (txns s i) = No_failure \<longrightarrow>
      execute_queued_transaction e i s' = foldl (\<lambda>s fs. run_parsed e i fs s) (exec_begun i (length cs) s') cs"
proof -
  have k: "server_ok s'" "keeps i s s'" using others_keep [OF reachable_ok [OF assms(1)] assms(4)] assms(5) by auto
  note d = keeps_dirty [OF k(2)]
  show ?thesis
    using exec_aborts [of s' i e] exec_runs [of s' i cs e] k(1) assms(2,3) d by (auto simp: server_ok_def)
qed

definition demo_engine :: "string engine" where
  "demo_engine =
     \<lparr>parse_command = (\<lambda>fs. Inr \<lparr>cmd_type =
        (if hd fs = ''MULTI'' then Ct_multi else if hd fs = ''WATCH'' then Ct_watch else Ct_other ''set''), cmd_args = tl fs\<rparr>),
      execute_command_into = (\<lambda>i b c w out. (concat (cmd_args c), append_simple_string out ''OK'', [Key_Modified (hd (cmd_args c))])),
      pubsub_execute = (\<lambda>i c w out. (w, out)), purge_if_expired = (\<lambda>k w. (w, [])),
      firehose_subscribe = (\<lambda>i w out. (w, Inr out)), dump_world_start = (\<lambda>i a w out. (w, Inr out)),
      remove_session = (\<lambda>i w. w), replication_begin = id, replication_finish = (\<lambda>i w. w),
      record_reply = (\<lambda>i n out w. w), serve_ready = (\<lambda>w outs. (w, outs, [])),
      resp_version_of = (\<lambda>i w. Resp2), wire_mode_of = (\<lambda>i w. Wire_resp2), set_wire_mode = (\<lambda>i m w. w),
      needs_authentication = (\<lambda>i w. False), subscription_count = (\<lambda>i w. 0)\<rparr>"

definition demo_server :: "string server" where
  "demo_server =
     \<lparr>txns = (\<lambda>i. \<lparr>commands = \<lparr>tb_data = replicate 32 (chr 0), used_bytes = 0, command_count = 0\<rparr>, in_multi = False,
        watch_dirty = False, has_watches = False, failure = No_failure\<rparr>),
      watched = [], outputs = (\<lambda>i. []), world = [], observed = []\<rparr>"

definition demo_multi :: "string server" where
  "demo_multi = foldl (step demo_engine) demo_server [Request 0 None [''WATCH'', ''k''], Request 0 None [''MULTI'']]"

lemma demo_initial: "initial demo_server"
  by (auto simp: initial_def demo_server_def new_transaction_state_def new_transaction_buffer_def intro!: exI [of _ 32])

lemma demo_reachable: "reachable demo_engine demo_multi"
  unfolding demo_multi_def foldl.simps by (intro reachable.intros demo_initial)

lemmas demo_simps = demo_multi_def demo_server_def demo_engine_def dispatch_resp_command_def dispatch_command_def
  execute_transaction_control_def queue_command_def serve_blocked_def log_reply_def update_wire_mode_def purge_keys_def
  registry_watch_def wt_insert_def wt_emplace_def set_registry_def reply_with_def set_output_def set_txn_def
  ts_begin_def tb_clear_def overwrite_def run_command_def observe_def registry_modified_def mark_dirty_def
  is_pubsub_command_def Let_def

lemma demo_multi_eq:
  "in_multi (txns demo_multi 0)" "tb_holds (commands (txns demo_multi 0)) []"
  "watched demo_multi = [(''k'', [0])]"
  "changes demo_multi (foldl (step demo_engine) demo_multi [Request 1 None [''SET'', ''k'']]) = [Key_Modified ''k'']"
  by (simp_all add: demo_simps changes_def tb_holds_def tb_rest_def mapped_bytes_def)

theorem watch_guards_exec_witness:
  "world (execute_queued_transaction demo_engine 0 (step demo_engine demo_multi (Request 1 None [''SET'', ''k'']))) =
   world (step demo_engine demo_multi (Request 1 None [''SET'', ''k'']))"
  using watch_guards_exec [OF demo_reachable demo_multi_eq(1,2), of "[Request 1 None [''SET'', ''k'']]", OF _ refl]
    demo_multi_eq(3,4)
  by simp

text \<open>C12: the invariant of the transaction machinery. In every reachable server each registered watcher
  is a connection that knows it watches, no key is registered twice or without a watcher, each buffer
  holds a sequence of complete command records, and the buffer of a connection that is not inside
  \<open>MULTI\<close> is zero throughout: no queued command, and no credential in it, outlives its transaction.\<close>

theorem transaction_invariant:
  assumes "reachable e s"
  shows "registry_ok (registry s) \<and> (\<exists>cs. tb_holds (commands (txns s i)) cs) \<and>
    (\<not> in_multi (txns s i) \<longrightarrow> failure (txns s i) = No_failure \<and>
       tb_data (commands (txns s i)) = replicate (mapped_bytes (commands (txns s i))) (chr 0))"
  using reachable_ok [OF assms] tb_holds_empty by (fastforce simp: server_ok_def txn_ok_def)

theorem transaction_invariant_witness:
  "registry_ok (registry demo_multi)"
  using transaction_invariant [OF demo_reachable] by blast

text \<open>C37: queueing. Inside \<open>MULTI\<close> a command that is none of the control commands changes nothing but the
  queue: it is answered \<open>QUEUED\<close> and appended exactly when its record fits the 32-bit size and the
  buffer; otherwise the transaction is marked and every later command is refused.\<close>

theorem command_is_queued:
  assumes "tb_holds (commands (txns s i)) cs" and "in_multi (txns s i)" and "failure (txns s i) \<noteq> Buffer_limit"
    and "cmd_type c \<notin> {Ct_multi, Ct_exec, Ct_discard, Ct_watch}"
  shows "\<exists>b. execute_transaction_control e room i c fs s =
    (True, if record_ok fs \<and> length (queue_bytes cs) + record_bytes_of fs \<le> mapped_bytes (commands (txns s i))
      then set_output i (append_simple_string (outputs s i) ''QUEUED'') (set_txn i ((txns s i)\<lparr>commands := b\<rparr>) s)
      else set_output i (append_transaction_limit_error (outputs s i) (mapped_bytes b))
        (set_txn i ((txns s i)\<lparr>commands := b, failure := Buffer_limit\<rparr>) s)) \<and>
    (if record_ok fs \<and> length (queue_bytes cs) + record_bytes_of fs \<le> mapped_bytes (commands (txns s i))
     then tb_holds b (cs @ [fs]) else b = commands (txns s i))"
proof -
  obtain ok b where a: "tb_append (commands (txns s i)) fs = (ok, b)" by fastforce
  have ok: "(record_ok fs \<and> length (queue_bytes cs) + record_bytes_of fs \<le> mapped_bytes (commands (txns s i))) = ok"
    using tb_append_holds(2) [OF assms(1) a] by simp
  have "execute_transaction_control e room i c fs s = queue_command i fs s"
    using assms(2,4) by (simp add: execute_transaction_control_def Let_def)
  with tb_append_holds(1) [OF assms(1) a] a assms(2,3) show ?thesis
    unfolding ok by (intro exI [of _ b]) (cases ok; simp add: queue_command_def Let_def)
qed

theorem command_is_queued_witness:
  "\<exists>b. tb_holds b [[''SET'', ''k'']] \<and>
     execute_transaction_control demo_engine None 0 \<lparr>cmd_type = Ct_other ''set'', cmd_args = [''k'']\<rparr> [''SET'', ''k''] demo_multi =
       (True, set_output 0 (append_simple_string (outputs demo_multi 0) ''QUEUED'')
          (set_txn 0 ((txns demo_multi 0)\<lparr>commands := b\<rparr>) demo_multi))"
proof -
  have "mapped_bytes (commands (txns demo_multi 0)) = 32" "failure (txns demo_multi 0) = No_failure"
    by (simp_all add: demo_simps mapped_bytes_def)
  moreover have "record_bytes_of [''SET'', ''k''] = 20"
    by (simp add: record_bytes_of_def kRecordHeaderBytes_def kFieldHeaderBytes_def)
  ultimately show ?thesis
    using command_is_queued [OF demo_multi_eq(2,1), of "\<lparr>cmd_type = Ct_other ''set'', cmd_args = [''k'']\<rparr>" demo_engine None
        "[''SET'', ''k'']"]
    by (auto simp: record_ok_def)
qed

end
