(* ===== verification/Output_Queue.thy ===== *)
theory Output_Queue
  imports Fifo
begin

text \<open>
  The queue of unsolicited output of a connection (\<open>UnsolicitedOutputQueue\<close> of \<open>src/pubsub.hpp\<close> and
  \<open>src/pubsub.cpp\<close>): a fixed mapping used as a ring of records, each a four-byte length, an eight-byte
  sequence number and the frame. A record never straddles the end of the mapping: when it does not
  fit there, the rest of the mapping is skipped, marked by the length \<open>kWrapRecord\<close> if four bytes are
  left. \<open>capacity_\<close> is the length of the mapping.
\<close>

record out_queue =
  oq_data :: string
  read_offset :: nat
  write_offset :: nat
  oq_used :: nat
  payload_bytes :: nat

definition kWrapRecord :: nat where "kWrapRecord = 0xFFFFFFFF"
definition kOutRecordHeaderBytes :: nat where "kOutRecordHeaderBytes = 12"

abbreviation capacity :: "out_queue \<Rightarrow> nat" where
  "capacity q \<equiv> length (oq_data q)"

definition new_out_queue :: "nat \<Rightarrow> out_queue option" where
  "new_out_queue n =
     (if n = 0 then None
      else Some \<lparr>oq_data = replicate n (chr 0), read_offset = 0, write_offset = 0, oq_used = 0, payload_bytes = 0\<rparr>)"

text \<open>The record is written at \<open>write_offset\<close>.\<close>

definition write_record :: "out_queue \<Rightarrow> u64 \<Rightarrow> string \<Rightarrow> out_queue" where
  "write_record q seq bytes =
     (let record_bytes = kOutRecordHeaderBytes + length bytes;
          w = write_offset q;
          d = overwrite (oq_data q) w (le_bytes 4 (length bytes));
          d = overwrite d (w + 4) (le_bytes 8 (unat seq));
          d = overwrite d (w + kOutRecordHeaderBytes) bytes;
          w' = w + record_bytes
      in q\<lparr>oq_data := d, write_offset := (if w' = capacity q then 0 else w'),
           oq_used := oq_used q + record_bytes, payload_bytes := payload_bytes q + length bytes\<rparr>)"

definition oq_push :: "out_queue \<Rightarrow> u64 \<times> string \<Rightarrow> bool \<times> out_queue" where
  "oq_push q f =
     (case f of (seq, bytes) \<Rightarrow>
        if length bytes > 2 ^ 32 - 1 then (False, q)
        else
          let record_bytes = kOutRecordHeaderBytes + length bytes
          in if record_bytes > capacity q \<or> capacity q - oq_used q < record_bytes then (False, q)
             else
               let q = (if oq_used q = 0 then q\<lparr>read_offset := 0, write_offset := 0\<rparr> else q)
               in if write_offset q \<ge> read_offset q then
                    let tail_bytes = capacity q - write_offset q
                    in if tail_bytes < record_bytes then
                         if capacity q - oq_used q < tail_bytes + record_bytes \<or> read_offset q < record_bytes
                         then (False, q)
                         else
                           let d = (if tail_bytes \<ge> 4
                                    then overwrite (oq_data q) (write_offset q) (le_bytes 4 kWrapRecord)
                                    else oq_data q)
                           in (True, write_record
                                 (q\<lparr>oq_data := d, oq_used := oq_used q + tail_bytes, write_offset := 0\<rparr>) seq bytes)
                       else (True, write_record q seq bytes)
                  else if read_offset q - write_offset q < record_bytes then (False, q)
                  else (True, write_record q seq bytes))"

text \<open>The loop of \<open>normalize_head\<close>; the value is \<open>None\<close> if it never ends.\<close>

partial_function (option) normalize_head :: "out_queue \<Rightarrow> out_queue option" where
  [code]: "normalize_head q =
     (if oq_used q = 0 then Some q
      else let tail_bytes = capacity q - read_offset q
           in if tail_bytes < 4 then normalize_head (q\<lparr>oq_used := oq_used q - tail_bytes, read_offset := 0\<rparr>)
              else if le_value (substr (oq_data q) (read_offset q) 4) \<noteq> kWrapRecord then Some q
              else normalize_head (q\<lparr>oq_used := oq_used q - tail_bytes, read_offset := 0\<rparr>))"

definition read_front :: "out_queue \<Rightarrow> (u64 \<times> string) option" where
  "read_front q =
     (if oq_used q = 0 then None
      else let len = le_value (substr (oq_data q) (read_offset q) 4)
           in Some (of_nat (le_value (substr (oq_data q) (read_offset q + 4) 8)),
                    substr (oq_data q) (read_offset q + kOutRecordHeaderBytes) len))"

definition oq_front :: "out_queue \<Rightarrow> ((u64 \<times> string) option \<times> out_queue) option" where
  "oq_front q = map_option (\<lambda>q. (read_front q, q)) (normalize_head q)"

definition pop_front :: "out_queue \<Rightarrow> nat \<Rightarrow> out_queue" where
  "pop_front q payload_len =
     (let record_bytes = kOutRecordHeaderBytes + payload_len;
          r = read_offset q + record_bytes;
          q = q\<lparr>read_offset := (if r = capacity q then 0 else r), oq_used := oq_used q - record_bytes,
                payload_bytes := payload_bytes q - payload_len\<rparr>
      in if oq_used q = 0 then q\<lparr>read_offset := 0, write_offset := 0\<rparr> else q)"

definition oq_pop :: "out_queue \<Rightarrow> out_queue option" where
  "oq_pop q =
     map_option (\<lambda>q. if oq_used q = 0 then q
                     else pop_front q (le_value (substr (oq_data q) (read_offset q) 4))) (normalize_head q)"

definition oq_clear :: "out_queue \<Rightarrow> out_queue" where
  "oq_clear q = q\<lparr>read_offset := 0, write_offset := 0, oq_used := 0, payload_bytes := 0\<rparr>"

section \<open>The frames in the ring\<close>

definition record_of_frame :: "u64 \<times> string \<Rightarrow> string" where
  "record_of_frame f = le_bytes 4 (length (snd f)) @ le_bytes 8 (unat (fst f)) @ snd f"

definition ring_bytes :: "(u64 \<times> string) list \<Rightarrow> string" where
  "ring_bytes fs = concat (map record_of_frame fs)"

definition frame_ok :: "u64 \<times> string \<Rightarrow> bool" where
  "frame_ok f \<longleftrightarrow> length (snd f) < kWrapRecord"

text \<open>The frames between two positions, read the way the consumer reads them.\<close>

fun frames :: "nat \<Rightarrow> string \<Rightarrow> nat \<Rightarrow> nat \<Rightarrow> (u64 \<times> string) list" where
  "frames 0 d p stop = []"
| "frames (Suc n) d p stop =
     (if stop < p + 4 \<or> le_value (substr d p 4) = kWrapRecord then []
      else let len = le_value (substr d p 4)
           in (of_nat (le_value (substr d (p + 4) 8)), substr d (p + 12) len) # frames n d (p + 12 + len) stop)"

definition oq_items :: "out_queue \<Rightarrow> (u64 \<times> string) list" where
  "oq_items q =
     (let n = Suc (capacity q)
      in if oq_used q = 0 then []
         else if write_offset q > read_offset q then frames n (oq_data q) (read_offset q) (write_offset q)
         else frames n (oq_data q) (read_offset q) (capacity q) @ frames n (oq_data q) 0 (write_offset q))"

text \<open>\<open>segs q xs ys\<close>: the frames \<open>xs\<close> lie from the read offset on; if the ring has wrapped, the frames \<open>ys\<close>
  lie at the start of the mapping and what is left behind \<open>xs\<close> is skipped.\<close>

definition segs :: "out_queue \<Rightarrow> (u64 \<times> string) list \<Rightarrow> (u64 \<times> string) list \<Rightarrow> bool" where
  "segs q xs ys \<longleftrightarrow>
     list_all frame_ok (xs @ ys) \<and>
     read_offset q + length (ring_bytes xs) \<le> capacity q \<and> read_offset q < capacity q \<and>
     substr (oq_data q) (read_offset q) (length (ring_bytes xs)) = ring_bytes xs \<and>
     payload_bytes q = sum_list (map (length \<circ> snd) (xs @ ys)) \<and>
     (ys = [] \<and> write_offset q = read_offset q + length (ring_bytes xs) \<and> write_offset q < capacity q \<and>
        oq_used q = length (ring_bytes xs)
      \<or>
      write_offset q = length (ring_bytes ys) \<and> length (ring_bytes ys) \<le> read_offset q \<and>
        take (length (ring_bytes ys)) (oq_data q) = ring_bytes ys \<and>
        oq_used q = (capacity q - read_offset q) + length (ring_bytes ys) \<and>
        (let tail = capacity q - (read_offset q + length (ring_bytes xs))
         in (tail \<ge> 4 \<longrightarrow> substr (oq_data q) (read_offset q + length (ring_bytes xs)) 4 = le_bytes 4 kWrapRecord) \<and>
            (ys = [] \<longrightarrow> tail = 0)))"

definition oq_ok :: "out_queue \<Rightarrow> bool" where
  "oq_ok q \<longleftrightarrow> capacity q < 2 ^ 32 \<and> (\<exists>xs ys. segs q xs ys)"

lemma ring_bytes_simps [simp]:
  "ring_bytes [] = []" "ring_bytes (f # fs) = record_of_frame f @ ring_bytes fs"
  "ring_bytes (fs @ gs) = ring_bytes fs @ ring_bytes gs"
  by (simp_all add: ring_bytes_def)

lemma length_record_of_frame [simp]: "length (record_of_frame f) = 12 + length (snd f)"
  by (simp add: record_of_frame_def)

lemma length_ring_bytes: "length fs \<le> length (ring_bytes fs)"
  by (induction fs) auto

lemma substr_prefix:
  assumes "substr d p (length (a @ b)) = a @ b" "p + length (a @ b) \<le> length d"
  shows "substr d p (length a) = a" "substr d (p + length a) (length b) = b"
proof -
  show "substr d p (length a) = a"
    using arg_cong [OF assms(1), of "take (length a)"] by (simp add: substr_def min_def)
  show "substr d (p + length a) (length b) = b"
    using arg_cong [OF assms(1), of "drop (length a)"] assms(2)
    by (simp add: substr_def drop_take add.commute)
qed

text \<open>The header of the frame that starts at \<open>p\<close>.\<close>

lemma read_record:
  assumes "substr d p (length (record_of_frame f)) = record_of_frame f" "p + length (record_of_frame f) \<le> length d"
    and "frame_ok f"
  shows "le_value (substr d p 4) = length (snd f)" "of_nat (le_value (substr d (p + 4) 8)) = fst f"
    "substr d (p + 12) (length (snd f)) = snd f" "length (snd f) \<noteq> kWrapRecord"
proof -
  let ?a = "le_bytes 4 (length (snd f))" and ?b = "le_bytes 8 (unat (fst f)) @ snd f"
  have ab: "record_of_frame f = ?a @ ?b" by (simp add: record_of_frame_def)
  have 1: "substr d p (length ?a) = ?a" "substr d (p + length ?a) (length ?b) = ?b"
    using substr_prefix [of d p ?a ?b] assms(1,2) unfolding ab by blast+
  have 2: "substr d (p + 4) (length (le_bytes 8 (unat (fst f)))) = le_bytes 8 (unat (fst f))"
    "substr d (p + 4 + length (le_bytes 8 (unat (fst f)))) (length (snd f)) = snd f"
    using substr_prefix [of d "p + 4" "le_bytes 8 (unat (fst f))" "snd f"] 1(2) assms(2) by auto
  have 3: "length (snd f) < 2 ^ 32 - 1" using assms(3) by (simp add: frame_ok_def kWrapRecord_def)
  show "le_value (substr d p 4) = length (snd f)" using 1(1) 3 by simp
  show "of_nat (le_value (substr d (p + 4) 8)) = fst f" using 2(1) unsigned_less [of "fst f", where ?'a = nat] by simp
  show "substr d (p + 12) (length (snd f)) = snd f" using 2(2) by (simp add: add.assoc)
  show "length (snd f) \<noteq> kWrapRecord" using 3 by (simp add: kWrapRecord_def)
qed

lemma frames_eq:
  assumes "list_all frame_ok xs" "substr d p (length (ring_bytes xs)) = ring_bytes xs"
    and "p + length (ring_bytes xs) \<le> stop" "stop \<le> length d" "length xs < n"
    and "stop < p + length (ring_bytes xs) + 4 \<or> le_value (substr d (p + length (ring_bytes xs)) 4) = kWrapRecord"
  shows "frames n d p stop = xs"
  using assms
proof (induction xs arbitrary: p n)
  case Nil
  then obtain m where "n = Suc m" by (cases n) auto
  with Nil show ?case by simp
next
  case (Cons f xs)
  then obtain m where n: "n = Suc m" by (cases n) auto
  have r: "substr d p (length (record_of_frame f)) = record_of_frame f"
    "substr d (p + length (record_of_frame f)) (length (ring_bytes xs)) = ring_bytes xs"
    using substr_prefix [of d p "record_of_frame f" "ring_bytes xs"] Cons.prems(2-4) by auto
  note h = read_record [OF r(1)]
  have "frames m d (p + (12 + length (snd f))) stop = xs"
    using Cons.prems r(2) n by (intro Cons.IH) (auto simp: add.assoc)
  with h Cons.prems n show ?case by (simp add: Let_def add.assoc)
qed

lemma segs_items:
  assumes "segs q xs ys"
  shows "oq_items q = xs @ ys"
proof -
  let ?d = "oq_data q" and ?r = "read_offset q" and ?w = "write_offset q" and ?C = "capacity q"
  have xs: "list_all frame_ok xs" "list_all frame_ok ys" "substr ?d ?r (length (ring_bytes xs)) = ring_bytes xs"
    "?r + length (ring_bytes xs) \<le> ?C" "?r < ?C" using assms by (simp_all add: segs_def)
  have fuel: "length xs < Suc ?C" using length_ring_bytes [of xs] xs(4) by simp
  from assms consider
    (linear) "ys = []" "?w = ?r + length (ring_bytes xs)" "?w < ?C" "oq_used q = length (ring_bytes xs)"
  | (wrapped) "?w = length (ring_bytes ys)" "?w \<le> ?r" "take ?w ?d = ring_bytes ys" "oq_used q = ?C - ?r + ?w"
      "?C - (?r + length (ring_bytes xs)) \<ge> 4 \<longrightarrow> substr ?d (?r + length (ring_bytes xs)) 4 = le_bytes 4 kWrapRecord"
    by (auto simp: segs_def Let_def)
  then show ?thesis
  proof cases
    case linear
    then show ?thesis
      using frames_eq [OF xs(1,3), of ?w "Suc ?C"] fuel
      by (cases xs) (auto simp: oq_items_def Let_def)
  next
    case wrapped
    have y: "frames (Suc ?C) ?d 0 ?w = ys"
      using xs wrapped length_ring_bytes [of ys] by (intro frames_eq) (simp_all add: substr_def)
    have "frames (Suc ?C) ?d ?r ?C = xs"
      using wrapped(5) xs fuel by (intro frames_eq) (auto simp: kWrapRecord_def not_less)
    with y wrapped xs(5) show ?thesis by (simp add: oq_items_def Let_def)
  qed
qed

section \<open>Taking a frame\<close>

lemma segs_head:
  assumes "segs q (f # xs) ys"
  shows "normalize_head q = Some q" "read_front q = Some f" "oq_used q \<noteq> 0"
    "le_value (substr (oq_data q) (read_offset q) 4) = length (snd f)"
proof -
  have r: "substr (oq_data q) (read_offset q) (length (record_of_frame f)) = record_of_frame f"
    "read_offset q + length (record_of_frame f) \<le> capacity q" "frame_ok f"
    using assms substr_prefix(1) [of "oq_data q" "read_offset q" "record_of_frame f" "ring_bytes xs"]
    by (auto simp: segs_def)
  note h = read_record [OF r]
  show used: "oq_used q \<noteq> 0" using assms by (auto simp: segs_def)
  show "le_value (substr (oq_data q) (read_offset q) 4) = length (snd f)" by (fact h(1))
  show "normalize_head q = Some q"
  proof -
    have "\<not> capacity q - read_offset q < 4" using r(2) by simp
    with h(1,4) show ?thesis by (subst normalize_head.simps) (simp add: Let_def)
  qed
  show "read_front q = Some f"
    using h used by (simp add: read_front_def Let_def kOutRecordHeaderBytes_def)
qed

lemma segs_empty: "segs q [] [] \<longleftrightarrow> oq_used q = 0 \<and> payload_bytes q = 0 \<and> read_offset q = write_offset q \<and>
    read_offset q < capacity q"
  by (auto simp: segs_def substr_def Let_def)

lemma segs_skip:
  assumes "segs q [] ys" "ys \<noteq> []"
  shows "segs (q\<lparr>oq_used := oq_used q - (capacity q - read_offset q), read_offset := 0\<rparr>) ys []"
    "normalize_head q = normalize_head (q\<lparr>oq_used := oq_used q - (capacity q - read_offset q), read_offset := 0\<rparr>)"
proof -
  let ?C = "capacity q" and ?r = "read_offset q"
  have w: "write_offset q = length (ring_bytes ys)" "length (ring_bytes ys) \<le> ?r" "?r < ?C"
    "take (length (ring_bytes ys)) (oq_data q) = ring_bytes ys"
    "oq_used q = (?C - ?r) + length (ring_bytes ys)" "list_all frame_ok ys"
    "payload_bytes q = sum_list (map (length \<circ> snd) ys)"
    and mark: "?C - ?r \<ge> 4 \<longrightarrow> substr (oq_data q) ?r 4 = le_bytes 4 kWrapRecord"
    using assms by (auto simp: segs_def Let_def)
  show "segs (q\<lparr>oq_used := oq_used q - (?C - ?r), read_offset := 0\<rparr>) ys []"
    using w by (auto simp: segs_def substr_def)
  have "le_value (substr (oq_data q) ?r 4) = kWrapRecord" if "\<not> ?C - ?r < 4"
    using mark that by (simp add: kWrapRecord_def)
  with w show "normalize_head q = normalize_head (q\<lparr>oq_used := oq_used q - (?C - ?r), read_offset := 0\<rparr>)"
    by (subst normalize_head.simps) (simp add: Let_def)
qed

lemma normalize_head_segs:
  assumes "segs q xs ys"
  obtains q' xs' ys' where "normalize_head q = Some q'" "segs q' xs' ys'" "xs' @ ys' = xs @ ys"
    "xs' = [] \<Longrightarrow> ys' = []" "capacity q' = capacity q"
proof (cases xs)
  case (Cons f zs)
  then show ?thesis using that [of q xs ys] assms segs_head(1) [of q f zs ys] by simp
next
  case Nil
  show ?thesis
  proof (cases ys)
    case Nil
    with \<open>xs = []\<close> assms have "oq_used q = 0" by (simp add: segs_empty)
    then have "normalize_head q = Some q" by (subst normalize_head.simps) simp
    with that [of q xs ys] assms Nil \<open>xs = []\<close> show ?thesis by simp
  next
    case (Cons f zs)
    let ?q = "q\<lparr>oq_used := oq_used q - (capacity q - read_offset q), read_offset := 0\<rparr>"
    have "segs ?q ys []" "normalize_head q = normalize_head ?q"
      using segs_skip [of q ys] assms Nil Cons by simp_all
    with that [of ?q ys "[]"] segs_head(1) [of ?q f zs "[]"] Nil Cons show ?thesis by simp
  qed
qed

lemma segs_pop:
  assumes "segs q (f # xs) ys"
  obtains xs' ys' where "segs (pop_front q (length (snd f))) xs' ys'" "xs' @ ys' = xs @ ys"
proof -
  let ?C = "capacity q" and ?r = "read_offset q" and ?n = "12 + length (snd f)" and ?q = "pop_front q (length (snd f))"
  have b: "list_all frame_ok (xs @ ys)" "?r + ?n + length (ring_bytes xs) \<le> ?C" "?r < ?C"
    "substr (oq_data q) (?r + ?n) (length (ring_bytes xs)) = ring_bytes xs"
    "payload_bytes q = length (snd f) + sum_list (map (length \<circ> snd) (xs @ ys))"
    using assms substr_prefix(2) [of "oq_data q" ?r "record_of_frame f" "ring_bytes xs"]
    by (auto simp: segs_def add.assoc)
  from assms consider
    (linear) "ys = []" "write_offset q = ?r + ?n + length (ring_bytes xs)" "write_offset q < ?C"
      "oq_used q = ?n + length (ring_bytes xs)"
  | (wrapped) "write_offset q = length (ring_bytes ys)" "length (ring_bytes ys) \<le> ?r"
      "take (length (ring_bytes ys)) (oq_data q) = ring_bytes ys" "oq_used q = ?C - ?r + length (ring_bytes ys)"
      "?C - (?r + ?n + length (ring_bytes xs)) \<ge> 4 \<longrightarrow>
         substr (oq_data q) (?r + ?n + length (ring_bytes xs)) 4 = le_bytes 4 kWrapRecord"
      "ys = [] \<longrightarrow> ?C = ?r + ?n + length (ring_bytes xs)"
    by (auto simp: segs_def Let_def add.assoc)
  then show ?thesis
  proof cases
    case linear
    have "segs ?q xs []"
    proof (cases "xs = []")
      case True
      with linear b show ?thesis by (auto simp: segs_def pop_front_def Let_def kOutRecordHeaderBytes_def substr_def)
    next
      case False
      then have "ring_bytes xs \<noteq> []" using length_ring_bytes [of xs] by auto
      with linear b show ?thesis by (auto simp: segs_def pop_front_def Let_def kOutRecordHeaderBytes_def)
    qed
    with that [of xs "[]"] linear show ?thesis by simp
  next
    case wrapped
    show ?thesis
    proof (cases "?r + ?n = ?C")
      case True
      then have "xs = []" using b(2) length_ring_bytes [of xs] by simp
      with True wrapped b have "segs ?q ys []"
        by (auto simp: segs_def pop_front_def Let_def kOutRecordHeaderBytes_def substr_def)
      with that [of ys "[]"] \<open>xs = []\<close> show ?thesis by simp
    next
      case False
      with wrapped b have "segs ?q xs ys"
        by (auto simp: segs_def pop_front_def Let_def kOutRecordHeaderBytes_def)
      with that [of xs ys] show ?thesis by simp
    qed
  qed
qed

text \<open>The consumer: look at the front, then drop it.\<close>

definition oq_take :: "out_queue \<Rightarrow> (u64 \<times> string) option \<times> out_queue" where
  "oq_take q =
     (case oq_front q of
        None \<Rightarrow> (None, q)
      | Some (None, q') \<Rightarrow> (None, q')
      | Some (Some f, q') \<Rightarrow> (Some f, pop_front q' (length (snd f))))"

lemma capacity_pop_front [simp]: "capacity (pop_front q n) = capacity q"
  by (simp add: pop_front_def Let_def)

lemma oq_front_segs:
  assumes "segs q xs ys"
  shows "\<exists>q'. oq_front q = Some (case xs @ ys of [] \<Rightarrow> None | f # _ \<Rightarrow> Some f, q') \<and> capacity q' = capacity q \<and>
    (\<exists>xs' ys'. segs q' xs' ys' \<and> xs' @ ys' = xs @ ys \<and> (xs' = [] \<longrightarrow> ys' = []))"
proof -
  obtain q' xs' ys' where n: "normalize_head q = Some q'" "segs q' xs' ys'" "xs' @ ys' = xs @ ys"
    "xs' = [] \<Longrightarrow> ys' = []" "capacity q' = capacity q"
    using normalize_head_segs [OF assms] by metis
  have "read_front q' = (case xs @ ys of [] \<Rightarrow> None | f # _ \<Rightarrow> Some f)"
  proof (cases xs')
    case Nil
    with n(2,4) have "oq_used q' = 0" by (simp add: segs_empty)
    with Nil n(3,4) show ?thesis by (simp add: read_front_def)
  next
    case (Cons f zs)
    with n segs_head(2) [of q' f zs ys'] show ?thesis by (simp flip: n(3))
  qed
  with n show ?thesis by (auto simp: oq_front_def)
qed

lemma oq_take_ok:
  assumes "oq_ok q"
  shows "oq_ok (snd (oq_take q)) \<and>
    oq_items q = (case fst (oq_take q) of None \<Rightarrow> [] | Some f \<Rightarrow> f # oq_items (snd (oq_take q))) \<and>
    (fst (oq_take q) = None \<longrightarrow> oq_items (snd (oq_take q)) = [])"
proof -
  obtain xs ys where s: "segs q xs ys" "capacity q < 2 ^ 32" using assms by (auto simp: oq_ok_def)
  obtain q' xs' ys' where f: "oq_front q = Some (case xs @ ys of [] \<Rightarrow> None | f # _ \<Rightarrow> Some f, q')"
    "capacity q' = capacity q" "segs q' xs' ys'" "xs' @ ys' = xs @ ys" "xs' = [] \<longrightarrow> ys' = []"
    using oq_front_segs [OF s(1)] by blast
  note i = segs_items [OF s(1)]
  show ?thesis
  proof (cases xs')
    case Nil
    with f have "xs @ ys = []" by auto
    with f s Nil segs_items [OF f(3)] i show ?thesis by (auto simp: oq_take_def oq_ok_def)
  next
    case (Cons g zs)
    then obtain xs2 ys2 where p: "segs (pop_front q' (length (snd g))) xs2 ys2" "xs2 @ ys2 = zs @ ys'"
      using segs_pop [of q' g zs ys'] f(3) by metis
    with f s Cons i segs_items [OF p(1)] show ?thesis by (auto simp: oq_take_def oq_ok_def simp flip: f(4))
  qed
qed

section \<open>Adding a frame\<close>

lemma overwrite_adjacent:
  assumes "p + length a + length b \<le> length d"
  shows "overwrite (overwrite d p a) (p + length a) b = overwrite d p (a @ b)"
proof -
  have "take (p + length a) (overwrite d p a) = take p d @ a" using assms by (simp add: overwrite_def)
  moreover have "drop (p + length a + length b) (overwrite d p a) = drop (p + length (a @ b)) d"
    using assms by (simp add: overwrite_def add.commute add.left_commute)
  ultimately show ?thesis by (simp add: overwrite_def)
qed

lemma write_record_eq:
  assumes "write_offset q + 12 + length b \<le> capacity q"
  shows "write_record q sq b =
    (let w' = write_offset q + 12 + length b
     in q\<lparr>oq_data := overwrite (oq_data q) (write_offset q) (record_of_frame (sq, b)),
          write_offset := (if w' = capacity q then 0 else w'),
          oq_used := oq_used q + 12 + length b, payload_bytes := payload_bytes q + length b\<rparr>)"
proof -
  let ?w = "write_offset q" and ?l = "le_bytes 4 (length b)" and ?s = "le_bytes 8 (unat sq)"
  have "overwrite (overwrite (overwrite (oq_data q) ?w ?l) (?w + 4) ?s) (?w + 12) b =
      overwrite (oq_data q) ?w (record_of_frame (sq, b))"
    using overwrite_adjacent [of ?w ?l ?s "oq_data q"] overwrite_adjacent [of ?w "?l @ ?s" b "oq_data q"] assms
    by (simp add: record_of_frame_def)
  then show ?thesis by (simp add: write_record_def Let_def kOutRecordHeaderBytes_def add.assoc)
qed

lemma substr_overwrite_extend:
  assumes "substr d p (length a) = a" "p + length a + length b \<le> length d"
  shows "substr (overwrite d (p + length a) b) p (length a + length b) = a @ b"
proof -
  have "take (length a) (drop p d) = a" using assms(1) by (simp add: substr_def)
  with assms(2) show ?thesis
    by (simp add: substr_def overwrite_def drop_take min_def take_drop [symmetric] add.commute)
qed

lemma push_linear:
  assumes s: "segs q xs []" "write_offset q = read_offset q + length (ring_bytes xs)" "oq_used q = length (ring_bytes xs)"
    and f: "frame_ok (sq, b)" "write_offset q + 12 + length b \<le> capacity q"
  shows "segs (write_record q sq b) (xs @ [(sq, b)]) []"
proof -
  have x: "substr (oq_data q) (read_offset q) (length (ring_bytes xs)) = ring_bytes xs" "list_all frame_ok xs"
    "read_offset q < capacity q" "payload_bytes q = sum_list (map (length \<circ> snd) xs)"
    using s(1) by (simp_all add: segs_def)
  have e: "substr (overwrite (oq_data q) (write_offset q) (record_of_frame (sq, b))) (read_offset q)
      (length (ring_bytes xs) + (12 + length b)) = ring_bytes xs @ record_of_frame (sq, b)"
    using substr_overwrite_extend [OF x(1), of "record_of_frame (sq, b)"] s(2) f(2) by simp
  have l: "length (overwrite (oq_data q) (write_offset q) (record_of_frame (sq, b))) = capacity q"
    using f(2) by (simp add: length_overwrite)
  show ?thesis
    unfolding write_record_eq [OF f(2)] using s(2,3) f x e l
    by (auto simp: segs_def Let_def add.assoc)
qed

lemma push_wrap:
  assumes s: "segs q xs []" "write_offset q = read_offset q + length (ring_bytes xs)" "oq_used q = length (ring_bytes xs)"
    and f: "frame_ok (sq, b)" "12 + length b \<le> read_offset q"
    and d: "d = (if capacity q - write_offset q \<ge> 4 then overwrite (oq_data q) (write_offset q) (le_bytes 4 kWrapRecord)
                 else oq_data q)"
  shows "segs (write_record (q\<lparr>oq_data := d, oq_used := oq_used q + (capacity q - write_offset q), write_offset := 0\<rparr>) sq b)
    xs [(sq, b)]"
proof -
  let ?q = "q\<lparr>oq_data := d, oq_used := oq_used q + (capacity q - write_offset q), write_offset := 0\<rparr>"
  let ?r = "read_offset q" and ?n = "length (ring_bytes xs)" and ?rec = "record_of_frame (sq, b)"
  have x: "substr (oq_data q) ?r ?n = ring_bytes xs" "list_all frame_ok xs" "?r < capacity q" "?r + ?n \<le> capacity q"
    "payload_bytes q = sum_list (map (length \<circ> snd) xs)" using s(1) by (simp_all add: segs_def)
  have d1: "length d = capacity q" "substr d ?r ?n = ring_bytes xs"
    "capacity q - (?r + ?n) \<ge> 4 \<longrightarrow> substr d (?r + ?n) 4 = le_bytes 4 kWrapRecord"
    using x(1,4) s(2) by (auto simp: d length_overwrite substr_overwrite_before substr_overwrite_same)
  have o: "length ?rec \<le> ?r" using f(2) by simp
  have d2: "length (overwrite d 0 ?rec) = capacity q" "substr (overwrite d 0 ?rec) ?r ?n = ring_bytes xs"
    "capacity q - (?r + ?n) \<ge> 4 \<longrightarrow> substr (overwrite d 0 ?rec) (?r + ?n) 4 = le_bytes 4 kWrapRecord"
    "take (12 + length b) (overwrite d 0 ?rec) = ?rec"
    using d1 o x(3) length_record_of_frame [of "(sq, b)"]
    by (auto simp: length_overwrite substr_overwrite_after) (simp_all add: overwrite_def)
  have fit: "write_offset ?q + 12 + length b \<le> capacity ?q" using d1(1) x(3) f(2) by simp
  show ?thesis
    unfolding write_record_eq [OF fit] using s(2,3) f x d1(1) d2
    by (auto simp: segs_def Let_def)
qed

lemma push_wrapped:
  assumes s: "segs q xs ys" "write_offset q = length (ring_bytes ys)" "write_offset q < read_offset q"
    and f: "frame_ok (sq, b)" "12 + length b \<le> read_offset q - write_offset q"
  shows "segs (write_record q sq b) xs (ys @ [(sq, b)])"
proof -
  let ?r = "read_offset q" and ?n = "length (ring_bytes xs)" and ?w = "write_offset q" and ?rec = "record_of_frame (sq, b)"
  let ?d = "overwrite (oq_data q) ?w ?rec"
  have x: "substr (oq_data q) ?r ?n = ring_bytes xs" "list_all frame_ok (xs @ ys)" "?r < capacity q" "?r + ?n \<le> capacity q"
    "payload_bytes q = sum_list (map (length \<circ> snd) (xs @ ys))"
    "take ?w (oq_data q) = ring_bytes ys" "oq_used q = (capacity q - ?r) + ?w"
    "capacity q - (?r + ?n) \<ge> 4 \<longrightarrow> substr (oq_data q) (?r + ?n) 4 = le_bytes 4 kWrapRecord"
    using s by (auto simp: segs_def Let_def)
  have o: "?w + length ?rec \<le> ?r" using f(2) s(3) by simp
  have d: "length ?d = capacity q" "substr ?d ?r ?n = ring_bytes xs"
    "capacity q - (?r + ?n) \<ge> 4 \<longrightarrow> substr ?d (?r + ?n) 4 = le_bytes 4 kWrapRecord"
    using o x by (auto simp: length_overwrite substr_overwrite_after)
  have "substr ?d 0 (?w + length ?rec) = ring_bytes ys @ ?rec"
    using substr_overwrite_extend [of "oq_data q" 0 "ring_bytes ys" ?rec] x(6,3) o s(2) by (simp add: substr_def)
  then have t: "take (?w + (12 + length b)) ?d = ring_bytes ys @ ?rec" by (simp add: substr_def)
  have fit: "?w + 12 + length b \<le> capacity q" using o x(3) by simp
  show ?thesis
    unfolding write_record_eq [OF fit] using s(2,3) f x d t o
    by (auto simp: segs_def Let_def add.assoc)
qed

lemma oq_push_segs:
  assumes s: "segs q xs ys" and f: "frame_ok f" and p: "oq_push q f = (True, q')"
  shows "\<exists>zs ys'. segs q' (xs @ zs) ys' \<and> (xs @ zs) @ ys' = (xs @ ys) @ [f]"
proof -
  obtain sq b where fb: "f = (sq, b)" by (cases f)
  have n: "12 + length b \<le> capacity q" "12 + length b \<le> capacity q - oq_used q"
    using p by (auto simp: oq_push_def fb Let_def kOutRecordHeaderBytes_def split: if_splits)
  from s consider
    (linear) "ys = []" "write_offset q = read_offset q + length (ring_bytes xs)" "write_offset q < capacity q"
      "oq_used q = length (ring_bytes xs)"
  | (wrapped) "write_offset q = length (ring_bytes ys)" "write_offset q < read_offset q" "oq_used q \<noteq> 0"
    using n by (force simp: segs_def Let_def)
  then show ?thesis
  proof cases
    case linear
    define q1 where "q1 = (if oq_used q = 0 then q\<lparr>read_offset := 0, write_offset := 0\<rparr> else q)"
    have c1: "capacity q1 = capacity q" "oq_used q1 = oq_used q" by (auto simp: q1_def)
    have s1: "segs q1 xs []" "write_offset q1 = read_offset q1 + length (ring_bytes xs)" "oq_used q1 = length (ring_bytes xs)"
      using linear s by (auto simp: q1_def segs_def substr_def split: if_splits)
    show ?thesis
    proof (cases "capacity q1 - write_offset q1 < 12 + length b")
      case False
      then have "q' = write_record q1 sq b"
        using p s1(2) by (auto simp: oq_push_def fb Let_def kOutRecordHeaderBytes_def q1_def split: if_splits)
      moreover have "write_offset q1 < capacity q1" using s1 linear(3) by (auto simp: q1_def)
      ultimately have "segs q' (xs @ [(sq, b)]) []" using push_linear [OF s1, of sq b] f fb False by auto
      then show ?thesis using fb linear(1) by (intro exI [of _ "[(sq, b)]"] exI [of _ "[]"]) simp
    next
      case True
      then have "q' = write_record (q1\<lparr>oq_data := (if capacity q1 - write_offset q1 \<ge> 4
            then overwrite (oq_data q1) (write_offset q1) (le_bytes 4 kWrapRecord) else oq_data q1),
            oq_used := oq_used q1 + (capacity q1 - write_offset q1), write_offset := 0\<rparr>) sq b"
        and "12 + length b \<le> read_offset q1"
        using p s1(2) by (auto simp: oq_push_def fb Let_def kOutRecordHeaderBytes_def q1_def split: if_splits)
      then have "segs q' xs [(sq, b)]" using push_wrap [OF s1, of sq b] f fb by auto
      then show ?thesis using fb linear(1) by (intro exI [of _ "[]"] exI [of _ "[(sq, b)]"]) simp
    qed
  next
    case wrapped
    then have "q' = write_record q sq b" "12 + length b \<le> read_offset q - write_offset q"
      using p by (auto simp: oq_push_def fb Let_def kOutRecordHeaderBytes_def split: if_splits)
    then have "segs q' xs (ys @ [(sq, b)])" using push_wrapped [OF s wrapped(1,2), of sq b] f fb by auto
    then show ?thesis using fb by (intro exI [of _ "[]"] exI [of _ "ys @ [(sq, b)]"]) simp
  qed
qed

section \<open>The queue interface\<close>

definition oq_put :: "out_queue \<Rightarrow> u64 \<times> string \<Rightarrow> out_queue option" where
  "oq_put q f = (case oq_push q f of (ok, q') \<Rightarrow> if ok then Some q' else None)"

lemma oq_push_length: "oq_push q f = (True, q') \<Longrightarrow> 12 + length (snd f) \<le> capacity q"
  by (auto simp: oq_push_def Let_def kOutRecordHeaderBytes_def split: if_splits prod.splits)

lemma capacity_write_record: "write_offset q + 12 + length b \<le> capacity q \<Longrightarrow> capacity (write_record q sq b) = capacity q"
  by (simp add: write_record_eq Let_def length_overwrite)

lemma segs_capacity: "segs q xs ys \<Longrightarrow> oq_push q f = (True, q') \<Longrightarrow> capacity q' = capacity q"
proof -
  assume s: "segs q xs ys" and p: "oq_push q f = (True, q')"
  obtain sq b where fb: "f = (sq, b)" by (cases f)
  have r: "read_offset q < capacity q" using s by (simp add: segs_def)
  have d: "length (if capacity q - write_offset q \<ge> 4 then overwrite (oq_data q) (write_offset q) (le_bytes 4 kWrapRecord)
      else oq_data q) = capacity q" by (simp add: length_overwrite)
  show ?thesis
    using p r d by (auto simp: oq_push_def fb Let_def kOutRecordHeaderBytes_def split: if_splits
        intro!: trans [OF capacity_write_record])
qed

interpretation pushes: fifo_queue oq_take oq_items oq_ok oq_put
proof
  fix q :: out_queue and f q'
  assume ok: "oq_ok q"
  then obtain xs ys where s: "segs q xs ys" "capacity q < 2 ^ 32" by (auto simp: oq_ok_def)
  show "oq_ok (snd (oq_take q))" using oq_take_ok [OF ok] by blast
  show "oq_take q = (Some f, q') \<Longrightarrow> oq_items q = f # oq_items q'" using oq_take_ok [OF ok] by simp
  show "oq_take q = (None, q') \<Longrightarrow> oq_items q = [] \<and> oq_items q' = []" using oq_take_ok [OF ok] by simp
  assume "oq_put q f = Some q'"
  then have p: "oq_push q f = (True, q')" by (auto simp: oq_put_def split: prod.splits if_splits)
  have "frame_ok f" using oq_push_length [OF p] s(2) by (simp add: frame_ok_def kWrapRecord_def)
  then obtain zs ys' where n: "segs q' (xs @ zs) ys'" "(xs @ zs) @ ys' = (xs @ ys) @ [f]"
    using oq_push_segs [OF s(1) _ p] by blast
  show "oq_ok q'" using n(1) s segs_capacity [OF s(1) p] by (auto simp: oq_ok_def)
  show "oq_items q' = oq_items q @ [f]" using segs_items [OF n(1)] segs_items [OF s(1)] n(2) by simp
qed

lemma oq_push_refused: "oq_push q f = (False, q') \<Longrightarrow> q' = q"
  by (auto simp: oq_push_def Let_def split: if_splits prod.splits)

lemma oq_push_empty:
  "oq_used q = 0 \<Longrightarrow> 12 + length b \<le> capacity q \<Longrightarrow> length b < 2 ^ 32 \<Longrightarrow> fst (oq_push q (sq, b))"
  by (simp add: oq_push_def Let_def kOutRecordHeaderBytes_def)

section \<open>Properties\<close>

text \<open>C9: the push queue is a first-in first-out queue of frames. On a well-formed queue of less than 4 GiB
  the front call returns (its loop over skipped space ends) and shows the oldest frame without changing
  the content, dropping it leaves the others, and a push either appends the frame or refuses it and
  changes nothing.\<close>

theorem out_queue_fifo:
  assumes "oq_ok q"
  shows "(\<exists>q'. oq_front q = Some (case oq_items q of [] \<Rightarrow> None | f # _ \<Rightarrow> Some f, q') \<and> oq_items q' = oq_items q \<and>
      (\<forall>f fs. oq_items q = f # fs \<longrightarrow> oq_items (pop_front q' (length (snd f))) = fs)) \<and>
    oq_ok (snd (oq_take q)) \<and>
    (oq_push q g = (ok, p) \<longrightarrow> (if ok then oq_ok p \<and> oq_items p = oq_items q @ [g] else p = q))"
proof (intro conjI impI)
  obtain xs ys where s: "segs q xs ys" using assms by (auto simp: oq_ok_def)
  note i = segs_items [OF s]
  obtain q' xs' ys' where f: "oq_front q = Some (case xs @ ys of [] \<Rightarrow> None | f # _ \<Rightarrow> Some f, q')"
    "segs q' xs' ys'" "xs' @ ys' = xs @ ys" "xs' = [] \<longrightarrow> ys' = []"
    using oq_front_segs [OF s] by blast
  have "oq_items (pop_front q' (length (snd f))) = fs" if "xs @ ys = f # fs" for f fs
  proof -
    from that f(3,4) obtain zs where "xs' = f # zs" "zs @ ys' = fs" by (cases xs') auto
    with segs_pop [of q' f zs ys'] f(2) segs_items show ?thesis by metis
  qed
  with f segs_items [OF f(2)] i
  show "\<exists>q'. oq_front q = Some (case oq_items q of [] \<Rightarrow> None | f # _ \<Rightarrow> Some f, q') \<and> oq_items q' = oq_items q \<and>
      (\<forall>f fs. oq_items q = f # fs \<longrightarrow> oq_items (pop_front q' (length (snd f))) = fs)" by auto
  show "oq_ok (snd (oq_take q))" using pushes.pop_inv [OF assms] .
  assume "oq_push q g = (ok, p)"
  then show "if ok then oq_ok p \<and> oq_items p = oq_items q @ [g] else p = q"
    using pushes.put_inv [OF assms, of g p] pushes.put_items [OF assms, of g p] oq_push_refused
    by (cases ok) (auto simp: oq_put_def)
qed

definition demo_queue :: out_queue where
  "demo_queue = \<lparr>oq_data = replicate 40 (chr 0), read_offset = 0, write_offset = 0, oq_used = 0, payload_bytes = 0\<rparr>"

lemma demo_queue_ok: "oq_ok demo_queue" "oq_items demo_queue = []"
proof -
  have "segs demo_queue [] []" by (simp add: segs_empty demo_queue_def)
  then show "oq_ok demo_queue" "oq_items demo_queue = []"
    using segs_items by (auto simp: oq_ok_def demo_queue_def)
qed

lemma demo_push: "\<exists>p. oq_push demo_queue (1, ''hi'') = (True, p)"
  by (simp add: oq_push_def demo_queue_def kOutRecordHeaderBytes_def)

theorem out_queue_fifo_witness:
  "\<exists>p. oq_push demo_queue (1, ''hi'') = (True, p) \<and> oq_items p = [(1, ''hi'')]"
  using out_queue_fifo [OF demo_queue_ok(1), of "(1, ''hi'')" True] demo_push demo_queue_ok(2) by auto

text \<open>C38: a consumer that keeps up is never cut off. However the queue was used, once its consumer has
  taken the frames that were in it, in order and none left out, the queue accepts every frame that fits
  the mapping at all: space lost to skipping the end is recovered.\<close>

theorem out_queue_accepts_when_drained:
  assumes "oq_ok q" and "length (oq_items q) \<le> n" and "12 + length b \<le> capacity q"
  shows "fst (drain oq_take n q) = oq_items q \<and> fst (oq_push (snd (drain oq_take n q)) (sq, b))"
proof -
  let ?q = "snd (drain oq_take n q)"
  have d: "fst (drain oq_take n q) = oq_items q" "oq_items ?q = []" using pushes.drain_all [OF assms(1,2)] by simp_all
  have "capacity (snd (oq_take q)) = capacity q" if "oq_ok q" for q
    using that oq_front_segs unfolding oq_ok_def oq_take_def by (fastforce split: option.splits prod.splits)
  then have c: "oq_ok q \<Longrightarrow> capacity (snd (drain oq_take n q)) = capacity q" for q
  proof (induction n arbitrary: q)
    case (Suc n)
    then show ?case using pushes.pop_inv [of q] by (auto split: option.splits prod.splits) (metis snd_conv)+
  qed simp
  have "oq_ok ?q" using pushes.drain_split [OF assms(1)] by (metis prod.collapse)
  then obtain xs ys where "segs ?q xs ys" by (auto simp: oq_ok_def)
  with segs_items d(2) have "segs ?q [] []" by fastforce
  then have "oq_used ?q = 0" by (simp add: segs_empty)
  with assms c [OF assms(1)] d(1) show ?thesis by (auto simp: oq_ok_def intro!: oq_push_empty)
qed

theorem out_queue_accepts_when_drained_witness:
  "fst (oq_push (snd (drain oq_take 0 demo_queue)) (1, ''hi''))"
  using out_queue_accepts_when_drained [OF demo_queue_ok(1), of 0 "''hi''" 1] demo_queue_ok(2)
  by (simp add: demo_queue_def)

end
