(* ===== verification/Client_Output.thy ===== *)
theory Client_Output
  imports Output_Queue
begin

text \<open>
  What a connection sends (\<open>src/server.cpp\<close>: the output fields of \<open>EndpointSession\<close>, \<open>record_reply\<close>, the
  Kafka acknowledgement gates, \<open>peek_unsolicited\<close>, \<open>consume_unsolicited_front\<close>, \<open>write_client\<close>,
  \<open>compact_output_if_needed\<close>, back pressure; \<open>src/pubsub.cpp\<close>: \<open>PubSubRegistry::enqueue\<close>).

  Replies accumulate in one string with a boundary per reply, pushes in the queue of
  \<open>Output_Queue\<close>; both draw their sequence numbers from one counter and are sent in that order. The
  cached front of the push queue is its value: the view it holds points into a record that stays in
  place until it is dropped. The model is of a connection that is not a replication firehose (those
  have a second push queue). Each call of the transport is answered by an \<open>io\<close> value; a transport never
  accepts more bytes than it is given. TLS retries are not modelled, and a call of the queue that does
  not return would make the function undefined (\<open>None\<close>).
\<close>

record reply_boundary =
  rb_sequence :: u64
  reply_to :: u64
  end_offset :: nat
  required_kafka_offset :: u64

record endpoint =
  ep_output :: string
  output_offset :: nat
  replies :: "reply_boundary list"
  reply_index :: nat
  unsolicited :: out_queue
  next_output_sequence :: u64
  unsolicited_front_offset :: nat
  unsolicited_front :: "(u64 \<times> string) option"
  close_requested :: bool
  next_reply_kafka_offset :: u64
  active_request_sequence :: u64
  read_backpressured :: bool
  close_after_write :: bool

section \<open>Recording output\<close>

definition ep_record_reply :: "endpoint \<Rightarrow> nat \<Rightarrow> endpoint" where
  "ep_record_reply s prior_size =
     (if length (ep_output s) \<noteq> prior_size
      then s\<lparr>replies := replies s @ [\<lparr>rb_sequence = next_output_sequence s, reply_to = active_request_sequence s,
               end_offset = length (ep_output s), required_kafka_offset = next_reply_kafka_offset s\<rparr>],
             next_output_sequence := next_output_sequence s + 1, next_reply_kafka_offset := 0\<rparr>
      else s)"

definition require_kafka_ack :: "endpoint \<Rightarrow> u64 \<Rightarrow> u64 \<Rightarrow> endpoint" where
  "require_kafka_ack s first_sequence logical_offset =
     (let found = list_ex (\<lambda>r. \<not> rb_sequence r < first_sequence) (replies s);
          s = s\<lparr>replies := map (\<lambda>r. if rb_sequence r < first_sequence then r
                 else r\<lparr>required_kafka_offset := max (required_kafka_offset r) logical_offset\<rparr>) (replies s)\<rparr>
      in if \<not> found then s\<lparr>next_reply_kafka_offset := max (next_reply_kafka_offset s) logical_offset\<rparr> else s)"

definition release_kafka_ack :: "endpoint \<Rightarrow> u64 \<Rightarrow> endpoint" where
  "release_kafka_ack s logical_offset =
     s\<lparr>replies := map (\<lambda>r. if required_kafka_offset r \<noteq> 0 \<and> required_kafka_offset r \<le> logical_offset
                           then r\<lparr>required_kafka_offset := 0\<rparr> else r) (replies s),
       next_reply_kafka_offset := (if next_reply_kafka_offset s \<noteq> 0 \<and> next_reply_kafka_offset s \<le> logical_offset
                                   then 0 else next_reply_kafka_offset s)\<rparr>"

text \<open>A push that does not fit asks for the connection to be closed.\<close>

definition enqueue :: "endpoint \<Rightarrow> string \<Rightarrow> bool \<times> endpoint" where
  "enqueue s bytes =
     (case oq_push (unsolicited s) (next_output_sequence s, bytes) of
        (True, q) \<Rightarrow> (True, s\<lparr>unsolicited := q, next_output_sequence := next_output_sequence s + 1\<rparr>)
      | (False, q) \<Rightarrow> (False, s\<lparr>unsolicited := q, close_requested := True\<rparr>))"

section \<open>Choosing what to send\<close>

definition has_pending_regular_output :: "endpoint \<Rightarrow> bool" where
  "has_pending_regular_output s \<longleftrightarrow> reply_index s < length (replies s)"

definition has_ready_regular_output :: "endpoint \<Rightarrow> bool" where
  "has_ready_regular_output s \<longleftrightarrow>
     has_pending_regular_output s \<and> required_kafka_offset (replies s ! reply_index s) = 0"

definition peek_unsolicited :: "endpoint \<Rightarrow> ((u64 \<times> string) option \<times> endpoint) option" where
  "peek_unsolicited s =
     (case unsolicited_front s of
        Some f \<Rightarrow> Some (Some f, s)
      | None \<Rightarrow> map_option (\<lambda>(f, q). (f, s\<lparr>unsolicited := q, unsolicited_front := f\<rparr>)) (oq_front (unsolicited s)))"

definition consume_unsolicited_front :: "endpoint \<Rightarrow> endpoint" where
  "consume_unsolicited_front s =
     (let payload_len = (case unsolicited_front s of None \<Rightarrow> 0 | Some f \<Rightarrow> length (snd f))
      in s\<lparr>unsolicited := pop_front (unsolicited s) payload_len, unsolicited_front := None,
           unsolicited_front_offset := 0\<rparr>)"

definition has_writable_output :: "endpoint \<Rightarrow> (u64 \<times> string) option \<Rightarrow> bool" where
  "has_writable_output s push =
     (if \<not> has_pending_regular_output s then push \<noteq> None
      else if push \<noteq> None \<and> fst (the push) < rb_sequence (replies s ! reply_index s) then True
      else has_ready_regular_output s)"

definition pending_output_bytes :: "endpoint \<Rightarrow> nat" where
  "pending_output_bytes s =
     (length (ep_output s) - output_offset s) +
     (if payload_bytes (unsolicited s) \<ge> unsolicited_front_offset s
      then payload_bytes (unsolicited s) - unsolicited_front_offset s else 0)"

definition update_read_backpressure :: "nat \<Rightarrow> nat \<Rightarrow> endpoint \<Rightarrow> endpoint" where
  "update_read_backpressure max_output resume_output s =
     (if max_output = 0 then s\<lparr>read_backpressured := False\<rparr>
      else if read_backpressured s
      then (if pending_output_bytes s \<le> resume_output then s\<lparr>read_backpressured := False\<rparr> else s)
      else if pending_output_bytes s \<ge> max_output then s\<lparr>read_backpressured := True\<rparr> else s)"

definition kOutputCompactThreshold :: nat where "kOutputCompactThreshold = 64 * 1024"

definition compact_output_if_needed :: "endpoint \<Rightarrow> endpoint" where
  "compact_output_if_needed s =
     (if output_offset s = 0 then s
      else if output_offset s \<ge> length (ep_output s)
      then s\<lparr>ep_output := [], output_offset := 0, replies := [], reply_index := 0\<rparr>
      else
        let remaining = length (ep_output s) - output_offset s
        in if output_offset s \<ge> kOutputCompactThreshold \<and> output_offset s \<ge> remaining
           then s\<lparr>ep_output := drop (output_offset s) (ep_output s),
                  replies := map (\<lambda>r. r\<lparr>end_offset := end_offset r - output_offset s\<rparr>) (drop (reply_index s) (replies s)),
                  reply_index := 0, output_offset := 0\<rparr>
           else s)"

text \<open>The last of the adjacent replies that can go out in one piece before the next push.\<close>

fun last_reply_from :: "nat \<Rightarrow> reply_boundary list \<Rightarrow> (u64 \<times> string) option \<Rightarrow> nat \<Rightarrow> nat" where
  "last_reply_from 0 rs push i = i"
| "last_reply_from (Suc n) rs push i =
     (if i + 1 < length rs \<and> required_kafka_offset (rs ! (i + 1)) = 0 \<and>
         (push = None \<or> rb_sequence (rs ! (i + 1)) < fst (the push))
      then last_reply_from n rs push (i + 1) else i)"

fun advance_reply :: "nat \<Rightarrow> reply_boundary list \<Rightarrow> nat \<Rightarrow> nat \<Rightarrow> nat" where
  "advance_reply 0 rs off i = i"
| "advance_reply (Suc n) rs off i =
     (if i < length rs \<and> off \<ge> end_offset (rs ! i) then advance_reply n rs off (i + 1) else i)"

section \<open>write\_client\<close>

datatype io = Progress nat | Would_block | Interrupted | Closed | Io_error

datatype outcome = Returned bool | Not_yet

definition send_push :: "endpoint \<Rightarrow> u64 \<times> string \<Rightarrow> nat \<Rightarrow> endpoint" where
  "send_push s push written =
     (let s = s\<lparr>unsolicited_front_offset := unsolicited_front_offset s + written\<rparr>
      in if unsolicited_front_offset s = length (snd push) then consume_unsolicited_front s else s)"

definition send_regular :: "endpoint \<Rightarrow> nat \<Rightarrow> endpoint" where
  "send_regular s written =
     (let off = output_offset s + written
      in s\<lparr>output_offset := off, reply_index := advance_reply (length (replies s)) (replies s) off (reply_index s)\<rparr>)"

text \<open>The body of the loop from the choice on: whether it is a push, and the bytes offered to the
  transport; \<open>None\<close> when the next reply still waits for its acknowledgement.\<close>

definition offer :: "endpoint \<Rightarrow> (u64 \<times> string) option \<Rightarrow> (bool \<times> string) option" where
  "offer s push =
     (if push \<noteq> None \<and> (\<not> has_pending_regular_output s \<or> fst (the push) < rb_sequence (replies s ! reply_index s))
      then Some (True, drop (unsolicited_front_offset s) (snd (the push)))
      else if \<not> has_ready_regular_output s then None
      else let last_reply = last_reply_from (length (replies s)) (replies s) push (reply_index s)
           in Some (False, substr (ep_output s) (output_offset s) (end_offset (replies s ! last_reply) - output_offset s)))"

fun write_loop :: "nat \<Rightarrow> nat \<Rightarrow> io list \<Rightarrow> endpoint \<Rightarrow> (outcome \<times> string \<times> endpoint) option" where
  "write_loop mx res ios s =
     (case peek_unsolicited s of
        None \<Rightarrow> None
      | Some (push, s) \<Rightarrow>
          if \<not> has_writable_output s push
          then (let s = update_read_backpressure mx res (compact_output_if_needed s)
                in Some (Returned (\<not> close_after_write s), [], s))
          else case offer s push of
            None \<Rightarrow> Some (Returned True, [], s)
          | Some (is_push, bytes) \<Rightarrow>
              (case ios of
                 [] \<Rightarrow> Some (Not_yet, [], s)
               | Progress n # ios' \<Rightarrow>
                   let written = min n (length bytes)
                   in if written > 0
                      then let s = (if is_push then send_push s (the push) written else send_regular s written);
                               s = update_read_backpressure mx res s
                           in map_option (\<lambda>(r, sent, s). (r, take written bytes @ sent, s)) (write_loop mx res ios' s)
                      else Some (Returned False, [], s)
               | Would_block # ios' \<Rightarrow>
                   Some (Returned True, [], update_read_backpressure mx res (compact_output_if_needed s))
               | Interrupted # ios' \<Rightarrow> write_loop mx res ios' s
               | Closed # ios' \<Rightarrow> Some (Returned False, [], s)
               | Io_error # ios' \<Rightarrow> Some (Returned False, [], s)))"

declare write_loop.simps [simp del]

definition write_client :: "nat \<Rightarrow> nat \<Rightarrow> io list \<Rightarrow> endpoint \<Rightarrow> (outcome \<times> string \<times> endpoint) option" where
  "write_client mx res ios s =
     (if close_requested s then Some (Returned False, [], s) else write_loop mx res ios s)"

end
