(* ===== verification/Client_Output_Correct.thy ===== *)
theory Client_Output_Correct
  imports Client_Output
begin

text \<open>
  The order of what a connection sends. \<open>pending\<close> is the abstraction of a connection: the replies and
  pushes still to be sent, merged by sequence number. The invariant \<open>ep_ok\<close> ties the reply boundaries,
  the push queue and the cached front together; each operation of \<open>Client_Output\<close> keeps it and
  changes \<open>pending\<close> only at its two ends. The properties follow for whole runs of a connection.
\<close>

section \<open>Frames waiting to be sent\<close>

type_synonym frame = "u64 \<times> string"

fun cut :: "string \<Rightarrow> nat \<Rightarrow> reply_boundary list \<Rightarrow> frame list" where
  "cut out off [] = []"
| "cut out off (r # rs) = (rb_sequence r, substr out off (end_offset r - off)) # cut out (end_offset r) rs"

fun ends_ok :: "nat \<Rightarrow> reply_boundary list \<Rightarrow> nat \<Rightarrow> bool" where
  "ends_ok off [] n \<longleftrightarrow> off = n"
| "ends_ok off (r # rs) n \<longleftrightarrow> off < end_offset r \<and> ends_ok (end_offset r) rs n"

fun merge :: "frame list \<Rightarrow> frame list \<Rightarrow> frame list" where
  "merge [] ps = ps"
| "merge rs [] = rs"
| "merge (r # rs) (p # ps) = (if fst r < fst p then r # merge rs (p # ps) else p # merge (r # rs) ps)"

fun trim :: "nat \<Rightarrow> frame list \<Rightarrow> frame list" where
  "trim n [] = []"
| "trim n (p # ps) = (fst p, drop n (snd p)) # ps"

abbreviation waiting :: "endpoint \<Rightarrow> reply_boundary list" where
  "waiting s \<equiv> drop (reply_index s) (replies s)"

definition reply_frames :: "endpoint \<Rightarrow> frame list" where
  "reply_frames s = cut (ep_output s) (output_offset s) (waiting s)"

definition push_frames :: "endpoint \<Rightarrow> frame list" where
  "push_frames s = trim (unsolicited_front_offset s) (oq_items (unsolicited s))"

text \<open>The bytes still to be sent, in the order of the sequence numbers.\<close>

definition pending :: "endpoint \<Rightarrow> string" where
  "pending s = concat (map snd (merge (reply_frames s) (push_frames s)))"

definition sequences_ok :: "endpoint \<Rightarrow> bool" where
  "sequences_ok s \<longleftrightarrow>
     sorted_wrt (<) (map rb_sequence (waiting s)) \<and> sorted_wrt (<) (map fst (oq_items (unsolicited s))) \<and>
     set (map rb_sequence (waiting s)) \<inter> set (map fst (oq_items (unsolicited s))) = {} \<and>
     (\<forall>x \<in> set (map rb_sequence (waiting s)) \<union> set (map fst (oq_items (unsolicited s))). x < next_output_sequence s)"

definition front_ok :: "endpoint \<Rightarrow> bool" where
  "front_ok s \<longleftrightarrow>
     (case unsolicited_front s of
        None \<Rightarrow> unsolicited_front_offset s = 0
      | Some f \<Rightarrow> (\<exists>xs ys. segs (unsolicited s) (f # xs) ys) \<and> unsolicited_front_offset s < length (snd f))"

definition ep_ok :: "endpoint \<Rightarrow> bool" where
  "ep_ok s \<longleftrightarrow> oq_ok (unsolicited s) \<and> (\<forall>f \<in> set (oq_items (unsolicited s)). snd f \<noteq> []) \<and> front_ok s \<and>
     reply_index s \<le> length (replies s) \<and> ends_ok (output_offset s) (waiting s) (length (ep_output s)) \<and> sequences_ok s"

lemma merge_Nil [simp]: "merge rs [] = rs"
  by (cases rs) auto

lemma merge_append: "\<forall>a \<in> set as. ps = [] \<or> fst a < fst (hd ps) \<Longrightarrow> merge (as @ bs) ps = as @ merge bs ps"
  by (induction as) (cases ps; simp)+

lemma merge_snoc_left:
  "\<forall>p \<in> set ps. fst p < fst r \<Longrightarrow> merge (rs @ [r]) ps = merge rs ps @ [r]"
proof (induction rs ps rule: merge.induct)
  case (1 ps)
  then show ?case by (induction ps) auto
qed auto

lemma merge_snoc_right:
  "\<forall>r \<in> set rs. fst r < fst p \<Longrightarrow> merge rs (ps @ [p]) = merge rs ps @ [p]"
proof (induction rs ps rule: merge.induct)
  case (2 r rs)
  then show ?case using merge_append [of "r # rs" "[p]" "[]"] by simp
qed auto

lemma map_fst_cut [simp]: "map fst (cut out off rs) = map rb_sequence rs"
  by (induction out off rs rule: cut.induct) auto

lemma cut_append: "cut out off (rs @ rs') = cut out off rs @ cut out (if rs = [] then off else end_offset (last rs)) rs'"
  by (induction out off rs rule: cut.induct) auto

lemma ends_ok_le: "ends_ok off rs n \<Longrightarrow> off \<le> n"
  by (induction off rs n rule: ends_ok.induct) auto

lemma ends_ok_append:
  "ends_ok off (rs @ rs') n \<longleftrightarrow>
     ends_ok off rs (if rs = [] then off else end_offset (last rs)) \<and> ends_ok (if rs = [] then off else end_offset (last rs)) rs' n"
  by (induction rs arbitrary: off) auto

lemma substr_add: "substr m off (a + b) = substr m off a @ substr m (off + a) b"
  by (simp add: substr_def take_add add.commute)

lemma concat_cut:
  "ends_ok off rs n \<Longrightarrow> n \<le> length out \<Longrightarrow> concat (map snd (cut out off rs)) = substr out off (n - off)"
proof (induction off rs n rule: ends_ok.induct)
  case (1 off n)
  then show ?case by (simp add: substr_def)
next
  case (2 off r rs n)
  have "end_offset r \<le> n" using 2 ends_ok_le by auto
  with 2 have "substr out off (n - off) = substr out off (end_offset r - off) @ substr out (end_offset r) (n - end_offset r)"
    using substr_add [of out off "end_offset r - off" "n - end_offset r"] by simp
  with 2 show ?case by simp
qed

section \<open>One step of the writer\<close>

lemma ep_okD:
  assumes "ep_ok s"
  shows "oq_ok (unsolicited s)" "front_ok s" "reply_index s \<le> length (replies s)"
    "ends_ok (output_offset s) (waiting s) (length (ep_output s))" "sequences_ok s"
  using assms by (simp_all add: ep_ok_def)

lemma waiting_Cons: "waiting s = r # rs \<Longrightarrow> reply_index s < length (replies s) \<and> replies s ! reply_index s = r"
  by (cases "reply_index s < length (replies s)") (auto simp flip: Cons_nth_drop_Suc)

lemma peek_ok:
  assumes "ep_ok s"
  obtains s1 where "peek_unsolicited s = Some (case oq_items (unsolicited s) of [] \<Rightarrow> None | f # _ \<Rightarrow> Some f, s1)"
    "ep_ok s1" "pending s1 = pending s" "next_output_sequence s1 = next_output_sequence s"
    "unsolicited_front s1 = (case oq_items (unsolicited s1) of [] \<Rightarrow> None | f # _ \<Rightarrow> Some f)"
    "oq_items (unsolicited s1) = oq_items (unsolicited s)"
proof (cases "unsolicited_front s")
  case (Some f)
  then obtain xs ys where "segs (unsolicited s) (f # xs) ys" using ep_okD(2) [OF assms] by (auto simp: front_ok_def)
  with segs_items have "oq_items (unsolicited s) = f # xs @ ys" by fastforce
  with that [of s] assms Some show ?thesis by (simp add: peek_unsolicited_def)
next
  case None
  obtain xs ys where sg: "segs (unsolicited s) xs ys" "capacity (unsolicited s) < 2 ^ 32"
    using ep_okD(1) [OF assms] by (auto simp: oq_ok_def)
  note i = segs_items [OF sg(1)]
  obtain q' xs' ys' where f: "oq_front (unsolicited s) = Some (case xs @ ys of [] \<Rightarrow> None | f # _ \<Rightarrow> Some f, q')"
    "capacity q' = capacity (unsolicited s)" "segs q' xs' ys'" "xs' @ ys' = xs @ ys" "xs' = [] \<longrightarrow> ys' = []"
    using oq_front_segs [OF sg(1)] by blast
  let ?f = "case xs @ ys of [] \<Rightarrow> None | f # _ \<Rightarrow> Some f"
  let ?s = "s\<lparr>unsolicited := q', unsolicited_front := ?f\<rparr>"
  have i': "oq_items q' = oq_items (unsolicited s)" using segs_items [OF f(3)] f(4) i by simp
  have ok': "oq_ok q'" using f(2,3) sg(2) by (auto simp: oq_ok_def)
  have zero: "unsolicited_front_offset s = 0" using ep_okD(2) [OF assms] None by (simp add: front_ok_def)
  have front: "front_ok ?s"
  proof (cases xs')
    case Nil
    with f(4,5) have "xs @ ys = []" by auto
    then show ?thesis by (simp add: front_ok_def zero)
  next
    case (Cons g zs)
    then have "xs @ ys = g # zs @ ys'" using f(4) by simp
    moreover have "snd g \<noteq> []" using assms i calculation by (auto simp: ep_ok_def)
    ultimately show ?thesis using f(3) Cons zero by (auto simp: front_ok_def)
  qed
  have "ep_ok ?s" using assms i' ok' front by (simp add: ep_ok_def sequences_ok_def)
  moreover have "pending ?s = pending s" by (simp add: pending_def reply_frames_def push_frames_def i')
  ultimately show ?thesis
    using that [of ?s] f(1) None i i' by (simp add: peek_unsolicited_def)
qed

lemma send_push_ok:
  assumes ok: "ep_ok s" and f: "unsolicited_front s = Some f"
    and w: "0 < w" "w \<le> length (snd f) - unsolicited_front_offset s"
  shows "ep_ok (send_push s f w)"
    and "push_frames (send_push s f w) =
      (if unsolicited_front_offset s + w = length (snd f) then tl (push_frames s)
       else (fst f, drop (unsolicited_front_offset s + w) (snd f)) # tl (push_frames s))"
    and "reply_frames (send_push s f w) = reply_frames s"
proof -
  obtain xs ys where sg: "segs (unsolicited s) (f # xs) ys" "unsolicited_front_offset s < length (snd f)"
    using ep_okD(2) [OF ok] f by (auto simp: front_ok_def)
  note i = segs_items [OF sg(1)]
  let ?q = "pop_front (unsolicited s) (length (snd f))"
  obtain xs2 ys2 where p: "segs ?q xs2 ys2" "xs2 @ ys2 = xs @ ys" using segs_pop [OF sg(1)] by metis
  have qi: "oq_items ?q = xs @ ys" using segs_items [OF p(1)] p(2) by simp
  have qok: "oq_ok ?q" using p(1) ep_okD(1) [OF ok] by (auto simp: oq_ok_def)
  show "ep_ok (send_push s f w)"
  proof (cases "unsolicited_front_offset s + w = length (snd f)")
    case True
    then show ?thesis
      using ok f i qi qok by (auto simp: send_push_def Let_def consume_unsolicited_front_def ep_ok_def front_ok_def sequences_ok_def)
  next
    case False
    then show ?thesis
      using ok f sg w by (auto simp: send_push_def Let_def ep_ok_def front_ok_def sequences_ok_def)
  qed
  show "push_frames (send_push s f w) =
      (if unsolicited_front_offset s + w = length (snd f) then tl (push_frames s)
       else (fst f, drop (unsolicited_front_offset s + w) (snd f)) # tl (push_frames s))"
  proof (cases "xs @ ys")
    case Nil
    then show ?thesis by (auto simp: push_frames_def send_push_def Let_def consume_unsolicited_front_def f i qi)
  next
    case (Cons g gs)
    then show ?thesis by (auto simp: push_frames_def send_push_def Let_def consume_unsolicited_front_def f i qi)
  qed
  show "reply_frames (send_push s f w) = reply_frames s"
    by (simp add: reply_frames_def send_push_def Let_def consume_unsolicited_front_def)
qed

lemma push_sent:
  assumes ok: "ep_ok s" and f: "unsolicited_front s = Some f"
    and first: "\<not> has_pending_regular_output s \<or> fst f < rb_sequence (replies s ! reply_index s)"
    and w: "0 < w" "w \<le> length (snd f) - unsolicited_front_offset s"
  shows "take w (drop (unsolicited_front_offset s) (snd f)) @ pending (send_push s f w) = pending s"
proof -
  let ?o = "unsolicited_front_offset s"
  obtain xs ys where sg: "segs (unsolicited s) (f # xs) ys" using ep_okD(2) [OF ok] f by (auto simp: front_ok_def)
  have pf: "push_frames s = (fst f, drop ?o (snd f)) # xs @ ys" using segs_items [OF sg] by (simp add: push_frames_def)
  have hd: "reply_frames s = [] \<or> \<not> fst (hd (reply_frames s)) < fst f"
  proof (cases "waiting s")
    case (Cons r rs)
    then have "r = replies s ! reply_index s" "has_pending_regular_output s"
      using waiting_Cons [OF Cons] by (simp_all add: has_pending_regular_output_def)
    with first Cons show ?thesis by (simp add: reply_frames_def not_less less_imp_le)
  qed (simp add: reply_frames_def)
  have m: "merge (reply_frames s) (p # ps) = p # merge (reply_frames s) ps" if "fst p = fst f" for p ps
    using hd that by (cases "reply_frames s") auto
  have "drop ?o (snd f) = take w (drop ?o (snd f)) @ drop (?o + w) (snd f)"
    by (simp add: add.commute flip: drop_drop)
  with w show ?thesis
    by (auto simp: pending_def send_push_ok [OF ok f w] pf m)
qed

lemma advance_reply_eq:
  "length rs \<le> n + i \<Longrightarrow> drop (advance_reply n rs off i) rs = dropWhile (\<lambda>r. end_offset r \<le> off) (drop i rs) \<and>
     advance_reply n rs off i \<le> max i (length rs)"
proof (induction n rs off i rule: advance_reply.induct)
  case (2 n rs off i)
  show ?case
  proof (cases "i < length rs")
    case True
    then have "drop i rs = rs ! i # drop (Suc i) rs" by (simp add: Cons_nth_drop_Suc)
    with 2 True show ?thesis by auto
  qed auto
qed auto

lemma last_reply_from_bound:
  "i < length rs \<Longrightarrow> i \<le> last_reply_from n rs push i \<and> last_reply_from n rs push i < length rs \<and>
   (\<forall>k. i < k \<and> k \<le> last_reply_from n rs push i \<longrightarrow> push = None \<or> rb_sequence (rs ! k) < fst (the push))"
proof (induction n rs push i rule: last_reply_from.induct)
  case (2 n rs push i)
  show ?case
  proof (cases "i + 1 < length rs \<and> required_kafka_offset (rs ! (i + 1)) = 0 \<and>
         (push = None \<or> rb_sequence (rs ! (i + 1)) < fst (the push))")
    case True
    with 2 show ?thesis by (auto) (metis Suc_lessI)+
  qed (use 2 in auto)
qed auto

lemma dropWhile_ends:
  assumes "ends_ok off G n" "off \<le> m" "m \<le> n"
  shows "ends_ok m (dropWhile (\<lambda>r. end_offset r \<le> m) G) n"
  using assms
proof (induction off G n rule: ends_ok.induct)
  case (2 off r rs n)
  then show ?case by (cases "end_offset r \<le> m") auto
qed simp

text \<open>The replies up to the last one chosen go out as one piece; what is cut off its front is gone.\<close>

lemma cut_sent:
  assumes "ends_ok off (G @ T) n" "G \<noteq> []" "e = end_offset (last G)" "off + w \<le> e" "n \<le> length out"
  defines "G' \<equiv> dropWhile (\<lambda>r. end_offset r \<le> off + w) G"
  shows "dropWhile (\<lambda>r. end_offset r \<le> off + w) (G @ T) = G' @ T"
    and "ends_ok (off + w) (G' @ T) n"
    and "cut out (off + w) (G' @ T) = cut out (off + w) G' @ cut out e T"
    and "take w (substr out off (e - off)) @ concat (map snd (cut out (off + w) G')) = concat (map snd (cut out off G))"
proof -
  have e: "ends_ok off G e" "ends_ok e T n" "e \<le> n" "off \<le> e"
    using assms(1-3) ends_ok_append [of off G T n] ends_ok_le by auto
  have stop: "end_offset r > off + w" if "T = r # rs" for r rs using e(2) that assms(4) by simp
  show dw: "dropWhile (\<lambda>r. end_offset r \<le> off + w) (G @ T) = G' @ T"
  proof (cases "\<forall>r \<in> set G. end_offset r \<le> off + w")
    case True
    then have "G' = []" by (simp add: G'_def)
    moreover have "dropWhile (\<lambda>r. end_offset r \<le> off + w) T = T" using stop by (cases T) auto
    ultimately show ?thesis using True by (simp add: dropWhile_append2)
  next
    case False
    then show ?thesis by (auto simp: G'_def dropWhile_append1)
  qed
  show "ends_ok (off + w) (G' @ T) n"
    using dropWhile_ends [OF assms(1), of "off + w"] dw assms(4) e(3) by simp
  have g: "ends_ok (off + w) G' e" using dropWhile_ends [OF e(1), of "off + w"] assms(4) by (simp add: G'_def)
  have last: "(if G' = [] then off + w else end_offset (last G')) = e"
  proof (cases "G' = []")
    case True
    with g show ?thesis by simp
  next
    case False
    have "last G' = last G" using False unfolding G'_def by (metis dropWhile_eq_drop last_drop drop_eq_Nil linorder_not_less)
    with False assms(3) show ?thesis by simp
  qed
  then show "cut out (off + w) (G' @ T) = cut out (off + w) G' @ cut out e T" by (simp add: cut_append)
  have "concat (map snd (cut out off G)) = substr out off (e - off)" using concat_cut [OF e(1)] e(3) assms(5) by simp
  also have "\<dots> = substr out off w @ substr out (off + w) (e - (off + w))"
    using substr_add [of out off w "e - (off + w)"] assms(4) by simp
  also have "substr out (off + w) (e - (off + w)) = concat (map snd (cut out (off + w) G'))"
    using concat_cut [OF g] e(3) assms(5) by simp
  also have "substr out off w = take w (substr out off (e - off))" using assms(4) by (simp add: substr_def min_def)
  finally show "take w (substr out off (e - off)) @ concat (map snd (cut out (off + w) G')) = concat (map snd (cut out off G))"
    by simp
qed

text \<open>Every reply that is chosen comes before the next push.\<close>

lemma chosen_before_push:
  assumes ok: "ep_ok s" and pend: "has_pending_regular_output s"
    and push: "push = (case oq_items (unsolicited s) of [] \<Rightarrow> None | f # _ \<Rightarrow> Some f)"
    and first: "push \<noteq> None \<longrightarrow> \<not> fst (the push) < rb_sequence (replies s ! reply_index s)"
    and L: "L = last_reply_from (length (replies s)) (replies s) push (reply_index s)"
  shows "\<forall>r \<in> set (take (Suc L - reply_index s) (waiting s)). push_frames s = [] \<or> rb_sequence r < fst (hd (push_frames s))"
proof (cases "oq_items (unsolicited s)")
  case (Cons f fs)
  let ?i = "reply_index s" and ?rs = "replies s"
  have i: "?i < length ?rs" using pend by (simp add: has_pending_regular_output_def)
  note b = last_reply_from_bound [OF i, of "length ?rs" push, folded L]
  have pf: "push = Some f" "fst (hd (push_frames s)) = fst f" using push Cons by (simp_all add: push_frames_def)
  have lt: "rb_sequence (?rs ! k) < fst f" if k: "?i \<le> k" "k \<le> L" for k
  proof (cases "k = ?i")
    case True
    have "rb_sequence (?rs ! ?i) \<in> set (map rb_sequence (waiting s))" using i by (simp flip: Cons_nth_drop_Suc)
    then have "rb_sequence (?rs ! ?i) \<noteq> fst f" using ep_okD(5) [OF ok] Cons by (auto simp: sequences_ok_def)
    with True first pf(1) show ?thesis by simp
  qed (use b k pf(1) in auto)
  have "\<exists>k. ?i \<le> k \<and> k \<le> L \<and> r = ?rs ! k" if r: "r \<in> set (take (Suc L - ?i) (waiting s))" for r
  proof -
    obtain j where "j < length (take (Suc L - ?i) (waiting s))" "r = take (Suc L - ?i) (waiting s) ! j"
      using r by (auto simp: in_set_conv_nth)
    with i b show ?thesis by (intro exI [of _ "?i + j"]) auto
  qed
  with lt pf(2) show ?thesis by fastforce
qed (simp add: push_frames_def)

lemma merge_cut:
  "\<forall>r \<in> set G. ps = [] \<or> rb_sequence r < fst (hd ps) \<Longrightarrow>
   merge (cut out off G @ bs) ps = cut out off G @ merge bs ps"
proof (induction out off G rule: cut.induct)
  case (2 out off r rs)
  then show ?case by (cases ps) simp_all
qed simp

lemma regular_sent:
  assumes ok: "ep_ok s" and pend: "has_pending_regular_output s"
    and push: "push = (case oq_items (unsolicited s) of [] \<Rightarrow> None | f # _ \<Rightarrow> Some f)"
    and first: "push \<noteq> None \<longrightarrow> \<not> fst (the push) < rb_sequence (replies s ! reply_index s)"
    and L: "L = last_reply_from (length (replies s)) (replies s) push (reply_index s)"
    and bytes: "bytes = substr (ep_output s) (output_offset s) (end_offset (replies s ! L) - output_offset s)"
    and w: "w \<le> length bytes"
  shows "ep_ok (send_regular s w) \<and> take w bytes @ pending (send_regular s w) = pending s"
proof -
  let ?i = "reply_index s" and ?rs = "replies s" and ?out = "ep_output s" and ?off = "output_offset s"
  have i: "?i < length ?rs" using pend by (simp add: has_pending_regular_output_def)
  note b = last_reply_from_bound [OF i, of "length ?rs" push, folded L]
  define G T where "G = take (Suc L - ?i) (waiting s)" and "T = drop (Suc L - ?i) (waiting s)"
  have GT: "waiting s = G @ T" unfolding G_def T_def by (rule append_take_drop_id [symmetric])
  have lenG: "length G = Suc L - ?i" using b i by (auto simp: G_def)
  have G: "G \<noteq> []" "last G = ?rs ! L" using lenG b i by (auto simp: last_conv_nth G_def)
  have ends: "ends_ok ?off (G @ T) (length ?out)" using ep_okD(4) [OF ok] GT by simp
  have w': "?off + w \<le> end_offset (last G)"
  proof -
    have "?off \<le> end_offset (last G)" using ends G(1) ends_ok_append [of ?off G T] ends_ok_le by auto
    with w G(2) show ?thesis by (auto simp: bytes substr_def)
  qed
  define G' where "G' = dropWhile (\<lambda>r. end_offset r \<le> ?off + w) G"
  note c = cut_sent [OF ends G(1) refl w' le_refl, folded G'_def]
  let ?s = "send_regular s w"
  have adv: "drop (reply_index ?s) (replies ?s) = G' @ T" "reply_index ?s \<le> length (replies ?s)"
    using advance_reply_eq [of ?rs "length ?rs" ?i "?off + w"] GT c(1) i by (simp_all add: send_regular_def Let_def)
  have same: "ep_output ?s = ?out" "output_offset ?s = ?off + w" "unsolicited ?s = unsolicited s"
    "next_output_sequence ?s = next_output_sequence s" "unsolicited_front ?s = unsolicited_front s"
    "unsolicited_front_offset ?s = unsolicited_front_offset s"
    by (simp_all add: send_regular_def Let_def)
  have "G @ T = takeWhile (\<lambda>r. end_offset r \<le> ?off + w) G @ G' @ T" by (simp add: G'_def flip: append_assoc)
  from arg_cong [OF this, of "map rb_sequence"] have sub: "map rb_sequence (G @ T) =
      map rb_sequence (takeWhile (\<lambda>r. end_offset r \<le> ?off + w) G) @ map rb_sequence (G' @ T)"
    by (simp only: map_append)
  have seq: "sequences_ok ?s"
    using ep_okD(5) [OF ok] unfolding sequences_ok_def adv(1) same GT sub by (auto simp: sorted_wrt_append)
  have front: "front_ok ?s" using ep_okD(2) [OF ok] by (auto simp: front_ok_def same split: option.splits)
  have ok': "ep_ok ?s" using ok front seq adv c(2) by (simp add: ep_ok_def same)
  have lt: "\<forall>r \<in> set G. push_frames s = [] \<or> rb_sequence r < fst (hd (push_frames s))"
    unfolding G_def by (rule chosen_before_push [OF ok pend push first L])
  have pfs: "push_frames ?s = push_frames s" by (simp add: push_frames_def same)
  have lt': "\<forall>r \<in> set G'. push_frames s = [] \<or> rb_sequence r < fst (hd (push_frames s))"
    using lt by (auto simp: G'_def dest!: set_dropWhileD)
  note m1 = merge_cut [OF lt] and m2 = merge_cut [OF lt']
  have rf: "reply_frames s = cut ?out ?off G @ cut ?out (end_offset (last G)) T" "reply_frames ?s = cut ?out (?off + w) (G' @ T)"
    using G(1) by (simp_all add: reply_frames_def GT cut_append adv(1) same)
  have "take w bytes @ pending ?s = pending s"
    unfolding pending_def rf pfs c(3) m1 m2 using c(4) by (simp add: bytes G(2))
  with ok' show ?thesis by blast
qed

lemma backpressure_ok:
  "ep_ok (update_read_backpressure mx res s) = ep_ok s" "pending (update_read_backpressure mx res s) = pending s"
  "next_output_sequence (update_read_backpressure mx res s) = next_output_sequence s"
  by (auto simp: update_read_backpressure_def ep_ok_def front_ok_def sequences_ok_def pending_def reply_frames_def push_frames_def
      split: option.splits)

lemma shifted_boundary:
  "rb_sequence (r\<lparr>end_offset := n\<rparr>) = rb_sequence r" "end_offset (r\<lparr>end_offset := n\<rparr>) = n"
  by simp_all

lemma cut_shift:
  assumes "ends_ok off rs n" "d \<le> off"
  shows "cut (drop d out) (off - d) (map (\<lambda>r. r\<lparr>end_offset := end_offset r - d\<rparr>) rs) = cut out off rs \<and>
   ends_ok (off - d) (map (\<lambda>r. r\<lparr>end_offset := end_offset r - d\<rparr>) rs) (n - d)"
  using assms
proof (induction rs arbitrary: off)
  case Nil
  then show ?case by (simp only: list.map cut.simps ends_ok.simps simp_thms)
next
  case (Cons r rs)
  have le: "off < end_offset r" "d \<le> end_offset r" "ends_ok (end_offset r) rs n" using Cons.prems by simp_all
  have "end_offset r - d - (off - d) = end_offset r - off" using Cons.prems(2) le by simp
  then have "substr (drop d out) (off - d) (end_offset r - d - (off - d)) = substr out off (end_offset r - off)"
    using Cons.prems(2) by (simp add: substr_def)
  moreover have "off - d < end_offset r - d" by (rule diff_less_mono [OF le(1) Cons.prems(2)])
  ultimately show ?case using Cons.IH [OF le(3,2)]
    by (simp only: cut.simps ends_ok.simps list.map shifted_boundary simp_thms)
qed

lemma compact_output_ok:
  assumes "ep_ok s"
  shows "ep_ok (compact_output_if_needed s) \<and> pending (compact_output_if_needed s) = pending s \<and>
    next_output_sequence (compact_output_if_needed s) = next_output_sequence s"
proof -
  note e = ep_okD [OF assms]
  let ?c = "compact_output_if_needed s"
  have "?c = s \<or> output_offset s \<ge> length (ep_output s) \<and>
        ?c = s\<lparr>ep_output := [], output_offset := 0, replies := [], reply_index := 0\<rparr> \<or>
      ?c = s\<lparr>ep_output := drop (output_offset s) (ep_output s),
          replies := map (\<lambda>r. r\<lparr>end_offset := end_offset r - output_offset s\<rparr>) (waiting s), reply_index := 0, output_offset := 0\<rparr>"
    by (simp add: compact_output_if_needed_def Let_def)
  then consider (keep) "?c = s"
    | (all) "output_offset s \<ge> length (ep_output s)"
        "?c = s\<lparr>ep_output := [], output_offset := 0, replies := [], reply_index := 0\<rparr>"
    | (some) "?c = s\<lparr>ep_output := drop (output_offset s) (ep_output s),
          replies := map (\<lambda>r. r\<lparr>end_offset := end_offset r - output_offset s\<rparr>) (waiting s), reply_index := 0, output_offset := 0\<rparr>"
    by blast
  then show ?thesis
  proof cases
    case keep
    with assms show ?thesis by simp
  next
    case all
    have "waiting s = []"
      using e(4) all(1) ends_ok_le by (cases "waiting s") (auto, fastforce)
    then show ?thesis
      using assms unfolding all(2)
      by (auto simp: ep_ok_def front_ok_def sequences_ok_def pending_def reply_frames_def push_frames_def split: option.splits)
  next
    case some
    show ?thesis
      using assms cut_shift [OF e(4) le_refl, of "ep_output s"] unfolding some
      by (auto simp: ep_ok_def front_ok_def sequences_ok_def pending_def reply_frames_def push_frames_def comp_def split: option.splits)
  qed
qed

definition wrote :: "endpoint \<Rightarrow> string \<Rightarrow> endpoint \<Rightarrow> bool" where
  "wrote s sent s' \<longleftrightarrow> ep_ok s' \<and> sent @ pending s' = pending s \<and> next_output_sequence s' = next_output_sequence s"

lemma wrote_idle:
  "ep_ok s \<Longrightarrow> wrote s [] s"
  "ep_ok s \<Longrightarrow> wrote s [] (update_read_backpressure mx res (compact_output_if_needed s))"
  using compact_output_ok [of s] by (simp_all add: wrote_def backpressure_ok)

lemma wrote_trans: "wrote s a s' \<Longrightarrow> wrote s' b s'' \<Longrightarrow> wrote s (a @ b) s''"
  by (auto simp: wrote_def)

lemma offer_sent:
  assumes ok: "ep_ok s" and front: "unsolicited_front s = push"
    and push: "push = (case oq_items (unsolicited s) of [] \<Rightarrow> None | f # _ \<Rightarrow> Some f)"
    and o: "offer s push = Some (is_push, bytes)" and w: "0 < w" "w \<le> length bytes"
  shows "wrote s (take w bytes) (if is_push then send_push s (the push) w else send_regular s w)"
proof (cases is_push)
  case True
  then obtain f where f: "push = Some f" "bytes = drop (unsolicited_front_offset s) (snd f)"
    "\<not> has_pending_regular_output s \<or> fst f < rb_sequence (replies s ! reply_index s)"
    using o by (auto simp: offer_def Let_def split: if_splits)
  have "unsolicited_front s = Some f" using front f(1) by simp
  with push_sent [OF ok this f(3) w(1)] send_push_ok(1) [OF ok this w(1)] w(2) f True
  show ?thesis by (auto simp: wrote_def send_push_def Let_def consume_unsolicited_front_def)
next
  case False
  let ?L = "last_reply_from (length (replies s)) (replies s) push (reply_index s)"
  have b: "bytes = substr (ep_output s) (output_offset s) (end_offset (replies s ! ?L) - output_offset s)"
    and r: "has_ready_regular_output s" "push \<noteq> None \<longrightarrow> \<not> fst (the push) < rb_sequence (replies s ! reply_index s)"
    using o False by (auto simp: offer_def Let_def has_ready_regular_output_def split: if_splits)
  have p: "has_pending_regular_output s" using r(1) by (simp add: has_ready_regular_output_def)
  show ?thesis
    using regular_sent [OF ok p push r(2) refl b w(2)] False by (simp add: wrote_def send_regular_def Let_def)
qed

lemma write_loop_ok:
  "ep_ok s \<Longrightarrow> \<exists>r sent s'. write_loop mx res ios s = Some (r, sent, s') \<and> wrote s sent s'"
proof (induction ios arbitrary: s)
  case Nil
  obtain s1 where p: "peek_unsolicited s = Some (case oq_items (unsolicited s) of [] \<Rightarrow> None | f # _ \<Rightarrow> Some f, s1)"
    "ep_ok s1" "pending s1 = pending s" "next_output_sequence s1 = next_output_sequence s" using peek_ok [OF Nil] by metis
  have "wrote s [] s1" using p by (simp add: wrote_def)
  with p wrote_trans [OF this wrote_idle(2) [OF p(2)]] show ?case
    unfolding write_loop.simps [of mx res "[]" s] by (auto simp: Let_def split: option.split)
next
  case (Cons io ios)
  let ?push = "case oq_items (unsolicited s) of [] \<Rightarrow> None | f # _ \<Rightarrow> Some f"
  obtain s1 where p: "peek_unsolicited s = Some (?push, s1)" "ep_ok s1" "pending s1 = pending s"
    "next_output_sequence s1 = next_output_sequence s"
    "unsolicited_front s1 = (case oq_items (unsolicited s1) of [] \<Rightarrow> None | f # _ \<Rightarrow> Some f)"
    "oq_items (unsolicited s1) = oq_items (unsolicited s)"
    using peek_ok [OF Cons.prems] by metis
  have s1: "wrote s [] s1" using p by (simp add: wrote_def)
  note idle = wrote_trans [OF s1 wrote_idle(2) [OF p(2)], simplified]
  have sent: "\<exists>r sent s'. map_option (\<lambda>(r, sent, s). (r, take w bytes @ sent, s))
      (write_loop mx res ios (update_read_backpressure mx res s2)) = Some (r, sent, s') \<and> wrote s sent s'"
    if "wrote s1 (take w bytes) s2" for s2 w bytes
  proof -
    let ?s2 = "update_read_backpressure mx res s2"
    have 2: "wrote s1 (take w bytes) ?s2" using that by (simp add: wrote_def backpressure_ok)
    then obtain r sent s' where "write_loop mx res ios ?s2 = Some (r, sent, s')" "wrote ?s2 sent s'"
      using Cons.IH [of ?s2] by (auto simp: wrote_def)
    with wrote_trans [OF wrote_trans [OF s1 2]] show ?thesis by auto
  qed
  show ?case
  proof (cases "has_writable_output s1 ?push")
    case True
    show ?thesis
    proof (cases "offer s1 ?push")
      case None
      with True p(1) s1 show ?thesis unfolding write_loop.simps [of mx res "io # ios" s] by simp
    next
      case (Some o')
      obtain is_push bytes where o: "offer s1 ?push = Some (is_push, bytes)" using Some by (cases o') auto
      have step: "0 < w \<Longrightarrow> w \<le> length bytes \<Longrightarrow>
          wrote s1 (take w bytes) (if is_push then send_push s1 (the ?push) w else send_regular s1 w)" for w
        by (rule offer_sent [OF p(2) _ _ o]) (simp_all only: p(5,6))
      show ?thesis
      proof (cases io)
        case (Progress n)
        show ?thesis
        proof (cases "min n (length bytes) > 0")
          case pos: True
          show ?thesis
            using sent [OF step [OF pos]] True p(1) o Progress pos
            unfolding write_loop.simps [of mx res "io # ios" s] by (simp add: Let_def)
        next
          case False
          with True p(1) o Progress s1 show ?thesis unfolding write_loop.simps [of mx res "io # ios" s] by (auto simp: Let_def)
        qed
      next
        case Interrupted
        obtain r sent s' where "write_loop mx res ios s1 = Some (r, sent, s')" "wrote s1 sent s'"
          using Cons.IH [OF p(2)] by blast
        with True p(1) o Interrupted wrote_trans [OF s1] show ?thesis unfolding write_loop.simps [of mx res "io # ios" s] by auto
      qed (use True p(1) o idle s1 in \<open>simp_all add: write_loop.simps [of mx res "_ # ios" s]\<close>)
    qed
  next
    case False
    then have "write_loop mx res (io # ios) s =
        (let s = update_read_backpressure mx res (compact_output_if_needed s1)
         in Some (Returned (\<not> close_after_write s), [], s))"
      unfolding write_loop.simps [of mx res "io # ios" s] p(1) by simp
    with idle [of mx res] show ?thesis unfolding Let_def by blast
  qed
qed

section \<open>Recording replies and pushes\<close>

lemma cut_take: "ends_ok off rs n \<Longrightarrow> n \<le> length out \<Longrightarrow> cut (out @ b) off rs = cut out off rs"
proof (induction off rs n rule: ends_ok.induct)
  case (2 off r rs n)
  then have "end_offset r \<le> length out" using ends_ok_le [of "end_offset r" rs n] by simp
  with 2 show ?case by (auto simp: substr_def)
qed simp

lemma waiting_snoc: "reply_index s \<le> length (replies s) \<Longrightarrow> drop (reply_index s) (replies s @ [r]) = waiting s @ [r]"
  by simp

text \<open>What an event may do to the connection: keep the invariant, add the accepted bytes behind what is
  waiting, and use at most one sequence number.\<close>

definition accepted :: "endpoint \<Rightarrow> string \<Rightarrow> endpoint \<Rightarrow> bool" where
  "accepted s b s' \<longleftrightarrow> ep_ok s' \<and> pending s' = pending s @ b \<and>
     (next_output_sequence s' = next_output_sequence s \<or> next_output_sequence s' = next_output_sequence s + 1)"

lemma word_less_Suc:
  assumes "(x :: u64) \<le> y" "Suc (unat y) < 2 ^ 64"
  shows "x < y + 1"
proof -
  from assms(2) have "unat (y + 1) = unat y + 1" by (simp add: unat_word_ariths)
  with assms(1) show ?thesis by (simp add: word_less_nat_alt word_le_nat_alt)
qed

lemma front_ok_cong:
  "unsolicited s' = unsolicited s \<Longrightarrow> unsolicited_front s' = unsolicited_front s \<Longrightarrow>
   unsolicited_front_offset s' = unsolicited_front_offset s \<Longrightarrow> front_ok s' = front_ok s"
  by (simp add: front_ok_def cong: option.case_cong)

lemma reply_recorded:
  assumes ok: "ep_ok s" and sq: "Suc (unat (next_output_sequence s)) < 2 ^ 64"
  shows "accepted s b (ep_record_reply (s\<lparr>ep_output := ep_output s @ b\<rparr>) (length (ep_output s)))"
proof (cases "b = []")
  case True
  then show ?thesis using ok by (simp add: ep_record_reply_def accepted_def)
next
  case False
  let ?r = "\<lparr>rb_sequence = next_output_sequence s, reply_to = active_request_sequence s,
    end_offset = length (ep_output s) + length b, required_kafka_offset = next_reply_kafka_offset s\<rparr>"
  let ?s = "s\<lparr>ep_output := ep_output s @ b, replies := replies s @ [?r],
    next_output_sequence := next_output_sequence s + 1, next_reply_kafka_offset := 0\<rparr>"
  note e = ep_okD [OF ok]
  have s: "ep_record_reply (s\<lparr>ep_output := ep_output s @ b\<rparr>) (length (ep_output s)) = ?s"
    using False by (simp add: ep_record_reply_def)
  have w: "waiting ?s = waiting s @ [?r]" using e(3) by simp
  have last: "(if waiting s = [] then output_offset s else end_offset (last (waiting s))) = length (ep_output s)"
    using e(4) ends_ok_append [of "output_offset s" "waiting s" "[]" "length (ep_output s)"] by (auto split: if_splits)
  have ends: "ends_ok (output_offset s) (waiting s @ [?r]) (length (ep_output s @ b))"
    using e(4) False unfolding ends_ok_append last by simp
  have seq: "sequences_ok ?s"
    using e(5) word_less_Suc [OF _ sq] unfolding sequences_ok_def w
    by (auto simp: sorted_wrt_append) (metis Un_iff imageI less_imp_le fst_conv)+
  have "ep_ok ?s" using ok ends seq e(3) front_ok_cong [of ?s s] by (simp add: ep_ok_def w)
  moreover have "cut (ep_output s @ b) (output_offset s) (waiting s @ [?r]) =
      cut (ep_output s) (output_offset s) (waiting s) @ [(next_output_sequence s, b)]"
    unfolding cut_append last cut_take [OF e(4) le_refl] by (simp add: substr_def)
  then have rf: "reply_frames ?s = reply_frames s @ [(next_output_sequence s, b)]"
    unfolding reply_frames_def w by simp
  moreover have "push_frames ?s = push_frames s" by (simp add: push_frames_def)
  moreover have "\<forall>p \<in> set (push_frames s). fst p < next_output_sequence s"
    using e(5) by (cases "oq_items (unsolicited s)") (auto simp: push_frames_def sequences_ok_def)
  ultimately show ?thesis by (simp add: s accepted_def pending_def merge_snoc_left)
qed

lemma push_recorded:
  assumes ok: "ep_ok s" and sq: "Suc (unat (next_output_sequence s)) < 2 ^ 64" and b: "b \<noteq> []"
    and e: "enqueue s b = (okay, s')"
  shows "accepted s (if okay then b else []) s'"
proof (cases "oq_push (unsolicited s) (next_output_sequence s, b)")
  case (Pair r q)
  note o = ep_okD [OF ok]
  show ?thesis
  proof (cases r)
    case False
    then have "s' = s\<lparr>close_requested := True\<rparr>" "\<not> okay"
      using e Pair oq_push_refused [of "unsolicited s" "(next_output_sequence s, b)" q] by (auto simp: enqueue_def)
    then show ?thesis
      using ok front_ok_cong [of s' s]
      by (simp add: accepted_def ep_ok_def sequences_ok_def pending_def reply_frames_def push_frames_def)
  next
    case True
    with e Pair have s': "s' = s\<lparr>unsolicited := q, next_output_sequence := next_output_sequence s + 1\<rparr>" "okay"
      by (auto simp: enqueue_def)
    let ?f = "(next_output_sequence s, b)"
    have p: "oq_push (unsolicited s) ?f = (True, q)" using Pair True by simp
    have i: "oq_ok q" "oq_items q = oq_items (unsolicited s) @ [?f]"
      using pushes.put_inv [OF o(1), of ?f q] pushes.put_items [OF o(1), of ?f q] p by (auto simp: oq_put_def)
    have front: "front_ok s'"
    proof (cases "unsolicited_front s")
      case None
      with o(2) show ?thesis by (simp add: front_ok_def s')
    next
      case (Some f)
      with o(2) obtain xs ys where sg: "segs (unsolicited s) (f # xs) ys" and off: "unsolicited_front_offset s < length (snd f)"
        by (auto simp: front_ok_def)
      have "frame_ok ?f" using oq_push_length [OF p] o(1) by (simp add: frame_ok_def kWrapRecord_def oq_ok_def)
      with oq_push_segs [OF sg _ p] obtain zs ys' where "segs q (f # xs @ zs) ys'" by auto
      with Some off show ?thesis by (auto simp: front_ok_def s')
    qed
    have seq: "sequences_ok s'"
      using o(5) word_less_Suc [OF _ sq] unfolding sequences_ok_def s'
      by (auto simp: i(2) sorted_wrt_append) (metis Un_iff imageI less_imp_le fst_conv less_irrefl)+
    have "ep_ok s'" using ok i front seq b by (auto simp: ep_ok_def s')
    moreover have "reply_frames s' = reply_frames s" by (simp add: reply_frames_def s')
    moreover have "push_frames s' = push_frames s @ [?f]"
      using front o(2) by (cases "oq_items (unsolicited s)"; cases "unsolicited_front s")
        (auto simp: push_frames_def i(2) s' front_ok_def dest: segs_items)
    moreover have "\<forall>r \<in> set (reply_frames s). fst r < next_output_sequence s"
      using o(5) map_fst_cut [of "ep_output s" "output_offset s" "waiting s"]
      unfolding reply_frames_def sequences_ok_def by (metis Un_iff imageI list.set_map)
    ultimately show ?thesis using s' by (simp add: accepted_def pending_def merge_snoc_right)
  qed
qed

text \<open>Waiting for an acknowledgement and releasing it touches neither the order nor the extent of the
  replies.\<close>

lemma cut_map:
  assumes "\<And>r. rb_sequence (f r) = rb_sequence r" "\<And>r. end_offset (f r) = end_offset r"
  shows "cut out off (map f rs) = cut out off rs" "ends_ok off (map f rs) n = ends_ok off rs n"
    "map rb_sequence (map f rs) = map rb_sequence rs"
  using assms by (induction rs arbitrary: off) auto

lemma kafka_kept:
  assumes ok: "ep_ok s" and f: "\<And>r. rb_sequence (f r) = rb_sequence r" "\<And>r. end_offset (f r) = end_offset r"
  shows "accepted s [] (s\<lparr>replies := map f (replies s), next_reply_kafka_offset := k\<rparr>)"
proof -
  let ?s = "s\<lparr>replies := map f (replies s), next_reply_kafka_offset := k\<rparr>"
  have w: "waiting ?s = map f (waiting s)" by (simp add: drop_map)
  note c = cut_map [OF f]
  have "sequences_ok ?s" using ep_okD(5) [OF ok] unfolding sequences_ok_def w c(3) by simp
  then have "ep_ok ?s" using ok front_ok_cong [of ?s s] unfolding ep_ok_def w c(2) by (simp add: c(2))
  moreover have "reply_frames ?s = reply_frames s" unfolding reply_frames_def w c(1) by (simp add: c(1))
  ultimately show ?thesis by (simp add: accepted_def pending_def push_frames_def)
qed

lemma acks_kept:
  assumes "ep_ok s"
  shows "accepted s [] (require_kafka_ack s first logical)" "accepted s [] (release_kafka_ack s logical)"
proof -
  let ?f = "\<lambda>r. if rb_sequence r < first then r else r\<lparr>required_kafka_offset := max (required_kafka_offset r) logical\<rparr>"
  let ?g = "\<lambda>r. if required_kafka_offset r \<noteq> 0 \<and> required_kafka_offset r \<le> logical then r\<lparr>required_kafka_offset := 0\<rparr> else r"
  have "accepted s [] (s\<lparr>replies := map ?f (replies s), next_reply_kafka_offset := k\<rparr>)" for k
    by (rule kafka_kept [OF assms]) simp_all
  from this [of "next_reply_kafka_offset s"] this [of "max (next_reply_kafka_offset s) logical"]
  show "accepted s [] (require_kafka_ack s first logical)" by (simp add: require_kafka_ack_def Let_def)
  have "accepted s [] (s\<lparr>replies := map ?g (replies s), next_reply_kafka_offset := k\<rparr>)" for k
    by (rule kafka_kept [OF assms]) simp_all
  then show "accepted s [] (release_kafka_ack s logical)" by (simp add: release_kafka_ack_def)
qed

section \<open>The life of a connection\<close>

datatype ep_event =
    Reply string
  | Push string
  | Require_ack u64 u64
  | Release_ack u64
  | Write nat nat "io list"

text \<open>One event: the bytes accepted for sending, the bytes handed to the transport, the new state.\<close>

fun ep_step :: "ep_event \<Rightarrow> endpoint \<Rightarrow> (string \<times> string \<times> endpoint) option" where
  "ep_step (Reply b) s =
     Some (b, [], ep_record_reply (s\<lparr>ep_output := ep_output s @ b\<rparr>) (length (ep_output s)))"
| "ep_step (Push b) s = (case enqueue s b of (okay, s') \<Rightarrow> Some (if okay then b else [], [], s'))"
| "ep_step (Require_ack first logical) s = Some ([], [], require_kafka_ack s first logical)"
| "ep_step (Release_ack logical) s = Some ([], [], release_kafka_ack s logical)"
| "ep_step (Write mx res ios) s = map_option (\<lambda>(r, sent, s'). ([], sent, s')) (write_client mx res ios s)"

fun ep_run :: "ep_event list \<Rightarrow> endpoint \<Rightarrow> (string \<times> string \<times> endpoint) option" where
  "ep_run [] s = Some ([], [], s)"
| "ep_run (e # es) s =
     (case ep_step e s of
        None \<Rightarrow> None
      | Some (acc, sent, s') \<Rightarrow> map_option (\<lambda>(acc', sent', z). (acc @ acc', sent @ sent', z)) (ep_run es s'))"

fun event_ok :: "ep_event \<Rightarrow> bool" where
  "event_ok (Push b) \<longleftrightarrow> b \<noteq> []"
| "event_ok e \<longleftrightarrow> True"

definition new_endpoint :: "out_queue \<Rightarrow> endpoint" where
  "new_endpoint q =
     \<lparr>ep_output = [], output_offset = 0, replies = [], reply_index = 0, unsolicited = q,
      next_output_sequence = 1, unsolicited_front_offset = 0, unsolicited_front = None,
      close_requested = False, next_reply_kafka_offset = 0, active_request_sequence = 0,
      read_backpressured = False, close_after_write = False\<rparr>"

lemma new_endpoint_ok:
  assumes "new_out_queue n = Some q" and "n < 2 ^ 32"
  shows "ep_ok (new_endpoint q)" "pending (new_endpoint q) = []"
proof -
  have "segs q [] []" and c: "capacity q = n"
    using assms by (auto simp: new_out_queue_def segs_empty split: if_splits)
  then have "oq_ok q" "oq_items q = []" using assms(2) segs_items by (auto simp: oq_ok_def)
  then show "ep_ok (new_endpoint q)" "pending (new_endpoint q) = []"
    by (simp_all add: new_endpoint_def ep_ok_def front_ok_def sequences_ok_def pending_def reply_frames_def push_frames_def)
qed

lemma write_client_ok:
  "ep_ok s \<Longrightarrow> \<exists>r sent s'. write_client mx res ios s = Some (r, sent, s') \<and> wrote s sent s'"
  using write_loop_ok [of s mx res ios] wrote_idle(1) [of s] by (cases "close_requested s") (auto simp: write_client_def)

lemma ep_step_ok:
  assumes ok: "ep_ok s" "event_ok e" and sq: "Suc (unat (next_output_sequence s)) < 2 ^ 64"
  shows "\<exists>acc sent s'. ep_step e s = Some (acc, sent, s') \<and> ep_ok s' \<and> pending s @ acc = sent @ pending s' \<and>
    unat (next_output_sequence s') \<le> Suc (unat (next_output_sequence s))"
proof -
  have acc: ?thesis if "ep_step e s = Some (b, [], s')" "accepted s b s'" for b s'
    using that sq by (auto simp: accepted_def unat_word_ariths)
  show ?thesis
  proof (cases e)
    case (Reply b)
    then show ?thesis using acc reply_recorded [OF ok(1) sq, of b] by simp
  next
    case (Push b)
    then show ?thesis
      using acc push_recorded [OF ok(1) sq, of b] ok(2) by (cases "enqueue s b") auto
  next
    case (Write mx res ios)
    then show ?thesis using write_client_ok [OF ok(1), of mx res ios] by (auto simp: wrote_def)
  qed (use acc acks_kept [OF ok(1)] in simp_all)
qed

lemma ep_run_ok:
  assumes "ep_ok s" "list_all event_ok es" "unat (next_output_sequence s) + length es < 2 ^ 64"
  shows "\<exists>acc sent s'. ep_run es s = Some (acc, sent, s') \<and> ep_ok s' \<and> pending s @ acc = sent @ pending s'"
  using assms
proof (induction es arbitrary: s)
  case (Cons e es)
  have "Suc (unat (next_output_sequence s)) < 2 ^ 64" using Cons.prems(3) by simp
  with ep_step_ok [OF Cons.prems(1), of e] Cons.prems(2) obtain acc sent s1 where
    1: "ep_step e s = Some (acc, sent, s1)" "ep_ok s1" "pending s @ acc = sent @ pending s1"
      "unat (next_output_sequence s1) \<le> Suc (unat (next_output_sequence s))" by auto
  have "unat (next_output_sequence s1) + length es < 2 ^ 64" using 1(4) Cons.prems(3) by simp
  with Cons.IH [OF 1(2)] Cons.prems(2) obtain acc' sent' s' where
    2: "ep_run es s1 = Some (acc', sent', s')" "ep_ok s'" "pending s1 @ acc' = sent' @ pending s'" by auto
  have "pending s @ acc @ acc' = sent @ sent' @ pending s'" using 1(3) 2(3) by (metis append_assoc)
  with 1(1) 2 show ?case by auto
qed simp

section \<open>Draining\<close>

text \<open>No reply waits for an acknowledgement.\<close>

definition ungated :: "endpoint \<Rightarrow> bool" where
  "ungated s \<longleftrightarrow> (\<forall>r \<in> set (waiting s). required_kafka_offset r = 0)"

definition progresses :: "io \<Rightarrow> bool" where
  "progresses i \<longleftrightarrow> (case i of Progress n \<Rightarrow> n > 0 | _ \<Rightarrow> False)"

lemma ends_ok_between: "ends_ok off rs n \<Longrightarrow> r \<in> set rs \<Longrightarrow> off < end_offset r \<and> end_offset r \<le> n"
proof (induction off rs n rule: ends_ok.induct)
  case (2 off r' rs n)
  then show ?case using ends_ok_le [of "end_offset r'" rs n] by auto
qed simp

abbreviation first_push :: "endpoint \<Rightarrow> frame option" where
  "first_push s \<equiv> (case oq_items (unsolicited s) of [] \<Rightarrow> None | f # _ \<Rightarrow> Some f)"

lemma peek_same:
  "peek_unsolicited s = Some (p, s1) \<Longrightarrow>
   replies s1 = replies s \<and> reply_index s1 = reply_index s \<and> close_after_write s1 = close_after_write s"
  by (auto simp: peek_unsolicited_def split: option.splits)

lemma advance_reply_ge: "i \<le> advance_reply n rs off i"
proof (induction n rs off i rule: advance_reply.induct)
  case (2 n rs off i)
  then show ?case by auto
qed simp

lemma send_same:
  "replies (send_push s f w) = replies s" "reply_index (send_push s f w) = reply_index s"
  "close_after_write (send_push s f w) = close_after_write s"
  "replies (send_regular s w) = replies s" "reply_index s \<le> reply_index (send_regular s w)"
  "close_after_write (send_regular s w) = close_after_write s"
  by (simp_all add: send_push_def consume_unsolicited_front_def send_regular_def Let_def advance_reply_ge)

lemma backpressure_same:
  "replies (update_read_backpressure mx res s) = replies s" "reply_index (update_read_backpressure mx res s) = reply_index s"
  "close_after_write (update_read_backpressure mx res s) = close_after_write s"
  by (simp_all add: update_read_backpressure_def)

lemma compact_close: "close_after_write (compact_output_if_needed s) = close_after_write s"
  by (simp add: compact_output_if_needed_def Let_def)

lemma ungated_mono:
  "ungated s \<Longrightarrow> replies s' = replies s \<Longrightarrow> reply_index s \<le> reply_index s' \<Longrightarrow> ungated s'"
  using set_drop_subset_set_drop [of "reply_index s" "reply_index s'" "replies s"] by (auto simp: ungated_def)

lemma ungated_ready: "ungated s \<Longrightarrow> has_ready_regular_output s = has_pending_regular_output s"
  unfolding ungated_def has_ready_regular_output_def has_pending_regular_output_def
  by (metis Cons_nth_drop_Suc list.set_intros(1))

lemma idle_drained:
  assumes "ep_ok s" "ungated s" "\<not> has_writable_output s (first_push s)"
  shows "pending s = []"
proof -
  from assms(3) have "\<not> has_pending_regular_output s" "oq_items (unsolicited s) = []"
    using ungated_ready [OF assms(2)] by (auto simp: has_writable_output_def split: if_splits list.splits)
  then show ?thesis by (simp add: pending_def reply_frames_def push_frames_def has_pending_regular_output_def)
qed

lemma offer_something:
  assumes ok: "ep_ok s" and u: "ungated s" and w: "has_writable_output s (first_push s)"
    and front: "unsolicited_front s = first_push s"
  obtains is_push bytes where "offer s (first_push s) = Some (is_push, bytes)" "bytes \<noteq> []"
proof (cases "first_push s \<noteq> None \<and> (\<not> has_pending_regular_output s \<or> fst (the (first_push s)) < rb_sequence (replies s ! reply_index s))")
  case True
  then obtain f where f: "first_push s = Some f" by auto
  then have "unsolicited_front_offset s < length (snd f)" using ep_okD(2) [OF ok] front by (simp add: front_ok_def)
  with that [of True] True f show ?thesis by (auto simp: offer_def)
next
  case False
  then have p: "has_pending_regular_output s" using w by (auto simp: has_writable_output_def split: if_splits)
  then have i: "reply_index s < length (replies s)" by (simp add: has_pending_regular_output_def)
  define L where "L = last_reply_from (length (replies s)) (replies s) (first_push s) (reply_index s)"
  note b = last_reply_from_bound [OF i, of "length (replies s)" "first_push s", folded L_def]
  have "replies s ! L \<in> set (waiting s)"
    using b i by (auto simp: in_set_conv_nth intro!: exI [of _ "L - reply_index s"])
  then have "output_offset s < end_offset (replies s ! L) \<and> end_offset (replies s ! L) \<le> length (ep_output s)"
    using ends_ok_between [OF ep_okD(4) [OF ok]] by blast
  with that [of False] False p ungated_ready [OF u] show ?thesis
    by (auto simp: offer_def Let_def substr_def simp flip: L_def)
qed

lemma write_loop_drains:
  "ep_ok s \<Longrightarrow> ungated s \<Longrightarrow> list_all progresses ios \<Longrightarrow> length (pending s) \<le> length ios \<Longrightarrow>
   \<exists>s'. write_loop mx res ios s = Some (Returned (\<not> close_after_write s), pending s, s') \<and> ep_ok s' \<and> pending s' = []"
proof (induction ios arbitrary: s rule: measure_induct_rule [of length])
  case (less ios)
  obtain s1 where p: "peek_unsolicited s = Some (first_push s, s1)" "ep_ok s1" "pending s1 = pending s"
    "unsolicited_front s1 = first_push s1" "oq_items (unsolicited s1) = oq_items (unsolicited s)"
    using peek_ok [OF less.prems(1)] by metis
  have fp: "first_push s1 = first_push s" by (simp only: p(5))
  note same = peek_same [OF p(1)]
  have u: "ungated s1" using ungated_mono [OF less.prems(2), of s1] same by simp
  show ?case
  proof (cases "has_writable_output s1 (first_push s)")
    case False
    then have eq: "write_loop mx res ios s =
        (let s = update_read_backpressure mx res (compact_output_if_needed s1)
         in Some (Returned (\<not> close_after_write s), [], s))"
      unfolding write_loop.simps [of mx res ios s] p(1) by simp
    have "pending s = []" using idle_drained [OF p(2) u] False fp p(3) by simp
    with eq same wrote_idle(2) [OF p(2), of mx res] p(3) show ?thesis
      by (simp add: wrote_def backpressure_same compact_close Let_def)
  next
    case True
    then have True': "has_writable_output s1 (first_push s1)" by (simp only: fp)
    obtain is_push bytes where o: "offer s1 (first_push s) = Some (is_push, bytes)" "bytes \<noteq> []"
      using offer_something [OF p(2) u True' p(4)] by (metis fp)
    have sent: "wrote s1 (take w bytes) (if is_push then send_push s1 (the (first_push s)) w else send_regular s1 w)"
      if "0 < w" "w \<le> length bytes" for w
      by (rule offer_sent [OF p(2) _ _ o(1) that]) (simp_all only: p(4,5))
    show ?thesis
    proof (cases ios)
      case Nil
      with less.prems(4) have nil: "pending s1 = []" using p(3) by simp
      have "bytes @ pending (if is_push then send_push s1 (the (first_push s)) (length bytes)
          else send_regular s1 (length bytes)) = pending s1" using sent [of "length bytes"] o(2) by (simp add: wrote_def)
      with nil o(2) show ?thesis by simp
    next
      case (Cons io ios')
      then obtain n where n: "io = Progress n" "n > 0" using less.prems(3) by (auto simp: progresses_def split: io.splits)
      let ?w = "min n (length bytes)"
      have w: "0 < ?w" "?w \<le> length bytes" using n(2) o(2) by auto
      define s2 where "s2 = (if is_push then send_push s1 (the (first_push s)) ?w else send_regular s1 ?w)"
      define s3 where "s3 = update_read_backpressure mx res s2"
      have "wrote s1 (take ?w bytes) s2"
        unfolding s2_def by (rule sent [OF w])
      then have w3: "ep_ok s3" "take ?w bytes @ pending s3 = pending s"
        using p(3) by (simp_all add: wrote_def s3_def backpressure_ok)
      have "ungated s3" "close_after_write s3 = close_after_write s"
        using ungated_mono [OF u, of s3] same send_same(5) [of s1] by (auto simp: s3_def s2_def backpressure_same send_same)
      moreover have "length (pending s3) \<le> length ios'"
      proof -
        have "?w + length (pending s3) = length (pending s)" using w(2) by (simp flip: w3(2))
        moreover have "length ios = Suc (length ios')" using Cons by simp
        ultimately show ?thesis using less.prems(4) w(1) by linarith
      qed
      ultimately obtain s' where s': "write_loop mx res ios' s3 = Some (Returned (\<not> close_after_write s), pending s3, s')"
        "ep_ok s'" "pending s' = []"
        using less.IH [of ios' s3] w3(1) less.prems(3) Cons by auto
      have "write_loop mx res ios s = map_option (\<lambda>(r, sent, s). (r, take ?w bytes @ sent, s)) (write_loop mx res ios' s3)"
        unfolding Cons n(1) write_loop.simps [of mx res "Progress n # ios'" s] p(1) using True o w
        by (simp add: Let_def s3_def s2_def)
      with s' w3(2) show ?thesis by simp
    qed
  qed
qed

section \<open>Properties\<close>

text \<open>C7: what a connection sends. From a fresh connection on, whatever replies are recorded, pushes
  accepted, acknowledgements awaited and released and however the transport takes bytes in pieces,
  blocks or is interrupted, the bytes sent so far followed by the bytes still waiting are the accepted
  replies and pushes in the order in which they were accepted: none is lost, sent twice, reordered or
  broken up by another. Every call of the writer returns.\<close>

theorem connection_output_in_order:
  assumes "new_out_queue n = Some q" and "n < 2 ^ 32" and "list_all event_ok es" and "length es < 2 ^ 64 - 1"
  shows "\<exists>acc sent s. ep_run es (new_endpoint q) = Some (acc, sent, s) \<and> sent @ pending s = acc"
proof -
  note new = new_endpoint_ok [OF assms(1,2)]
  have "unat (next_output_sequence (new_endpoint q)) + length es < 2 ^ 64" using assms(4) by (simp add: new_endpoint_def)
  with ep_run_ok [OF new(1) assms(3)] new(2) show ?thesis by fastforce
qed

definition demo_events :: "ep_event list" where
  "demo_events = [Reply ''+OK'', Push ''>msg'', Write 0 0 [Progress 2, Would_block], Reply '':1'', Write 0 0 [Progress 9]]"

theorem connection_output_in_order_witness:
  "\<exists>acc sent s q. new_out_queue 64 = Some q \<and>
     ep_run demo_events (new_endpoint q) = Some (acc, sent, s) \<and> sent @ pending s = acc"
proof -
  obtain q where "new_out_queue 64 = Some q" by (simp add: new_out_queue_def)
  with connection_output_in_order [of 64 q demo_events] show ?thesis by (auto simp: demo_events_def)
qed

text \<open>C20: a connection whose peer keeps reading is drained. If no reply waits for an acknowledgement and
  each call of the transport takes at least one byte, the writer sends all that is waiting, in order,
  leaves nothing behind and reports the connection usable unless it was to be closed after writing.\<close>

theorem write_client_drains:
  assumes "ep_ok s" and "ungated s" and "\<not> close_requested s" and "list_all progresses ios"
    and "length (pending s) \<le> length ios"
  shows "\<exists>s'. write_client mx res ios s = Some (Returned (\<not> close_after_write s), pending s, s') \<and>
    ep_ok s' \<and> pending s' = []"
  using write_loop_drains [OF assms(1,2,4,5)] assms(3) by (simp add: write_client_def)

definition demo_endpoint :: endpoint where
  "demo_endpoint = snd (enqueue (ep_record_reply (new_endpoint demo_queue\<lparr>ep_output := ''+OK''\<rparr>) 0) ''>m'')"

lemma demo_endpoint_ok: "ep_ok demo_endpoint" "ungated demo_endpoint" "\<not> close_requested demo_endpoint"
  "pending demo_endpoint = ''+OK>m''" "\<not> close_after_write demo_endpoint"
proof -
  let ?r = "ep_record_reply (new_endpoint demo_queue\<lparr>ep_output := ''+OK''\<rparr>) 0"
  have new: "new_out_queue 40 = Some demo_queue" by (simp add: new_out_queue_def demo_queue_def)
  note n = new_endpoint_ok [OF new]
  have "accepted (new_endpoint demo_queue) ''+OK'' ?r"
    using reply_recorded [of "new_endpoint demo_queue" "''+OK''"] n(1) by (simp add: new_endpoint_def)
  then have r: "ep_ok ?r" "pending ?r = ''+OK''" using n(2) by (simp_all add: accepted_def)
  obtain p where "oq_push demo_queue (2, ''>m'') = (True, p)"
    by (simp add: oq_push_def demo_queue_def kOutRecordHeaderBytes_def)
  then have e: "enqueue ?r ''>m'' = (True, ?r\<lparr>unsolicited := p, next_output_sequence := 3\<rparr>)"
    by (simp add: enqueue_def ep_record_reply_def new_endpoint_def)
  then have d: "demo_endpoint = ?r\<lparr>unsolicited := p, next_output_sequence := 3\<rparr>" by (simp add: demo_endpoint_def)
  have "Suc (unat (next_output_sequence ?r)) < 2 ^ 64" by (simp add: ep_record_reply_def new_endpoint_def)
  from push_recorded [OF r(1) this _ e] have "accepted ?r ''>m'' demo_endpoint" by (simp add: d)
  with r show "ep_ok demo_endpoint" "pending demo_endpoint = ''+OK>m''" by (simp_all add: accepted_def)
  show "ungated demo_endpoint" "\<not> close_requested demo_endpoint" "\<not> close_after_write demo_endpoint"
    by (simp_all add: d ungated_def ep_record_reply_def new_endpoint_def)
qed

theorem write_client_drains_witness:
  "\<exists>s'. write_client 0 0 (replicate 5 (Progress 3)) demo_endpoint = Some (Returned True, ''+OK>m'', s') \<and>
     ep_ok s' \<and> pending s' = []"
  using write_client_drains [of demo_endpoint "replicate 5 (Progress 3)" 0 0] demo_endpoint_ok
  by (simp add: progresses_def list_all_iff)

end
