(* ===== verification/Glob_Match.thy ===== *)
theory Glob_Match
  imports Goblin_Prelude
begin
text \<open>
  Glob patterns. First the matcher of Pub/Sub patterns (\<open>src/pubsub.cpp\<close>: \<open>match_class\<close>, \<open>match_one\<close>,
  \<open>glob_match_general\<close>, \<open>classify_pattern\<close>, \<open>match_classified\<close>, \<open>glob_match\<close>), then the matcher of the MATCH
  option of incremental scans (\<open>scan_glob_match\<close> of \<open>src/command.cpp\<close>). Both walk over pattern and value with
  two positions and remember the last star to come back to; both loops are partial functions here, and
  that they end is proved.
  The meaning of a pattern is given in \<open>Glob_Match_Correct\<close>.
\<close>

abbreviation star_char :: char where "star_char \<equiv> CHR ''*''"
abbreviation backslash :: char where "backslash \<equiv> CHR 0x5C"

section \<open>Pub/Sub patterns\<close>

text \<open>A member of a character class, read at \<open>i\<close>, and the position behind it.\<close>

definition class_member :: "string \<Rightarrow> nat \<Rightarrow> nat \<times> nat" where
  "class_member pat i =
     (let c = pat ! i; i = i + 1
      in if c = backslash \<and> i < length pat then (ord (pat ! i), i + 1) else (ord c, i))"

lemma class_member_after: "(c, j) = class_member pat i \<Longrightarrow> i < j"
  by (simp add: class_member_def Let_def split: if_splits)

text \<open>The loop over the members of a character class: position, whether the value was matched, whether the
  class has a member.\<close>

function class_loop :: "string \<Rightarrow> nat \<Rightarrow> nat \<Rightarrow> bool \<Rightarrow> bool \<Rightarrow> nat \<times> bool \<times> bool" where
  "class_loop pat x i matched any =
     (if i < length pat \<and> pat ! i \<noteq> CHR '']'' then
        case class_member pat i of
          (first, i) \<Rightarrow>
            if i + 1 < length pat \<and> pat ! i = CHR ''-'' \<and> pat ! (i + 1) \<noteq> CHR '']'' then
              case class_member pat (i + 1) of
                (upper, i) \<Rightarrow> class_loop pat x i (if first \<le> x \<and> x \<le> upper then True else matched) True
            else class_loop pat x i (if first = x then True else matched) True
      else (i, matched, any))"
  by pat_completeness auto
termination
proof (relation "measure (\<lambda>(pat, x, i, m, a). length pat - i)", goal_cases)
  case (2 pat x i matched any first j upper k)
  then show ?case using class_member_after [of first j pat i] class_member_after [of upper k pat "j + 1"] by auto
next
  case (3 pat x i matched any first j)
  then show ?case using class_member_after [of first j pat i] by auto
qed simp

text \<open>\<open>None\<close> is an invalid class; otherwise whether it matches and the position behind it.\<close>

definition match_class :: "string \<Rightarrow> nat \<Rightarrow> nat \<Rightarrow> (bool \<times> nat) option" where
  "match_class pat offset x =
     (let i = offset + 1;
          (negate, i) = (if i < length pat \<and> pat ! i = CHR ''^'' then (True, i + 1) else (False, i));
          (i, matched, any) = class_loop pat x i False False
      in if i \<ge> length pat \<or> pat ! i \<noteq> CHR '']'' \<or> \<not> any then None
         else Some (if negate then \<not> matched else matched, i + 1))"

definition match_one :: "string \<Rightarrow> nat \<Rightarrow> nat \<Rightarrow> bool \<times> nat" where
  "match_one pat p x =
     (if p \<ge> length pat then (False, p)
      else
        let token = pat ! p
        in if token = CHR ''?'' then (True, p + 1)
           else case (if token = CHR ''['' then match_class pat p x else None) of
             Some (m, nxt) \<Rightarrow> (m, nxt)
           | None \<Rightarrow>
               let p = (if token = backslash \<and> p + 1 < length pat then p + 1 else p)
               in (ord (pat ! p) = x, p + 1))"

function skip_stars :: "string \<Rightarrow> nat \<Rightarrow> nat" where
  "skip_stars pat p = (if p < length pat \<and> pat ! p = star_char then skip_stars pat (p + 1) else p)"
  by pat_completeness auto
termination by (relation "measure (\<lambda>(pat, p). length pat - p)") auto

partial_function (option) glob_loop :: "string \<Rightarrow> string \<Rightarrow> nat \<Rightarrow> nat \<Rightarrow> (nat \<times> nat) option \<Rightarrow> bool option" where
  [code]: "glob_loop pat val p v star =
     (if v < length val then
        if p < length pat \<and> pat ! p = star_char then
          let p = skip_stars pat p in glob_loop pat val p v (Some (p, v))
        else
          case match_one pat p (ord (val ! v)) of
            (m, nxt) \<Rightarrow>
              if m then glob_loop pat val nxt (v + 1) star
              else (case star of
                      None \<Rightarrow> Some False
                    | Some (star_pattern, star_value) \<Rightarrow>
                        glob_loop pat val star_pattern (star_value + 1) (Some (star_pattern, star_value + 1)))
      else Some (skip_stars pat p = length pat))"

definition glob_match_general :: "string \<Rightarrow> string \<Rightarrow> bool option" where
  "glob_match_general pat val = glob_loop pat val 0 0 None"

datatype pattern_kind = Pk_always | Pk_literal | Pk_prefix | Pk_suffix | Pk_prefix_suffix | Pk_general

text \<open>The scan of \<open>classify_pattern\<close>: \<open>None\<close> when it returns early, otherwise the number of stars and the
  position of the last.\<close>

fun classify_scan :: "string \<Rightarrow> nat \<Rightarrow> nat \<Rightarrow> nat \<Rightarrow> (nat \<times> nat) option" where
  "classify_scan [] i star_count star_pos = Some (star_count, star_pos)"
| "classify_scan (c # cs) i star_count star_pos =
     (if c = backslash \<or> c = CHR ''?'' \<or> c = CHR ''['' then None
      else if c = star_char then (if star_count + 1 > 1 then None else classify_scan cs (i + 1) (star_count + 1) i)
      else classify_scan cs (i + 1) star_count star_pos)"

definition classify_pattern :: "string \<Rightarrow> pattern_kind" where
  "classify_pattern pat =
     (if pat = [star_char] then Pk_always
      else case classify_scan pat 0 0 0 of
        None \<Rightarrow> Pk_general
      | Some (star_count, star_pos) \<Rightarrow>
          if star_count = 0 then Pk_literal
          else if star_pos = length pat - 1 then Pk_prefix
          else if star_pos = 0 then Pk_suffix
          else Pk_prefix_suffix)"

definition match_classified :: "pattern_kind \<Rightarrow> string \<Rightarrow> string \<Rightarrow> bool option" where
  "match_classified kind pat val =
     (case kind of
        Pk_always \<Rightarrow> Some True
      | Pk_literal \<Rightarrow> Some (pat = val)
      | Pk_prefix \<Rightarrow>
          let prefix = take (length pat - 1) pat
          in Some (length val \<ge> length prefix \<and> take (length prefix) val = prefix)
      | Pk_suffix \<Rightarrow>
          let suffix = drop 1 pat
          in Some (length val \<ge> length suffix \<and> drop (length val - length suffix) val = suffix)
      | Pk_prefix_suffix \<Rightarrow>
          let star = length (takeWhile (\<lambda>c. c \<noteq> star_char) pat);
              prefix = take star pat;
              suffix = drop (star + 1) pat
          in Some (\<not> length val < length prefix + length suffix \<and>
                   take (length prefix) val = prefix \<and> drop (length val - length suffix) val = suffix)
      | Pk_general \<Rightarrow> glob_match_general pat val)"

definition glob_match :: "string \<Rightarrow> string \<Rightarrow> bool option" where
  "glob_match pat val = match_classified (classify_pattern pat) pat val"

section \<open>The MATCH option of scans\<close>

text \<open>\<open>char\<close> is signed: members of a range are compared as signed bytes.\<close>

definition schar :: "char \<Rightarrow> int" where
  "schar c = (if ord c \<ge> 128 then int (ord c) - 256 else int (ord c))"

function scan_class :: "string \<Rightarrow> char \<Rightarrow> nat \<Rightarrow> bool" where
  "scan_class body x ci =
     (if ci < length body then
        if ci + 2 < length body \<and> body ! (ci + 1) = CHR ''-'' then
          if schar x \<ge> schar (body ! ci) \<and> schar x \<le> schar (body ! (ci + 2)) then True
          else scan_class body x (ci + 3)
        else if body ! ci = x then True
        else scan_class body x (ci + 1)
      else False)"
  by pat_completeness auto
termination by (relation "measure (\<lambda>(body, x, ci). length body - ci)") auto

partial_function (option) scan_loop :: "string \<Rightarrow> string \<Rightarrow> nat \<Rightarrow> nat \<Rightarrow> (nat \<times> nat) option \<Rightarrow> bool option" where
  [code]: "scan_loop pat val pi vi star =
     (if vi < length val then
        if pi < length pat \<and> (pat ! pi = CHR ''?'' \<or> pat ! pi = val ! vi) then
          scan_loop pat val (pi + 1) (vi + 1) star
        else if pi < length pat \<and> pat ! pi = star_char then
          scan_loop pat val (pi + 1) vi (Some (pi, vi))
        else if pi < length pat \<and> pat ! pi = CHR ''['' then
          let len = length (takeWhile (\<lambda>c. c \<noteq> CHR '']'') (drop (pi + 1) pat))
          in if pi + 1 + len = length pat then Some False
             else
               let body = take len (drop (pi + 1) pat);
                   negate = (body \<noteq> [] \<and> (body ! 0 = CHR ''^'' \<or> body ! 0 = CHR ''!''));
                   matched = scan_class body (val ! vi) (if negate then 1 else 0)
               in if matched = negate
                  then (case star of
                          None \<Rightarrow> Some False
                        | Some (star_pi, star_vi) \<Rightarrow>
                            scan_loop pat val (star_pi + 1) (star_vi + 1) (Some (star_pi, star_vi + 1)))
                  else scan_loop pat val (pi + 1 + len + 1) (vi + 1) star
        else (case star of
                None \<Rightarrow> Some False
              | Some (star_pi, star_vi) \<Rightarrow>
                  scan_loop pat val (star_pi + 1) (star_vi + 1) (Some (star_pi, star_vi + 1)))
      else Some (skip_stars pat pi = length pat))"

definition scan_glob_match :: "string \<Rightarrow> string \<Rightarrow> bool option" where
  "scan_glob_match pat val = scan_loop pat val 0 0 None"

declare class_loop.simps [simp del] skip_stars.simps [simp del] scan_class.simps [simp del]

end
