(* ===== verification/Glob_Match_Correct.thy ===== *)
theory Glob_Match_Correct
  imports Glob_Match
begin

text \<open>
  The meaning of glob patterns and the correctness of the matchers of \<open>Glob_Match\<close>. A pattern is read as a
  list of tokens; \<open>matches\<close> says which values a token list accepts, a star standing for any bytes. The
  locale \<open>star_matcher\<close> is the contract of a loop that goes back to the last star only; that this suffices
  and that the loop ends is proved there once, for the loop of Pub/Sub and for the loop of scans.
\<close>

section \<open>The meaning of a pattern\<close>

datatype token = Star | Any | Class bool "(nat \<times> nat) list" | Lit nat

fun class_char :: "string \<Rightarrow> nat \<times> string" where
  "class_char [] = (0, [])"
| "class_char (c # s) = (if c = backslash \<and> s \<noteq> [] then (ord (hd s), tl s) else (ord c, s))"

lemma class_char_shorter: "(c, s') = class_char s \<Longrightarrow> s \<noteq> [] \<Longrightarrow> length s' < length s"
  by (cases s) (auto split: if_splits)

text \<open>The ranges up to the closing bracket, and what follows it.\<close>

function class_body :: "string \<Rightarrow> ((nat \<times> nat) list \<times> string) option" where
  "class_body s =
     (if s = [] then None
      else if hd s = CHR '']'' then Some ([], tl s)
      else
        case class_char s of
          (lo, s1) \<Rightarrow>
            if 1 < length s1 \<and> hd s1 = CHR ''-'' \<and> s1 ! 1 \<noteq> CHR '']''
            then case class_char (tl s1) of
                   (hi, s2) \<Rightarrow> map_option (\<lambda>(rs, r). ((lo, hi) # rs, r)) (class_body s2)
            else map_option (\<lambda>(rs, r). ((lo, lo) # rs, r)) (class_body s1))"
  by pat_completeness auto
termination
proof (relation "measure length", goal_cases)
  case (2 s lo s1 hi s2)
  have "length s1 < length s" using class_char_shorter [OF 2(3,1)] .
  moreover have "length s2 < length (tl s1)" using 2(4,5) by (intro class_char_shorter) (auto simp: tl_Nil)
  ultimately show ?case by simp
next
  case (3 s lo s1)
  from class_char_shorter [OF 3(3,1)] show ?case by simp
qed simp

definition class_of :: "string \<Rightarrow> (bool \<times> (nat \<times> nat) list \<times> string) option" where
  "class_of s =
     (let (negate, b) = (if s \<noteq> [] \<and> hd s = CHR ''^'' then (True, tl s) else (False, s))
      in case class_body b of
           Some (rs, r) \<Rightarrow> if rs = [] then None else Some (negate, rs, r)
         | None \<Rightarrow> None)"

declare class_body.simps [simp del]

lemma class_body_Nil [simp]: "class_body [] = None"
  by (simp add: class_body.simps)

lemma class_body_close [simp]: "class_body (CHR '']'' # r) = Some ([], r)"
  by (simp add: class_body.simps)

lemma class_body_shorter: "class_body s = Some (rs, r) \<Longrightarrow> length r < length s"
proof (induction s arbitrary: rs r rule: class_body.induct)
  case (1 s)
  consider "s = []" | t where "s = CHR '']'' # t" | "s \<noteq> []" "hd s \<noteq> CHR '']''" by (cases s) auto
  then show ?case
  proof cases
    case 3
    obtain lo s1 where c: "(lo, s1) = class_char s" by (metis surj_pair)
    have s1: "length s1 < length s" using class_char_shorter [OF c 3(1)] .
    obtain hi s2 where d: "(hi, s2) = class_char (tl s1)" by (metis surj_pair)
    show ?thesis
    proof (cases "1 < length s1 \<and> hd s1 = CHR ''-'' \<and> s1 ! 1 \<noteq> CHR '']''")
      case True
      then have s2: "length s2 < length s1" using class_char_shorter [OF d] by (cases s1) auto
      have "class_body s = map_option (\<lambda>(rs, r). ((lo, hi) # rs, r)) (class_body s2)"
        using 3 True by (subst class_body.simps) (simp flip: c d)
      with 1(3) obtain js where "class_body s2 = Some (js, r)" by auto
      from 1(1) [OF 3 c True d this] s1 s2 show ?thesis by simp
    next
      case False
      have "class_body s = map_option (\<lambda>(rs, r). ((lo, lo) # rs, r)) (class_body s1)"
        using 3 False by (subst class_body.simps) (auto simp flip: c)
      with 1(3) obtain js where "class_body s1 = Some (js, r)" by auto
      from 1(2) [OF 3 c False this] s1 show ?thesis by simp
    qed
  qed (use 1(3) in simp_all)
qed

lemma class_of_shorter: "class_of s = Some (negate, rs, r) \<Longrightarrow> length r < length s"
  by (cases s) (auto simp: class_of_def Let_def dest!: class_body_shorter split: if_splits option.splits)

function tokens :: "string \<Rightarrow> token list" where
  "tokens [] = []"
| "tokens (c # s) =
     (if c = star_char then Star # tokens s
      else if c = CHR ''?'' then Any # tokens s
      else case (if c = CHR ''['' then class_of s else None) of
        Some (negate, rs, r) \<Rightarrow> Class negate rs # tokens r
      | None \<Rightarrow>
          if c = backslash \<and> s \<noteq> [] then Lit (ord (hd s)) # tokens (tl s) else Lit (ord c) # tokens s)"
  by pat_completeness auto
termination
  by (relation "measure length") (auto dest!: class_of_shorter split: if_splits)

fun accepts :: "token \<Rightarrow> nat \<Rightarrow> bool" where
  "accepts Star x \<longleftrightarrow> False"
| "accepts Any x \<longleftrightarrow> True"
| "accepts (Class negate rs) x \<longleftrightarrow> list_ex (\<lambda>(lo, hi). lo \<le> x \<and> x \<le> hi) rs \<noteq> negate"
| "accepts (Lit y) x \<longleftrightarrow> y = x"

fun matches :: "token list \<Rightarrow> string \<Rightarrow> bool" where
  "matches [] v \<longleftrightarrow> v = []"
| "matches (Star # ts) [] \<longleftrightarrow> matches ts []"
| "matches (Star # ts) (c # v) \<longleftrightarrow> matches ts (c # v) \<or> matches (Star # ts) v"
| "matches (t # ts) [] \<longleftrightarrow> False"
| "matches (t # ts) (c # v) \<longleftrightarrow> accepts t (ord c) \<and> matches ts v"

section \<open>Reading tokens\<close>

lemma class_member_char:
  assumes "i < length pat" and "class_member pat i = (c, j)"
  shows "class_char (drop i pat) = (c, drop j pat)" "i < j" "j \<le> length pat"
proof -
  have d: "drop i pat = pat ! i # drop (Suc i) pat" using assms(1) by (simp add: Cons_nth_drop_Suc)
  show "class_char (drop i pat) = (c, drop j pat)"
    using assms unfolding d by (auto simp: class_member_def Let_def hd_drop_conv_nth tl_drop drop_Suc [symmetric] split: if_splits)
  show "i < j" "j \<le> length pat" using assms by (auto simp: class_member_def Let_def split: if_splits)
qed

abbreviation in_ranges :: "(nat \<times> nat) list \<Rightarrow> nat \<Rightarrow> bool" where
  "in_ranges rs x \<equiv> list_ex (\<lambda>(lo, hi). lo \<le> x \<and> x \<le> hi) rs"

lemma class_body_step:
  assumes "i < length pat" and "pat ! i \<noteq> CHR '']''" and "class_member pat i = (c, j)"
  shows "class_body (drop i pat) =
    (if j + 1 < length pat \<and> pat ! j = CHR ''-'' \<and> pat ! (j + 1) \<noteq> CHR '']''
     then case class_member pat (j + 1) of
            (d, k) \<Rightarrow> map_option (\<lambda>(rs, r). ((c, d) # rs, r)) (class_body (drop k pat))
     else map_option (\<lambda>(rs, r). ((c, c) # rs, r)) (class_body (drop j pat)))"
proof -
  note m = class_member_char [OF assms(1,3)]
  have ne: "drop i pat \<noteq> []" "hd (drop i pat) \<noteq> CHR '']''" using assms by (auto simp: hd_drop_conv_nth)
  have cond: "(1 < length (drop j pat) \<and> hd (drop j pat) = CHR ''-'' \<and> drop j pat ! 1 \<noteq> CHR '']'') \<longleftrightarrow>
      (j + 1 < length pat \<and> pat ! j = CHR ''-'' \<and> pat ! (j + 1) \<noteq> CHR '']'')"
    by (auto simp: hd_drop_conv_nth)
  obtain d k where n: "class_member pat (j + 1) = (d, k)" by (cases "class_member pat (j + 1)")
  show ?thesis
  proof (cases "j + 1 < length pat \<and> pat ! j = CHR ''-'' \<and> pat ! (j + 1) \<noteq> CHR '']''")
    case True
    then have "class_char (tl (drop j pat)) = (d, drop k pat)"
      using class_member_char(1) [OF _ n] by (simp add: tl_drop drop_Suc [symmetric])
    with ne m(1) cond True n show ?thesis by (subst class_body.simps) simp
  next
    case False
    with ne m(1) cond show ?thesis by (subst class_body.simps) auto
  qed
qed

lemma class_loop_body:
  "i \<le> length pat \<Longrightarrow>
   (case class_body (drop i pat) of
      None \<Rightarrow> fst (class_loop pat x i m a) \<ge> length pat
    | Some (rs, r) \<Rightarrow> \<exists>j. class_loop pat x i m a = (j, m \<or> in_ranges rs x, a \<or> rs \<noteq> []) \<and>
        j < length pat \<and> pat ! j = CHR '']'' \<and> r = drop (j + 1) pat)"
proof (induction pat x i m a rule: class_loop.induct)
  case (1 pat x i m a)
  consider (out) "i = length pat" | (close) "i < length pat" "pat ! i = CHR '']''"
    | (member) "i < length pat" "pat ! i \<noteq> CHR '']''" using 1(3) by fastforce
  then show ?case
  proof cases
    case out
    then show ?thesis by (simp add: class_loop.simps)
  next
    case close
    then have "drop i pat = CHR '']'' # drop (i + 1) pat" by (metis Cons_nth_drop_Suc Suc_eq_plus1)
    with close show ?thesis by (simp add: class_loop.simps [of pat x i])
  next
    case member
    obtain c j where c: "(c, j) = class_member pat i" by (metis surj_pair)
    obtain d k where d: "(d, k) = class_member pat (j + 1)" by (metis surj_pair)
    note mc = class_member_char [OF member(1) c [symmetric]]
    have cl: "class_loop pat x i m a =
        (if j + 1 < length pat \<and> pat ! j = CHR ''-'' \<and> pat ! (j + 1) \<noteq> CHR '']''
         then class_loop pat x k (if c \<le> x \<and> x \<le> d then True else m) True
         else class_loop pat x j (if c = x then True else m) True)"
      using member c [symmetric] d [symmetric, simplified] by (subst class_loop.simps) simp
    note cb = class_body_step [OF member c [symmetric], unfolded d [symmetric] split]
    show ?thesis
    proof (cases "j + 1 < length pat \<and> pat ! j = CHR ''-'' \<and> pat ! (j + 1) \<noteq> CHR '']''")
      case True
      then have k: "k \<le> length pat" using class_member_char(3) [OF _ d [symmetric]] by simp
      from 1(1) [OF _ c True d k] member True show ?thesis
        unfolding cl cb by (auto split: option.splits if_splits)
    next
      case False
      from 1(2) [OF _ c False mc(3)] member False show ?thesis
        unfolding cl cb by (auto split: option.splits if_splits)
    qed
  qed
qed

lemma match_class_of:
  assumes "p < length pat"
  shows "case class_of (drop (p + 1) pat) of
      None \<Rightarrow> match_class pat p x = None
    | Some (negate, rs, r) \<Rightarrow> \<exists>nxt. match_class pat p x = Some (in_ranges rs x \<noteq> negate, nxt) \<and>
        r = drop nxt pat \<and> p < nxt \<and> nxt \<le> length pat"
proof -
  define negate where "negate = (p + 1 < length pat \<and> pat ! (p + 1) = CHR ''^'')"
  define i where "i = (if negate then p + 2 else p + 1)"
  have i: "i \<le> length pat" "p < i" using assms by (auto simp: i_def negate_def)
  have co: "class_of (drop (p + 1) pat) =
      (case class_body (drop i pat) of
         Some (rs, r) \<Rightarrow> if rs = [] then None else Some (negate, rs, r) | None \<Rightarrow> None)"
    by (cases negate) (auto simp: class_of_def i_def negate_def hd_drop_conv_nth tl_drop drop_Suc [symmetric] split: option.splits if_splits)
  have mc: "match_class pat p x =
      (case class_loop pat x i False False of
         (i, matched, any) \<Rightarrow> if i \<ge> length pat \<or> pat ! i \<noteq> CHR '']'' \<or> \<not> any then None
           else Some (if negate then \<not> matched else matched, i + 1))"
    by (cases negate) (auto simp: match_class_def i_def negate_def Let_def split: prod.splits)
  show ?thesis
    using class_loop_body [OF i(1), of x False False] i(2) unfolding co mc
    by (auto dest: class_body_shorter split: option.splits prod.splits if_splits)
qed

lemma match_one_token:
  assumes p: "p < length pat" and s: "pat ! p \<noteq> star_char"
  shows "\<exists>t nxt. match_one pat p x = (accepts t x, nxt) \<and> t \<noteq> Star \<and> p < nxt \<and> nxt \<le> length pat \<and>
    tokens (drop p pat) = t # tokens (drop nxt pat)"
proof -
  have d: "drop p pat = pat ! p # drop (p + 1) pat" using p by (metis Cons_nth_drop_Suc Suc_eq_plus1)
  consider (any) "pat ! p = CHR ''?''"
    | (cls) negate rs r where "pat ! p = CHR ''[''" "class_of (drop (p + 1) pat) = Some (negate, rs, r)"
    | (esc) "pat ! p = backslash" "p + 1 < length pat"
    | (lit) "pat ! p \<noteq> CHR ''?''" "pat ! p = CHR ''['' \<longrightarrow> class_of (drop (p + 1) pat) = None"
        "\<not> (pat ! p = backslash \<and> p + 1 < length pat)"
    by (cases "class_of (drop (p + 1) pat)") auto
  then show ?thesis
  proof cases
    case any
    with p d show ?thesis by (intro exI [of _ Any] exI [of _ "p + 1"]) (simp add: match_one_def)
  next
    case cls
    with match_class_of [OF p, of x] obtain nxt where
      "match_class pat p x = Some (in_ranges rs x \<noteq> negate, nxt)" "r = drop nxt pat" "p < nxt" "nxt \<le> length pat" by auto
    with p d cls show ?thesis
      by (intro exI [of _ "Class negate rs"] exI [of _ nxt]) (simp add: match_one_def)
  next
    case esc
    with p d show ?thesis
      by (intro exI [of _ "Lit (ord (pat ! (p + 1)))"] exI [of _ "p + 2"])
        (simp add: match_one_def hd_drop_conv_nth tl_drop drop_Suc [symmetric])
  next
    case lit
    moreover have "pat ! p = CHR ''['' \<longrightarrow> match_class pat p x = None"
      using match_class_of [OF p, of x] lit(2) by auto
    ultimately show ?thesis
      using p d s by (intro exI [of _ "Lit (ord (pat ! p))"] exI [of _ "p + 1"]) (auto simp: match_one_def)
  qed
qed

section \<open>Matching token lists\<close>

lemma ex_le_Suc: "(\<exists>k \<le> Suc n. P k) \<longleftrightarrow> P 0 \<or> (\<exists>k \<le> n. P (Suc k))"
  by (metis Suc_le_mono le0 not0_implies_Suc)

lemma matches_Star: "matches (Star # ts) v \<longleftrightarrow> (\<exists>k \<le> length v. matches ts (drop k v))"
proof (induction v)
  case (Cons c v)
  then show ?case by (simp add: ex_le_Suc)
qed simp

lemma matches_Star_drop:
  assumes "matches (Star # ts) (drop k v)"
  shows "matches (Star # ts) v"
proof -
  from assms obtain j where j: "matches ts (drop (j + k) v)" unfolding matches_Star by (auto simp: add.commute)
  have "drop (min (j + k) (length v)) v = drop (j + k) v" by (simp add: min_def)
  with j show ?thesis unfolding matches_Star by (intro exI [of _ "min (j + k) (length v)"]) simp
qed

lemma matches_Star_Star: "matches (Star # Star # ts) v = matches (Star # ts) v"
  using matches_Star_drop [of ts _ v] unfolding matches_Star [of "Star # ts"] by (metis drop0 le0)

lemma matches_Stars: "0 < n \<Longrightarrow> matches (replicate n Star @ ts) v = matches (Star # ts) v"
proof (induction n arbitrary: v)
  case (Suc n)
  show ?case
  proof (cases "n = 0")
    case False
    then have "matches (Star # replicate n Star @ ts) v = matches (Star # Star # ts) v"
      unfolding matches_Star [of "replicate n Star @ ts"] matches_Star [of "Star # ts"] using Suc.IH by simp
    then show ?thesis by (simp add: matches_Star_Star)
  qed simp
qed simp

lemma matches_Cons: "t \<noteq> Star \<Longrightarrow> matches (t # ts) v \<longleftrightarrow> (v \<noteq> [] \<and> accepts t (ord (hd v)) \<and> matches ts (tl v))"
  by (cases v; cases t) auto

lemma matches_plain:
  "list_all (\<lambda>t. t \<noteq> Star) mid \<Longrightarrow> matches (mid @ ts) v \<Longrightarrow> length mid \<le> length v \<and> matches ts (drop (length mid) v)"
proof (induction mid arbitrary: v)
  case (Cons t mid)
  then show ?case by (cases v) (auto simp: matches_Cons)
qed simp

lemma matches_Nil: "matches ts [] \<longleftrightarrow> list_all (\<lambda>t. t = Star) ts"
proof (induction ts)
  case (Cons t ts)
  then show ?case by (cases "t = Star") (auto simp: matches_Cons)
qed simp

section \<open>The backtracking loop\<close>

lemma skip_stars_tokens:
  assumes "p \<le> length pat"
  shows "p \<le> skip_stars pat p" "skip_stars pat p \<le> length pat"
    "skip_stars pat p < length pat \<Longrightarrow> pat ! skip_stars pat p \<noteq> star_char"
    "tokens (drop p pat) = replicate (skip_stars pat p - p) Star @ tokens (drop (skip_stars pat p) pat)"
proof -
  have "p \<le> skip_stars pat p \<and> skip_stars pat p \<le> length pat \<and>
    (skip_stars pat p < length pat \<longrightarrow> pat ! skip_stars pat p \<noteq> star_char) \<and>
    tokens (drop p pat) = replicate (skip_stars pat p - p) Star @ tokens (drop (skip_stars pat p) pat)"
    using assms
  proof (induction pat p rule: skip_stars.induct)
    case (1 pat p)
    show ?case
    proof (cases "p < length pat \<and> pat ! p = star_char")
      case True
      then have "drop p pat = star_char # drop (p + 1) pat" by (metis Cons_nth_drop_Suc Suc_eq_plus1)
      moreover have "skip_stars pat p = skip_stars pat (p + 1)" using True by (simp add: skip_stars.simps [of pat p])
      moreover have "replicate (n - p) Star = Star # replicate (n - (p + 1)) Star" if "p + 1 \<le> n" for n
        using that by (cases "n - p") auto
      ultimately show ?thesis using 1 True by simp
    next
      case False
      then have "skip_stars pat p = p" by (subst skip_stars.simps) (rule if_not_P)
      with 1(2) False show ?thesis by auto
    qed
  qed
  then show "p \<le> skip_stars pat p" "skip_stars pat p \<le> length pat"
    "skip_stars pat p < length pat \<Longrightarrow> pat ! skip_stars pat p \<noteq> star_char"
    "tokens (drop p pat) = replicate (skip_stars pat p - p) Star @ tokens (drop (skip_stars pat p) pat)" by blast+
qed

lemma skip_stars_end: "p \<le> length pat \<Longrightarrow> skip_stars pat p = length pat \<longleftrightarrow> matches (tokens (drop p pat)) []"
proof -
  assume p: "p \<le> length pat"
  note s = skip_stars_tokens [OF p]
  show ?thesis
  proof (cases "skip_stars pat p = length pat")
    case True
    then show ?thesis using s(4) by (simp add: matches_Nil list_all_iff)
  next
    case False
    then have "skip_stars pat p < length pat" using s(2) by simp
    with match_one_token [OF this s(3), of 0] False s(4) show ?thesis by (auto simp: matches_Nil)
  qed
qed

text \<open>What a remembered star stands for: the tokens read since it was seen are no stars, one for each byte
  of the value read since.\<close>

definition star_ok :: "string \<Rightarrow> nat \<Rightarrow> nat \<Rightarrow> (nat \<times> nat) option \<Rightarrow> bool" where
  "star_ok pat p v star \<longleftrightarrow>
     (case star of
        None \<Rightarrow> True
      | Some (sp, sv) \<Rightarrow> 0 < sp \<and> sp \<le> length pat \<and> sv \<le> v \<and>
          (\<exists>mid. tokens (drop sp pat) = mid @ tokens (drop p pat) \<and> list_all (\<lambda>t. t \<noteq> Star) mid \<and> length mid = v - sv))"

definition again :: "string \<Rightarrow> string \<Rightarrow> (nat \<times> nat) option \<Rightarrow> bool" where
  "again pat val star \<longleftrightarrow>
     (case star of
        None \<Rightarrow> False
      | Some (sp, sv) \<Rightarrow> \<exists>k. sv < k \<and> k \<le> length val \<and> matches (tokens (drop sp pat)) (drop k val))"

lemma star_ok_simps [simp]:
  "star_ok pat p v None" "0 < sp \<Longrightarrow> sp \<le> length pat \<Longrightarrow> star_ok pat sp v (Some (sp, v))" "\<not> again pat val None"
  by (simp_all add: star_ok_def again_def)

lemma star_ok_step:
  assumes "star_ok pat p v star" and "tokens (drop p pat) = t # tokens (drop nxt pat)" and "t \<noteq> Star"
  shows "star_ok pat nxt (v + 1) star"
proof (cases star)
  case (Some s)
  then obtain sp sv where s: "star = Some (sp, sv)" by (cases s) auto
  with assms(1) obtain mid where mid: "0 < sp" "sp \<le> length pat" "sv \<le> v" "tokens (drop sp pat) = mid @ tokens (drop p pat)"
    "list_all (\<lambda>t. t \<noteq> Star) mid" "length mid = v - sv" by (auto simp: star_ok_def)
  with assms(2,3) s show ?thesis
    by (auto simp: star_ok_def intro!: exI [of _ "mid @ [t]"])
qed simp

lemma again_step: "sv < length val \<Longrightarrow>
    again pat val (Some (sp, sv)) \<longleftrightarrow> matches (tokens (drop sp pat)) (drop (sv + 1) val) \<or> again pat val (Some (sp, sv + 1))"
  by (auto simp: again_def intro: Suc_lessD) (metis Suc_lessI)

lemma again_end:
  assumes "star_ok pat p v star" and "v = length val"
  shows "\<not> again pat val star"
proof
  assume "again pat val star"
  then obtain sp sv k where s: "star = Some (sp, sv)" "sv < k" "k \<le> length val" "matches (tokens (drop sp pat)) (drop k val)"
    by (auto simp: again_def split: option.splits)
  with assms obtain mid where "matches (mid @ tokens (drop p pat)) (drop k val)" "list_all (\<lambda>t. t \<noteq> Star) mid"
    "length mid = v - sv" by (auto simp: star_ok_def)
  with matches_plain [of mid "tokens (drop p pat)" "drop k val"] s assms(2) have "length val - sv \<le> length val - k" by simp
  with s(2,3) show False by linarith
qed

lemma again_forget:
  assumes "star_ok pat p v star" and "tokens (drop p pat) = Star # ts" and "again pat val star"
  shows "matches (tokens (drop p pat)) (drop v val)"
proof -
  from assms(3) obtain sp sv k where s: "star = Some (sp, sv)" "sv < k" "matches (tokens (drop sp pat)) (drop k val)"
    by (auto simp: again_def split: option.splits)
  with assms(1) obtain mid where m: "matches (mid @ tokens (drop p pat)) (drop k val)" "list_all (\<lambda>t. t \<noteq> Star) mid"
    "length mid = v - sv" "sv \<le> v" by (auto simp: star_ok_def)
  from matches_plain [OF m(2,1)] have "matches (Star # ts) (drop (k + length mid) val)"
    by (simp add: assms(2) add.commute)
  moreover have "drop (k + length mid) val = drop (k + length mid - v) (drop v val)" using m(3,4) s(2) by simp
  ultimately show ?thesis unfolding assms(2) using matches_Star_drop by metis
qed

lemma ex_from: "v \<le> n \<Longrightarrow> (\<exists>k \<le> n - v. P (v + k)) \<longleftrightarrow> P v \<or> (\<exists>k. v < k \<and> k \<le> n \<and> P (k :: nat))"
proof (intro iffI; elim exE disjE conjE)
  fix k assume "v \<le> n" "k \<le> n - v" "P (v + k)"
  then show "P v \<or> (\<exists>k. v < k \<and> k \<le> n \<and> P k)"
    by (cases "k = 0") (auto intro!: exI [of _ "v + k"])
next
  fix k assume "v < k" "k \<le> n" "P k"
  then show "\<exists>k \<le> n - v. P (v + k)" by (intro exI [of _ "k - v"]) simp
qed (auto intro: exI [of _ 0])

lemma again_star:
  assumes "v \<le> length val" and "tokens (drop p pat) = replicate n Star @ tokens (drop q pat)" and "0 < n"
  shows "matches (tokens (drop p pat)) (drop v val) \<longleftrightarrow>
    matches (tokens (drop q pat)) (drop v val) \<or> again pat val (Some (q, v))"
  unfolding assms(2) matches_Stars [OF assms(3)] matches_Star
  using ex_from [OF assms(1), of "\<lambda>k. matches (tokens (drop q pat)) (drop k val)"] by (simp add: again_def add.commute)

text \<open>The contract of a matching loop over a class of patterns and values: at the end of the value only stars
  may be left; at a star it moves behind it and remembers it (position behind it, position in the value);
  at another token it goes on if the token accepts the byte and otherwise goes back to the remembered
  star, which then takes one byte more.\<close>

locale star_matcher =
  fixes loop :: "string \<Rightarrow> string \<Rightarrow> nat \<Rightarrow> nat \<Rightarrow> (nat \<times> nat) option \<Rightarrow> bool option"
    and ok :: "string \<Rightarrow> string \<Rightarrow> bool"
  assumes at_end: "ok pat val \<Longrightarrow> p \<le> length pat \<Longrightarrow>
      loop pat val p (length val) star = Some (matches (tokens (drop p pat)) [])"
    and at_star: "ok pat val \<Longrightarrow> star_ok pat p v star \<Longrightarrow> v < length val \<Longrightarrow> p < length pat \<Longrightarrow> pat ! p = star_char \<Longrightarrow>
      \<exists>q. p < q \<and> q \<le> length pat \<and> tokens (drop p pat) = replicate (q - p) Star @ tokens (drop q pat) \<and>
        loop pat val p v star = loop pat val q v (Some (q, v))"
    and at_token: "ok pat val \<Longrightarrow> star_ok pat p v star \<Longrightarrow> v < length val \<Longrightarrow> p < length pat \<Longrightarrow> pat ! p \<noteq> star_char \<Longrightarrow>
      \<exists>t q. p < q \<and> q \<le> length pat \<and> t \<noteq> Star \<and> tokens (drop p pat) = t # tokens (drop q pat) \<and>
        loop pat val p v star =
          (if accepts t (ord (val ! v)) then loop pat val q (v + 1) star
           else case star of None \<Rightarrow> Some False | Some (sp, sv) \<Rightarrow> loop pat val sp (sv + 1) (Some (sp, sv + 1)))"
    and at_pattern_end: "ok pat val \<Longrightarrow> star_ok pat p v star \<Longrightarrow> v < length val \<Longrightarrow> p = length pat \<Longrightarrow>
      loop pat val p v star =
        (case star of None \<Rightarrow> Some False | Some (sp, sv) \<Rightarrow> loop pat val sp (sv + 1) (Some (sp, sv + 1)))"
begin

definition finds :: "string \<Rightarrow> string \<Rightarrow> nat \<Rightarrow> nat \<Rightarrow> (nat \<times> nat) option \<Rightarrow> bool" where
  "finds pat val p v star \<longleftrightarrow>
     loop pat val p v star = Some (matches (tokens (drop p pat)) (drop v val) \<or> again pat val star)"

lemma finds_star:
  assumes "star_ok pat p v star" and "v \<le> length val" and "p < q" and "finds pat val q v (Some (q, v))"
    and "tokens (drop p pat) = replicate (q - p) Star @ tokens (drop q pat)"
    and "loop pat val p v star = loop pat val q v (Some (q, v))"
  shows "finds pat val p v star"
proof -
  have "tokens (drop p pat) = Star # replicate (q - p - 1) Star @ tokens (drop q pat)"
    using assms(3,5) by (cases "q - p") auto
  from again_forget [OF assms(1) this] show ?thesis
    using again_star [OF assms(2,5)] assms(3,4,6) by (auto simp: finds_def)
qed

lemma finds_retry:
  assumes "star_ok pat p v star" and "v < length val" and "\<not> matches (tokens (drop p pat)) (drop v val)"
    and "\<And>sp sv. star = Some (sp, sv) \<Longrightarrow> finds pat val sp (sv + 1) (Some (sp, sv + 1))"
    and "loop pat val p v star =
        (case star of None \<Rightarrow> Some False | Some (sp, sv) \<Rightarrow> loop pat val sp (sv + 1) (Some (sp, sv + 1)))"
  shows "finds pat val p v star"
proof (cases star)
  case None
  with assms(3,5) show ?thesis by (simp add: finds_def)
next
  case (Some s)
  then obtain sp sv where s: "star = Some (sp, sv)" by (cases s) auto
  with assms(1,2) have "sv < length val" by (auto simp: star_ok_def)
  from again_step [OF this, of pat sp] assms(3,4,5) s show ?thesis by (simp add: finds_def)
qed

lemma loop_matches:
  assumes ok: "ok pat val"
  shows "p \<le> length pat \<Longrightarrow> v \<le> length val \<Longrightarrow> star_ok pat p v star \<Longrightarrow> finds pat val p v star"
proof (induction "(case star of None \<Rightarrow> length val + 1 | Some (sp, sv) \<Rightarrow> length val - sv, length val - v, length pat - p)"
    arbitrary: p v star rule: wf_induct_rule [OF wf_lex_prod [OF wf_less wf_lex_prod [OF wf_less wf_less]]])
  case 1
  note IH = 1(1) and prems = 1(2-4)
  consider (over) "v = length val" | (star) "v < length val" "p < length pat" "pat ! p = star_char"
    | (token) "v < length val" "p < length pat" "pat ! p \<noteq> star_char" | (past) "v < length val" "p = length pat"
    using prems by fastforce
  then show ?case
  proof cases
    case over
    with at_end [OF ok prems(1)] again_end [OF prems(3) over] show ?thesis by (simp add: finds_def)
  next
    case star
    then obtain q where q: "p < q" "q \<le> length pat" "tokens (drop p pat) = replicate (q - p) Star @ tokens (drop q pat)"
      "loop pat val p v star = loop pat val q v (Some (q, v))" using at_star [OF ok prems(3)] by blast
    have "finds pat val q v (Some (q, v))"
      by (rule IH) (use prems(3) star q in \<open>auto simp: star_ok_def split: option.splits\<close>)
    with finds_star [OF prems(3,2) q(1) _ q(3,4)] show ?thesis .
  next
    case token
    then obtain t q where q: "p < q" "q \<le> length pat" "t \<noteq> Star" "tokens (drop p pat) = t # tokens (drop q pat)"
      "loop pat val p v star =
          (if accepts t (ord (val ! v)) then loop pat val q (v + 1) star
           else case star of None \<Rightarrow> Some False | Some (sp, sv) \<Rightarrow> loop pat val sp (sv + 1) (Some (sp, sv + 1)))"
      using at_token [OF ok prems(3)] by blast
    have "drop v val = val ! v # drop (v + 1) val" using token(1) by (metis Cons_nth_drop_Suc Suc_eq_plus1)
    then have cur: "matches (tokens (drop p pat)) (drop v val) \<longleftrightarrow>
        accepts t (ord (val ! v)) \<and> matches (tokens (drop q pat)) (drop (v + 1) val)"
      using q(3) by (simp add: q(4) matches_Cons)
    show ?thesis
    proof (cases "accepts t (ord (val ! v))")
      case True
      have "finds pat val q (v + 1) star"
        by (rule IH) (use star_ok_step [OF prems(3) q(4,3)] token q in auto)
      with True cur q(5) show ?thesis by (simp add: finds_def)
    next
      case False
      show ?thesis
        by (rule finds_retry [OF prems(3) token(1)])
          (use False cur q(5) prems(3) token(1) in \<open>auto simp: star_ok_def intro!: IH\<close>)
    qed
  next
    case past
    show ?thesis
      by (rule finds_retry [OF prems(3) past(1)])
        (use at_pattern_end [OF ok prems(3) past] past prems(3) in \<open>auto simp: star_ok_def intro!: IH\<close>)
  qed
qed

lemma loop_result: "ok pat val \<Longrightarrow> loop pat val 0 0 None = Some (matches (tokens pat) val)"
  using loop_matches [of pat val 0 0 None] by (simp add: finds_def)

end

interpretation pubsub_glob: star_matcher glob_loop "\<lambda>pat val. True"
proof
  fix pat val :: string and p v :: nat and star
  show "p \<le> length pat \<Longrightarrow> glob_loop pat val p (length val) star = Some (matches (tokens (drop p pat)) [])"
    by (subst glob_loop.simps) (simp add: skip_stars_end)
  assume v: "v < length val"
  show "glob_loop pat val p v star =
      (case star of None \<Rightarrow> Some False | Some (sp, sv) \<Rightarrow> glob_loop pat val sp (sv + 1) (Some (sp, sv + 1)))"
    if "p = length pat"
    using v that by (subst glob_loop.simps) (simp add: match_one_def)
  assume p: "p < length pat"
  show "\<exists>q. p < q \<and> q \<le> length pat \<and> tokens (drop p pat) = replicate (q - p) Star @ tokens (drop q pat) \<and>
      glob_loop pat val p v star = glob_loop pat val q v (Some (q, v))" if "pat ! p = star_char"
  proof (intro exI conjI)
    have s: "p \<le> skip_stars pat p" "skip_stars pat p = p \<Longrightarrow> pat ! p \<noteq> star_char"
      using skip_stars_tokens(1,3) [of p pat] p by auto
    then show "p < skip_stars pat p" using that by (metis le_neq_implies_less)
    show "glob_loop pat val p v star = glob_loop pat val (skip_stars pat p) v (Some (skip_stars pat p, v))"
      using v p that by (subst glob_loop.simps) (simp add: Let_def)
  qed (use skip_stars_tokens [of p pat] p in auto)
  show "\<exists>t q. p < q \<and> q \<le> length pat \<and> t \<noteq> Star \<and> tokens (drop p pat) = t # tokens (drop q pat) \<and>
      glob_loop pat val p v star =
        (if accepts t (ord (val ! v)) then glob_loop pat val q (v + 1) star
         else case star of None \<Rightarrow> Some False | Some (sp, sv) \<Rightarrow> glob_loop pat val sp (sv + 1) (Some (sp, sv + 1)))"
    if s: "pat ! p \<noteq> star_char"
  proof -
    obtain t q where t: "match_one pat p (ord (val ! v)) = (accepts t (ord (val ! v)), q)" "t \<noteq> Star" "p < q" "q \<le> length pat"
      "tokens (drop p pat) = t # tokens (drop q pat)" using match_one_token [OF p s] by blast
    have "glob_loop pat val p v star =
        (if accepts t (ord (val ! v)) then glob_loop pat val q (v + 1) star
         else case star of None \<Rightarrow> Some False | Some (sp, sv) \<Rightarrow> glob_loop pat val sp (sv + 1) (Some (sp, sv + 1)))"
      using v p s t(1) by (subst glob_loop.simps) simp
    with t show ?thesis by blast
  qed
qed

section \<open>The matcher of scans\<close>

text \<open>The loop of scans remembers the position of the star itself.\<close>

definition scan_from :: "string \<Rightarrow> string \<Rightarrow> nat \<Rightarrow> nat \<Rightarrow> (nat \<times> nat) option \<Rightarrow> bool option" where
  "scan_from pat val p v star = scan_loop pat val p v (map_option (\<lambda>(sp, sv). (sp - 1, sv)) star)"

text \<open>Neither classes nor escapes in the pattern, no star in the value.\<close>

definition scan_plain :: "string \<Rightarrow> string \<Rightarrow> bool" where
  "scan_plain pat val \<longleftrightarrow> CHR ''['' \<notin> set pat \<and> backslash \<notin> set pat \<and> star_char \<notin> set val"

interpretation scan_glob: star_matcher scan_from scan_plain
proof
  fix pat val :: string and p v :: nat and star
  show "p \<le> length pat \<Longrightarrow> scan_from pat val p (length val) star = Some (matches (tokens (drop p pat)) [])"
    unfolding scan_from_def by (subst scan_loop.simps) (simp add: skip_stars_end)
  assume ok: "scan_plain pat val" and st: "star_ok pat p v star" and v: "v < length val"
  let ?retry = "case star of None \<Rightarrow> Some False | Some (sp, sv) \<Rightarrow> scan_from pat val sp (sv + 1) (Some (sp, sv + 1))"
  let ?again = "case map_option (\<lambda>(sp, sv). (sp - 1, sv)) star of None \<Rightarrow> Some False
      | Some (sp, sv) \<Rightarrow> scan_loop pat val (sp + 1) (sv + 1) (Some (sp, sv + 1))"
  have retry: "?again = ?retry"
    using st by (auto simp: star_ok_def scan_from_def split: option.splits)
  have "scan_from pat val p v star = ?again" if "p = length pat"
    unfolding scan_from_def using v that by (subst scan_loop.simps) simp
  then show "scan_from pat val p v star = ?retry" if "p = length pat" using that by (simp only: retry)
  assume p: "p < length pat"
  have d: "drop p pat = pat ! p # drop (p + 1) pat" using p by (metis Cons_nth_drop_Suc Suc_eq_plus1)
  have val: "val ! v \<noteq> star_char" using ok v nth_mem by (force simp: scan_plain_def)
  have pat: "pat ! p \<noteq> CHR ''[''" "pat ! p \<noteq> backslash" using ok p nth_mem by (force simp: scan_plain_def)+
  show "\<exists>q. p < q \<and> q \<le> length pat \<and> tokens (drop p pat) = replicate (q - p) Star @ tokens (drop q pat) \<and>
      scan_from pat val p v star = scan_from pat val q v (Some (q, v))" if "pat ! p = star_char"
    unfolding scan_from_def using v p that d val by (intro exI [of _ "p + 1"]) (simp add: scan_loop.simps [of pat val p])
  show "\<exists>t q. p < q \<and> q \<le> length pat \<and> t \<noteq> Star \<and> tokens (drop p pat) = t # tokens (drop q pat) \<and>
      scan_from pat val p v star = (if accepts t (ord (val ! v)) then scan_from pat val q (v + 1) star else ?retry)"
    if s: "pat ! p \<noteq> star_char"
  proof -
    let ?t = "if pat ! p = CHR ''?'' then Any else Lit (ord (pat ! p))"
    have "scan_from pat val p v star = (if accepts ?t (ord (val ! v)) then scan_from pat val (p + 1) (v + 1) star else ?again)"
      unfolding scan_from_def using v p s pat ord_inject [of "pat ! p" "val ! v"]
      by (subst scan_loop.simps) auto
    with p s pat d show ?thesis unfolding retry by (intro exI [of _ ?t] exI [of _ "p + 1"]) auto
  qed
qed

lemma scan_loop_returns:
  "pi \<le> length pat \<Longrightarrow> vi \<le> length val \<Longrightarrow> (case star of None \<Rightarrow> True | Some (sp, sv) \<Rightarrow> sp < length pat \<and> sv \<le> vi) \<Longrightarrow>
   \<exists>b. scan_loop pat val pi vi star = Some b"
proof (induction "(case star of None \<Rightarrow> length val + 1 | Some (sp, sv) \<Rightarrow> length val - sv, length val - vi, length pat - pi)"
    arbitrary: pi vi star rule: wf_induct_rule [OF wf_lex_prod [OF wf_less wf_lex_prod [OF wf_less wf_less]]])
  case 1
  note IH = 1(1) and prems = 1(2-4)
  show ?case
  proof (cases "vi < length val")
    case False
    then show ?thesis by (subst scan_loop.simps) simp
  next
    case v: True
    have retry: "\<exists>b. (case star of None \<Rightarrow> Some False
        | Some (sp, sv) \<Rightarrow> scan_loop pat val (sp + 1) (sv + 1) (Some (sp, sv + 1))) = Some b"
    proof (cases star)
      case (Some s)
      with prems(3) v have "\<exists>b. scan_loop pat val (fst s + 1) (snd s + 1) (Some (fst s, snd s + 1)) = Some b"
        by (intro IH) (auto split: prod.splits)
      with Some show ?thesis by (auto split: prod.splits)
    qed (auto intro: exI [of _ False])
    have advance: "\<exists>b. scan_loop pat val p (vi + 1) star = Some b" if "pi < p" "p \<le> length pat" for p
      using that prems(3) v by (intro IH) (auto split: option.splits)
    have star: "\<exists>b. scan_loop pat val (pi + 1) vi (Some (pi, vi)) = Some b" if "pi < length pat"
      using that prems(3) v by (intro IH) (auto split: option.splits)
    let ?len = "length (takeWhile (\<lambda>c. c \<noteq> CHR '']'') (drop (pi + 1) pat))"
    have "?len \<le> length pat - (pi + 1)" using length_takeWhile_le [of "\<lambda>c. c \<noteq> CHR '']''" "drop (pi + 1) pat"] by simp
    with advance have cls: "\<exists>b. scan_loop pat val (pi + 1 + ?len + 1) (vi + 1) star = Some b"
      if "pi < length pat" "pi + 1 + ?len \<noteq> length pat" using that by simp
    show ?thesis
      using v retry advance [of "pi + 1"] star cls by (subst scan_loop.simps) (simp add: Let_def del: One_nat_def split del: if_split, auto simp: Let_def)
  qed
qed

section \<open>Classified patterns\<close>

definition plain_char :: "char \<Rightarrow> bool" where
  "plain_char c \<longleftrightarrow> c \<noteq> star_char \<and> c \<noteq> CHR ''?'' \<and> c \<noteq> CHR ''['' \<and> c \<noteq> backslash"

lemma tokens_plain: "list_all plain_char s \<Longrightarrow> tokens (s @ r) = map (\<lambda>c. Lit (ord c)) s @ tokens r"
  by (induction s) (auto simp: plain_char_def)

lemma tokens_star: "tokens (star_char # s) = Star # tokens s"
  by simp

lemma matches_lits: "matches (map (\<lambda>c. Lit (ord c)) s @ ts) v \<longleftrightarrow> take (length s) v = s \<and> matches ts (drop (length s) v)"
proof (induction s arbitrary: v)
  case (Cons c s)
  then show ?case by (cases v) auto
qed simp

lemma matches_lits_all: "matches (map (\<lambda>c. Lit (ord c)) s) w \<longleftrightarrow> w = s"
proof (induction s arbitrary: w)
  case (Cons c s)
  then show ?case by (cases w) auto
qed simp

lemma matches_Star_lits:
  "matches (Star # map (\<lambda>c. Lit (ord c)) s) v \<longleftrightarrow> length s \<le> length v \<and> drop (length v - length s) v = s"
  by (auto simp: matches_Star matches_lits_all intro!: exI [of _ "length v - length s"])

lemma classify_scan_spec:
  "classify_scan cs i n pos = Some (n', pos') \<Longrightarrow>
   (n' = n \<and> pos' = pos \<and> list_all plain_char cs) \<or>
   (n = 0 \<and> n' = 1 \<and> (\<exists>a b. cs = a @ star_char # b \<and> list_all plain_char a \<and> list_all plain_char b \<and> pos' = i + length a))"
proof (induction cs i n pos rule: classify_scan.induct)
  case (2 c cs i n pos)
  show ?case
  proof (cases "c = star_char")
    case True
    with 2(3) have n: "n = 0" "classify_scan cs (i + 1) 1 i = Some (n', pos')" by (simp_all split: if_splits)
    have "\<not> (c = backslash \<or> c = CHR ''?'' \<or> c = CHR ''['')" "\<not> n + 1 > 1" using True n(1) by simp_all
    from 2(1) [OF this(1) True this(2)] n have "n' = 1" "pos' = i" "list_all plain_char cs" by simp_all
    with n True show ?thesis by (intro disjI2 conjI exI [of _ "[]"] exI [of _ cs]) simp_all
  next
    case False
    with 2(3) have c: "plain_char c" "classify_scan cs (i + 1) n pos = Some (n', pos')"
      by (simp_all add: plain_char_def split: if_splits)
    have "\<not> (c = backslash \<or> c = CHR ''?'' \<or> c = CHR ''['')" using c(1) by (simp add: plain_char_def)
    from 2(2) [OF this False c(2)] consider "n' = n \<and> pos' = pos \<and> list_all plain_char cs"
      | a b where "n = 0" "n' = 1" "cs = a @ star_char # b" "list_all plain_char a" "list_all plain_char b" "pos' = i + 1 + length a"
      by blast
    then show ?thesis
    proof cases
      case 2
      with c show ?thesis by (intro disjI2 conjI exI [of _ "c # a"] exI [of _ b]) simp_all
    qed (use c in simp)
  qed
qed simp

lemma classify_cases:
  assumes "classify_pattern pat \<noteq> Pk_general"
  obtains (always) "pat = [star_char]" "classify_pattern pat = Pk_always"
    | (literal) "list_all plain_char pat" "classify_pattern pat = Pk_literal"
    | (star) a b where "pat = a @ star_char # b" "list_all plain_char a" "list_all plain_char b"
      "classify_pattern pat = (if b = [] then Pk_prefix else if a = [] then Pk_suffix else Pk_prefix_suffix)"
proof (cases "pat = [star_char]")
  case True
  then show ?thesis using always by (simp add: classify_pattern_def)
next
  case False
  with assms obtain n pos where s: "classify_scan pat 0 0 0 = Some (n, pos)"
    by (cases "classify_scan pat 0 0 0") (auto simp: classify_pattern_def)
  from classify_scan_spec [OF s] consider "n = 0" "list_all plain_char pat"
    | a b where "n = 1" "pat = a @ star_char # b" "list_all plain_char a" "list_all plain_char b" "pos = length a" by auto
  then show ?thesis
  proof cases
    case 1
    then show ?thesis using literal False s by (simp add: classify_pattern_def)
  next
    case 2
    then have "classify_pattern pat = (if b = [] then Pk_prefix else if a = [] then Pk_suffix else Pk_prefix_suffix)"
      using False s by (simp add: classify_pattern_def)
    with 2 star show ?thesis by blast
  qed
qed

lemma match_classified_meaning:
  "match_classified (classify_pattern pat) pat val = Some (matches (tokens pat) val)"
proof (cases "classify_pattern pat = Pk_general")
  case True
  then show ?thesis by (simp add: match_classified_def glob_match_general_def pubsub_glob.loop_result)
next
  case False
  then show ?thesis
  proof (cases pat rule: classify_cases)
    case always
    then show ?thesis by (simp add: match_classified_def matches_Star) (metis drop_all order_refl)
  next
    case literal
    then show ?thesis
      using tokens_plain [of pat "[]"] matches_lits_all [of pat val] by (auto simp: match_classified_def)
  next
    case (star a b)
    have t: "tokens pat = map (\<lambda>c. Lit (ord c)) a @ Star # map (\<lambda>c. Lit (ord c)) b"
      using star tokens_plain [of b "[]"] by (simp add: tokens_plain)
    have "takeWhile (\<lambda>c. c \<noteq> star_char) (a @ star_char # b) = a" using star(2)
      by (induction a) (auto simp: plain_char_def)
    then have tw: "takeWhile (\<lambda>c. c \<noteq> star_char) pat = a" by (simp add: star(1))
    have la: "length a \<le> length val" if "take (length a) val = a"
      using arg_cong [OF that, of length] by (simp add: min_def split: if_splits)
    have m: "matches (tokens pat) val \<longleftrightarrow> take (length a) val = a \<and> length b \<le> length val - length a \<and>
        drop (length val - length b) val = b"
    proof (cases "take (length a) val = a \<and> length b \<le> length val - length a")
      case True
      with la have "length val - length a - length b + length a = length val - length b" by linarith
      with True show ?thesis unfolding t matches_lits matches_Star_lits by simp
    qed (auto simp: t matches_lits matches_Star_lits)
    show ?thesis
      unfolding m match_classified_def star(4) using star(1) tw la by (auto simp: Let_def)
  qed
qed

section \<open>Properties\<close>

text \<open>C10: the Pub/Sub matcher decides the meaning of patterns. For every pattern and every value it returns,
  and the answer is whether the tokens of the pattern (stars, question marks, possibly negated classes
  with ranges and escapes, escaped and ordinary bytes) match the value; the shortcuts for literals,
  prefixes, suffixes and the like never change it.\<close>

theorem glob_match_meaning: "glob_match pat val = Some (matches (tokens pat) val)"
  by (simp add: glob_match_def match_classified_meaning)

text \<open>C39: the MATCH option of scans always returns; on patterns without classes and escapes and values
  without a star it agrees with the Pub/Sub matcher.\<close>

theorem scan_glob_match_agrees:
  "(\<exists>b. scan_glob_match pat val = Some b) \<and>
   (CHR ''['' \<notin> set pat \<and> CHR 0x5C \<notin> set pat \<and> CHR ''*'' \<notin> set val \<longrightarrow>
      scan_glob_match pat val = glob_match pat val)"
proof -
  have "scan_glob_match pat val = glob_match pat val" if "scan_plain pat val"
    using scan_glob.loop_result [OF that]
    by (simp add: scan_glob_match_def scan_from_def glob_match_def match_classified_meaning)
  with scan_loop_returns [of 0 pat 0 val None] show ?thesis by (auto simp: scan_glob_match_def scan_plain_def)
qed

theorem scan_glob_match_agrees_witness:
  "CHR ''['' \<notin> set ''a*c?'' \<and> scan_glob_match ''a*c?'' ''abccd'' = glob_match ''a*c?'' ''abccd''"
  using scan_glob_match_agrees [of "''a*c?''" "''abccd''"] by simp

text \<open>C40: a star in a scan pattern is taken literally when the value has a star at that place, before it is
  tried as a wildcard. So MATCH with the pattern of one star, which is to match everything, misses
  every key of at least two bytes that starts with a star, which the Pub/Sub matcher accepts.\<close>

theorem scan_misses_star_keys:
  assumes "s \<noteq> []"
  shows "scan_glob_match ''*'' (CHR ''*'' # s) = Some False \<and> glob_match ''*'' (CHR ''*'' # s) = Some True"
proof -
  have "scan_loop ''*'' (CHR ''*'' # s) 0 0 None = scan_loop ''*'' (CHR ''*'' # s) 1 1 None"
    by (subst scan_loop.simps) simp
  also have "\<dots> = Some False" using assms by (subst scan_loop.simps) simp
  finally show ?thesis by (simp add: scan_glob_match_def glob_match_def classify_pattern_def match_classified_def)
qed

theorem scan_misses_star_keys_witness: "scan_glob_match ''*'' ''*a'' = Some False"
  using scan_misses_star_keys [of "''a''"] by simp

end
