(* ===== verification/PubSub.thy ===== *)
theory PubSub
  imports Client_Output Glob_Match Transaction_Exec
begin

text \<open>
  Publish/subscribe (\<open>PubSubRegistry\<close> of \<open>src/pubsub.hpp\<close> and \<open>src/pubsub.cpp\<close>), in the build without the
  binary SBE protocol: subscription tables, acknowledgements, delivery, PUBSUB introspection, removal
  of connections.

  Connections are numbers. A subscriber set is the dense vector of the hash set the code uses: insertion
  appends, removal moves the last element into the gap. A subscription table is an association list; the
  order in which the hash table enumerates its keys is the argument \<open>layout\<close> of the one operation that
  depends on it. Calls of the subscription observer are collected in \<open>observer_calls\<close>. The scratch strings
  of the registry are overwritten before each use and are local here.
\<close>

datatype ack_kind = Ack_subscribe | Ack_psubscribe | Ack_unsubscribe | Ack_punsubscribe

record aggregate_state =
  weight_channels :: "string \<rightharpoonup> nat"
  weight_patterns :: "string \<rightharpoonup> nat"

record pubsub_session =
  ps_endpoint :: endpoint
  ps_wire_mode :: wire_mode
  literal_subscriptions :: nat
  pattern_subscriptions :: nat
  channel_names :: "string list"
  pattern_names :: "string list"
  bluefield_edge_id :: u64
  bluefield_aggregate :: bool
  bluefield_aggregate_state :: "aggregate_state option"

definition ps_subscription_count :: "pubsub_session \<Rightarrow> nat" where
  "ps_subscription_count p = literal_subscriptions p + pattern_subscriptions p"

definition clear_unsolicited_front_cache :: "endpoint \<Rightarrow> endpoint" where
  "clear_unsolicited_front_cache e = e\<lparr>unsolicited_front := None, unsolicited_front_offset := 0\<rparr>"

type_synonym sub_table = "(string \<times> nat list) list"

record pubsub =
  sessions :: "nat \<Rightarrow> pubsub_session"
  channels :: sub_table
  patterns :: sub_table
  pattern_publish :: "(string \<times> pattern_kind) list"
  overflowed :: "nat list"
  observer_calls :: "(string \<times> bool \<times> nat) list"

section \<open>Frames\<close>

definition kResp2MessagePrefix :: string where
  "kResp2MessagePrefix = ''*3'' @ crlf @ ''$7'' @ crlf @ ''message'' @ crlf"
definition kResp3MessagePrefix :: string where
  "kResp3MessagePrefix = ''>3'' @ crlf @ ''$7'' @ crlf @ ''message'' @ crlf"
definition kResp2PmessagePrefix :: string where
  "kResp2PmessagePrefix = ''*4'' @ crlf @ ''$8'' @ crlf @ ''pmessage'' @ crlf"
definition kResp3PmessagePrefix :: string where
  "kResp3PmessagePrefix = ''>4'' @ crlf @ ''$8'' @ crlf @ ''pmessage'' @ crlf"

definition lower :: "char \<Rightarrow> nat" where
  "lower c = (if ord c \<ge> 65 \<and> ord c \<le> 90 then ord c + 32 else ord c)"

definition equals_ci :: "string \<Rightarrow> string \<Rightarrow> bool" where
  "equals_ci lhs rhs \<longleftrightarrow> length lhs = length rhs \<and> list_all (\<lambda>(a, b). lower a = lower b) (zip lhs rhs)"

definition append_literal_body :: "string \<Rightarrow> string \<Rightarrow> string \<Rightarrow> string \<Rightarrow> string" where
  "append_literal_body out prefix channel payload =
     append_bulk_string (append_bulk_string (out @ prefix) channel) payload"

definition append_pattern_body :: "string \<Rightarrow> string \<Rightarrow> string \<Rightarrow> string \<Rightarrow> string \<Rightarrow> string" where
  "append_pattern_body out prefix pattern channel payload =
     append_bulk_string (append_bulk_string (append_bulk_string (out @ prefix) pattern) channel) payload"

text \<open>The bits \<open>kModeResp2\<close>, \<open>kModeResp3\<close> and \<open>kModeSbe\<close>.\<close>

record modes =
  mode_resp2 :: bool
  mode_resp3 :: bool
  mode_sbe :: bool

definition excluded_session :: "u64 \<Rightarrow> pubsub_session \<Rightarrow> bool" where
  "excluded_session edge p \<longleftrightarrow> bluefield_aggregate p \<or> (edge \<noteq> 0 \<and> bluefield_edge_id p = edge)"

fun collect_modes_from :: "(nat \<Rightarrow> pubsub_session) \<Rightarrow> u64 \<Rightarrow> nat list \<Rightarrow> modes \<Rightarrow> modes" where
  "collect_modes_from ss edge [] m = m"
| "collect_modes_from ss edge (j # js) m =
     (if excluded_session edge (ss j) then collect_modes_from ss edge js m
      else
        let m = (case ps_wire_mode (ss j) of
                   Wire_resp3 \<Rightarrow> m\<lparr>mode_resp3 := True\<rparr>
                 | Wire_sbe \<Rightarrow> m\<lparr>mode_sbe := True\<rparr>
                 | _ \<Rightarrow> m\<lparr>mode_resp2 := True\<rparr>)
        in if mode_resp2 m \<and> mode_resp3 m \<and> mode_sbe m then m else collect_modes_from ss edge js m)"

definition collect_modes :: "(nat \<Rightarrow> pubsub_session) \<Rightarrow> nat list \<Rightarrow> u64 \<Rightarrow> modes" where
  "collect_modes ss js edge = collect_modes_from ss edge js \<lparr>mode_resp2 = False, mode_resp3 = False, mode_sbe = False\<rparr>"

definition no_modes :: "modes \<Rightarrow> bool" where
  "no_modes m \<longleftrightarrow> \<not> mode_resp2 m \<and> \<not> mode_resp3 m \<and> \<not> mode_sbe m"

definition encode_literal_frames :: "modes \<Rightarrow> string \<Rightarrow> string \<Rightarrow> string \<times> string \<Rightarrow> string \<times> string" where
  "encode_literal_frames m channel payload scratch =
     (case scratch of
        (resp2, resp3) \<Rightarrow>
          if mode_resp2 m \<and> mode_resp3 m then
            let resp2 = append_literal_body [] kResp2MessagePrefix channel payload
            in (resp2, resp2[0 := CHR ''>''])
          else if mode_resp2 m then (append_literal_body [] kResp2MessagePrefix channel payload, resp3)
          else if mode_resp3 m then (resp2, append_literal_body [] kResp3MessagePrefix channel payload)
          else (resp2, resp3))"

definition encode_pattern_frames :: "modes \<Rightarrow> string \<Rightarrow> string \<Rightarrow> string \<Rightarrow> string \<times> string \<Rightarrow> string \<times> string" where
  "encode_pattern_frames m pattern channel payload scratch =
     (case scratch of
        (resp2, resp3) \<Rightarrow>
          if mode_resp2 m \<and> mode_resp3 m then
            let resp2 = append_pattern_body [] kResp2PmessagePrefix pattern channel payload
            in (resp2, resp2[0 := CHR ''>''])
          else if mode_resp2 m then (append_pattern_body [] kResp2PmessagePrefix pattern channel payload, resp3)
          else if mode_resp3 m then (resp2, append_pattern_body [] kResp3PmessagePrefix pattern channel payload)
          else (resp2, resp3))"

definition append_command_error :: "string \<Rightarrow> string \<Rightarrow> string" where
  "append_command_error out message = out @ ''-'' @ ''ERR '' @ message @ crlf"

definition append_ack :: "string \<Rightarrow> pubsub_session \<Rightarrow> ack_kind \<Rightarrow> string option \<Rightarrow> string" where
  "append_ack out p kind name =
     (let kind_text = (case kind of Ack_subscribe \<Rightarrow> ''subscribe'' | Ack_psubscribe \<Rightarrow> ''psubscribe''
                       | Ack_unsubscribe \<Rightarrow> ''unsubscribe'' | Ack_punsubscribe \<Rightarrow> ''punsubscribe'');
          out = (if ps_wire_mode p = Wire_resp3 then append_push_header out 3 else append_array_header out 3);
          out = append_bulk_string out kind_text;
          out = (case name of
                   Some n \<Rightarrow> append_bulk_string out n
                 | None \<Rightarrow> append_null out (if ps_wire_mode p = Wire_resp3 then Resp3 else Resp2))
      in append_integer out (int (ps_subscription_count p)))"

section \<open>Tables\<close>

text \<open>Removal of the first element with a property by moving the last one into its place, as \<open>erase_name\<close>,
  \<open>erase_pattern_publish_entry\<close> and the erasure from a dense set do it.\<close>

definition swap_remove :: "('a \<Rightarrow> bool) \<Rightarrow> 'a list \<Rightarrow> 'a list" where
  "swap_remove P xs =
     (let i = length (takeWhile (\<lambda>x. \<not> P x) xs)
      in if i < length xs then butlast (xs[i := last xs]) else xs)"

definition erase_name :: "string list \<Rightarrow> string \<Rightarrow> string list" where
  "erase_name names name = swap_remove (\<lambda>n. n = name) names"

definition erase_pattern_publish_entry :: "string \<Rightarrow> pubsub \<Rightarrow> pubsub" where
  "erase_pattern_publish_entry pattern s =
     s\<lparr>pattern_publish := swap_remove (\<lambda>e. fst e = pattern) (pattern_publish s)\<rparr>"

definition table_of :: "bool \<Rightarrow> pubsub \<Rightarrow> sub_table" where
  "table_of pat s = (if pat then patterns s else channels s)"

definition set_table :: "bool \<Rightarrow> sub_table \<Rightarrow> pubsub \<Rightarrow> pubsub" where
  "set_table pat t s = (if pat then s\<lparr>patterns := t\<rparr> else s\<lparr>channels := t\<rparr>)"

definition table_put :: "string \<Rightarrow> nat list \<Rightarrow> sub_table \<Rightarrow> sub_table" where
  "table_put name subs t = map (\<lambda>(k, v). if k = name then (k, subs) else (k, v)) t"

definition table_erase :: "string \<Rightarrow> sub_table \<Rightarrow> sub_table" where
  "table_erase name t = filter (\<lambda>(k, v). k \<noteq> name) t"

definition names_of :: "bool \<Rightarrow> pubsub_session \<Rightarrow> string list" where
  "names_of pat p = (if pat then pattern_names p else channel_names p)"

definition set_names :: "bool \<Rightarrow> string list \<Rightarrow> pubsub_session \<Rightarrow> pubsub_session" where
  "set_names pat names p = (if pat then p\<lparr>pattern_names := names\<rparr> else p\<lparr>channel_names := names\<rparr>)"

definition count_of :: "bool \<Rightarrow> pubsub_session \<Rightarrow> nat" where
  "count_of pat p = (if pat then pattern_subscriptions p else literal_subscriptions p)"

definition set_count :: "bool \<Rightarrow> nat \<Rightarrow> pubsub_session \<Rightarrow> pubsub_session" where
  "set_count pat n p = (if pat then p\<lparr>pattern_subscriptions := n\<rparr> else p\<lparr>literal_subscriptions := n\<rparr>)"

definition set_session :: "nat \<Rightarrow> pubsub_session \<Rightarrow> pubsub \<Rightarrow> pubsub" where
  "set_session i p s = s\<lparr>sessions := (sessions s)(i := p)\<rparr>"

definition notify_subscription_changed :: "string \<Rightarrow> bool \<Rightarrow> nat \<Rightarrow> pubsub \<Rightarrow> pubsub" where
  "notify_subscription_changed name pat n s = s\<lparr>observer_calls := observer_calls s @ [(name, pat, n)]\<rparr>"

text \<open>Changing the weights of an aggregate connection.\<close>

definition update_weights :: "bool \<Rightarrow> ((string \<rightharpoonup> nat) \<Rightarrow> (string \<rightharpoonup> nat)) \<Rightarrow> pubsub_session \<Rightarrow> pubsub_session" where
  "update_weights pat f p =
     (case bluefield_aggregate_state p of
        Some a \<Rightarrow>
          if bluefield_aggregate p
          then p\<lparr>bluefield_aggregate_state :=
                   Some (if pat then a\<lparr>weight_patterns := f (weight_patterns a)\<rparr>
                         else a\<lparr>weight_channels := f (weight_channels a)\<rparr>)\<rparr>
          else p
      | None \<Rightarrow> p)"

section \<open>Subscribing\<close>

definition subscribe_one :: "bool \<Rightarrow> nat \<Rightarrow> pubsub \<times> string \<Rightarrow> string \<Rightarrow> pubsub \<times> string" where
  "subscribe_one pat i so name =
     (let s = fst so; out = snd so;
          inserted_name = (name \<notin> fst ` set (table_of pat s));
          s = (if inserted_name then set_table pat (table_of pat s @ [(name, [])]) s else s);
          s = (if inserted_name \<and> pat
               then s\<lparr>pattern_publish := pattern_publish s @ [(name, classify_pattern name)]\<rparr> else s);
          subscribers = the (map_of (table_of pat s) name);
          s = (if i \<in> set subscribers then s
               else
                 let s = set_table pat (table_put name (subscribers @ [i]) (table_of pat s)) s;
                     p = sessions s i;
                     p = set_count pat (count_of pat p + 1) p;
                     p = set_names pat (names_of pat p @ [name]) p;
                     p = update_weights pat (\<lambda>w. if w name = None then w(name \<mapsto> 1) else w) p
                 in notify_subscription_changed name pat (length (subscribers @ [i])) (set_session i p s))
      in (s, append_ack out (sessions s i) (if pat then Ack_psubscribe else Ack_subscribe) (Some name)))"

definition subscribe :: "nat \<Rightarrow> string list \<Rightarrow> bool \<Rightarrow> pubsub \<times> string \<Rightarrow> pubsub \<times> string" where
  "subscribe i names pat so = foldl (subscribe_one pat i) so names"

text \<open>One name of \<open>unsubscribe\<close>; \<open>forget\<close> tells whether the name is erased from the reverse index now.\<close>

definition unsubscribe_one :: "bool \<Rightarrow> bool \<Rightarrow> nat \<Rightarrow> pubsub \<times> string \<Rightarrow> string \<Rightarrow> pubsub \<times> string" where
  "unsubscribe_one forget pat i so name =
     (let s = fst so; out = snd so;
          s = (case map_of (table_of pat s) name of
                 None \<Rightarrow> s
               | Some subscribers \<Rightarrow>
                   let removed = (i \<in> set subscribers);
                       subscribers = swap_remove (\<lambda>j. j = i) subscribers;
                       s = set_table pat (table_put name subscribers (table_of pat s)) s;
                       p = sessions s i;
                       p = (if removed then set_count pat (count_of pat p - 1) p else p);
                       p = (if removed \<and> forget then set_names pat (erase_name (names_of pat p) name) p else p);
                       p = (if removed then update_weights pat (\<lambda>w. w(name := None)) p else p);
                       s = (if removed then notify_subscription_changed name pat (length subscribers) (set_session i p s)
                            else s)
                   in if subscribers = []
                      then let s = set_table pat (table_erase name (table_of pat s)) s
                           in if pat then erase_pattern_publish_entry name s else s
                      else s)
      in (s, append_ack out (sessions s i) (if pat then Ack_punsubscribe else Ack_unsubscribe) (Some name)))"

definition unsubscribe :: "nat \<Rightarrow> string list \<Rightarrow> bool \<Rightarrow> pubsub \<times> string \<Rightarrow> pubsub \<times> string" where
  "unsubscribe i names pat so =
     (if names = [] then
        let reverse = names_of pat (sessions (fst so) i)
        in if reverse = []
           then (fst so, append_ack (snd so) (sessions (fst so) i) (if pat then Ack_punsubscribe else Ack_unsubscribe) None)
           else
             let (s, out) = foldl (unsubscribe_one False pat i) so reverse
             in (set_session i (set_names pat [] (sessions s i)) s, out)
      else foldl (unsubscribe_one True pat i) so names)"

section \<open>Removing a connection\<close>

definition remove_one :: "bool \<Rightarrow> nat \<Rightarrow> pubsub \<Rightarrow> string \<Rightarrow> pubsub" where
  "remove_one pat i s name =
     (case map_of (table_of pat s) name of
        None \<Rightarrow> s
      | Some subscribers \<Rightarrow>
          let removed = (i \<in> set subscribers);
              subscribers = swap_remove (\<lambda>j. j = i) subscribers;
              s = set_table pat (table_put name subscribers (table_of pat s)) s;
              s = (if removed then notify_subscription_changed name pat (length subscribers) s else s)
          in if subscribers = []
             then let s = set_table pat (table_erase name (table_of pat s)) s
                  in if pat then erase_pattern_publish_entry name s else s
             else s)"

definition clear_output :: "pubsub_session \<Rightarrow> pubsub_session" where
  "clear_output p =
     (let e = ps_endpoint p
      in p\<lparr>ps_endpoint := clear_unsolicited_front_cache (e\<lparr>unsolicited := oq_clear (unsolicited e)\<rparr>)\<rparr>)"

definition remove :: "nat \<Rightarrow> pubsub \<Rightarrow> pubsub" where
  "remove i s =
     (let p = sessions s i
      in if ps_subscription_count p = 0 \<and> channel_names p = [] \<and> pattern_names p = []
         then set_session i (clear_output p) s
         else
           let s = foldl (remove_one False i) s (channel_names (sessions s i));
               s = set_session i (set_count False 0 (set_names False [] (sessions s i))) s;
               s = foldl (remove_one True i) s (pattern_names (sessions s i));
               s = set_session i (set_count True 0 (set_names True [] (sessions s i))) s;
               p = sessions s i;
               p = p\<lparr>bluefield_aggregate_state :=
                       map_option (\<lambda>a. a\<lparr>weight_channels := Map.empty, weight_patterns := Map.empty\<rparr>)
                         (bluefield_aggregate_state p)\<rparr>
           in set_session i (clear_output p) s)"

definition cleanup_overflowed :: "pubsub \<Rightarrow> pubsub" where
  "cleanup_overflowed s = (foldl (\<lambda>s i. remove i s) s (overflowed s))\<lparr>overflowed := []\<rparr>"

section \<open>Publishing\<close>

definition ps_enqueue :: "nat \<Rightarrow> string \<Rightarrow> pubsub \<Rightarrow> bool \<times> pubsub" where
  "ps_enqueue j bytes s =
     (let p = sessions s j; (accepted, e) = enqueue (ps_endpoint p) bytes;
          s' = set_session j (p\<lparr>ps_endpoint := e\<rparr>) s
      in (accepted,
          if \<not> accepted \<and> \<not> close_requested (ps_endpoint p)
          then s'\<lparr>overflowed := overflowed s' @ [j]\<rparr> else s'))"

text \<open>The bytes for a connection: \<open>None\<close> when it is skipped.\<close>

definition bytes_for :: "modes \<Rightarrow> string \<times> string \<Rightarrow> wire_mode \<Rightarrow> string option" where
  "bytes_for m scratch wire =
     (let by_mode = (case wire of
                       Wire_resp3 \<Rightarrow> if mode_resp3 m then Some (snd scratch) else None
                     | Wire_sbe \<Rightarrow> None
                     | _ \<Rightarrow> if mode_resp2 m then Some (fst scratch) else None)
      in case by_mode of
           Some bytes \<Rightarrow> Some bytes
         | None \<Rightarrow>
             let fallback = (if mode_resp2 m then fst scratch else if mode_resp3 m then snd scratch else [])
             in if fallback = [] then None else Some fallback)"

fun deliver_to_set :: "nat list \<Rightarrow> modes \<Rightarrow> string \<times> string \<Rightarrow> u64 \<Rightarrow> pubsub \<times> int \<Rightarrow> pubsub \<times> int" where
  "deliver_to_set [] m scratch edge sd = sd"
| "deliver_to_set (j # js) m scratch edge sd =
     (let s = fst sd; deliveries = snd sd
      in if excluded_session edge (sessions s j) then deliver_to_set js m scratch edge sd
         else case bytes_for m scratch (ps_wire_mode (sessions s j)) of
           None \<Rightarrow> deliver_to_set js m scratch edge sd
         | Some bytes \<Rightarrow>
             let (accepted, s) = ps_enqueue j bytes s
             in deliver_to_set js m scratch edge (s, if accepted then deliveries + 1 else deliveries))"

definition publish_channel :: "string \<Rightarrow> string \<Rightarrow> u64 \<Rightarrow> pubsub \<times> int \<Rightarrow> pubsub \<times> int" where
  "publish_channel channel payload edge sd =
     (case map_of (channels (fst sd)) channel of
        None \<Rightarrow> sd
      | Some subscribers \<Rightarrow>
          if subscribers = [] then sd
          else
            let m = collect_modes (sessions (fst sd)) subscribers edge
            in if no_modes m then sd
               else deliver_to_set subscribers m (encode_literal_frames m channel payload ([], [])) edge sd)"

definition publish_pattern :: "string \<Rightarrow> string \<Rightarrow> u64 \<Rightarrow> pubsub \<times> int \<Rightarrow> string \<times> pattern_kind \<Rightarrow> pubsub \<times> int" where
  "publish_pattern channel payload edge sd entry =
     (if match_classified (snd entry) (fst entry) channel \<noteq> Some True then sd
      else case map_of (patterns (fst sd)) (fst entry) of
        None \<Rightarrow> sd
      | Some subscribers \<Rightarrow>
          if subscribers = [] then sd
          else
            let m = collect_modes (sessions (fst sd)) subscribers edge
            in if no_modes m then sd
               else deliver_to_set subscribers m (encode_pattern_frames m (fst entry) channel payload ([], [])) edge sd)"

definition publish :: "string \<Rightarrow> string \<Rightarrow> u64 \<Rightarrow> pubsub \<Rightarrow> int \<times> pubsub" where
  "publish channel payload edge s =
     (let sd = publish_channel channel payload edge (s, 0);
          (s, deliveries) = foldl (publish_pattern channel payload edge) sd (pattern_publish (fst sd))
      in (deliveries, cleanup_overflowed s))"

section \<open>Weights of aggregate connections\<close>

definition bluefield_subscription_weight :: "pubsub_session \<Rightarrow> string \<Rightarrow> bool \<Rightarrow> nat" where
  "bluefield_subscription_weight p name pat =
     (case bluefield_aggregate_state p of
        Some a \<Rightarrow>
          if bluefield_aggregate p
          then (case (if pat then weight_patterns a else weight_channels a) name of None \<Rightarrow> 0 | Some w \<Rightarrow> w)
          else 1
      | None \<Rightarrow> 1)"

definition subscriber_count :: "(nat \<Rightarrow> pubsub_session) \<Rightarrow> nat list \<Rightarrow> string \<Rightarrow> bool \<Rightarrow> nat" where
  "subscriber_count ss js name pat =
     min (foldl (\<lambda>n j. (n + bluefield_subscription_weight (ss j) name pat) mod 2 ^ 64) 0 js) (2 ^ 32 - 1)"

definition set_bluefield_subscription_weight :: "nat \<Rightarrow> string \<Rightarrow> bool \<Rightarrow> nat \<Rightarrow> pubsub \<Rightarrow> bool \<times> pubsub" where
  "set_bluefield_subscription_weight i name pat subscribers s =
     (let p = sessions s i
      in case bluefield_aggregate_state p of
           None \<Rightarrow> (False, s)
         | Some a \<Rightarrow>
             if \<not> bluefield_aggregate p \<or> subscribers = 0 then (False, s)
             else case map_of (table_of pat s) name of
               None \<Rightarrow> (False, s)
             | Some subscribed \<Rightarrow>
                 if i \<notin> set subscribed \<or> (if pat then weight_patterns a else weight_channels a) name = None
                 then (False, s)
                 else (True, set_session i (update_weights pat (\<lambda>w. w(name \<mapsto> subscribers)) p) s))"

section \<open>Commands\<close>

definition pubsub_channels :: "(string list \<Rightarrow> string list) \<Rightarrow> string list \<Rightarrow> pubsub \<Rightarrow> string \<Rightarrow> string" where
  "pubsub_channels layout args s out =
     (if length args > 2 then append_command_error out ''wrong number of arguments for 'pubsub|channels' command''
      else
        let filt = (if length args = 2 then args ! 1 else ''*'');
            match_all = (filt = ''*'');
            filter_kind = (if match_all then Pk_always else classify_pattern filt);
            names = filter (\<lambda>n. match_all \<or> match_classified filter_kind filt n = Some True)
                      (layout (map fst (channels s)))
        in foldl append_bulk_string (append_array_header out (length names)) names)"

definition pubsub_numpat :: "string list \<Rightarrow> pubsub \<Rightarrow> string \<Rightarrow> string" where
  "pubsub_numpat args s out =
     (if length args \<noteq> 1 then append_command_error out ''wrong number of arguments for 'pubsub|numpat' command''
      else append_integer out (int (length (patterns s))))"

definition pubsub_numsub :: "string list \<Rightarrow> pubsub \<Rightarrow> string \<Rightarrow> string" where
  "pubsub_numsub args s out =
     (let count = (\<lambda>c. case map_of (channels s) c of None \<Rightarrow> 0 | Some js \<Rightarrow> subscriber_count (sessions s) js c False)
      in foldl (\<lambda>out c. append_integer (append_bulk_string out c) (int (count c)))
           (append_array_header out ((length args - 1) * 2)) (drop 1 args))"

definition pubsub_subcommand :: "(string list \<Rightarrow> string list) \<Rightarrow> string list \<Rightarrow> pubsub \<Rightarrow> string \<Rightarrow> string" where
  "pubsub_subcommand layout args s out =
     (let sub = args ! 0
      in if length sub = 8 \<and> equals_ci sub ''channels'' then pubsub_channels layout args s out
         else if length sub = 6 \<and> equals_ci sub ''numpat'' then pubsub_numpat args s out
         else if length sub = 6 \<and> equals_ci sub ''numsub'' then pubsub_numsub args s out
         else append_command_error out ''unknown PUBSUB subcommand'')"

text \<open>\<open>execute\<close> on parsed commands: the parser has checked that PUBLISH has two arguments and PUBSUB at
  least one.\<close>

definition ps_execute :: "(string list \<Rightarrow> string list) \<Rightarrow> nat \<Rightarrow> command \<Rightarrow> pubsub \<Rightarrow> string \<Rightarrow> pubsub \<times> string" where
  "ps_execute layout i c s out =
     (case cmd_type c of
        Ct_subscribe \<Rightarrow>
          if cmd_args c = [] then (s, append_command_error out ''SUBSCRIBE requires at least one channel'')
          else subscribe i (cmd_args c) False (s, out)
      | Ct_psubscribe \<Rightarrow>
          if cmd_args c = [] then (s, append_command_error out ''PSUBSCRIBE requires at least one pattern'')
          else subscribe i (cmd_args c) True (s, out)
      | Ct_unsubscribe \<Rightarrow> unsubscribe i (cmd_args c) False (s, out)
      | Ct_punsubscribe \<Rightarrow> unsubscribe i (cmd_args c) True (s, out)
      | Ct_publish \<Rightarrow>
          (case publish (cmd_args c ! 0) (cmd_args c ! 1) (bluefield_edge_id (sessions s i)) s of
             (delivered, s) \<Rightarrow> (s, append_integer out delivered))
      | Ct_pubsub \<Rightarrow> (s, pubsub_subcommand layout (cmd_args c) s out)
      | _ \<Rightarrow> (s, out))"

end
