(* ===== verification/PubSub_Correct.thy ===== *)
theory PubSub_Correct
  imports PubSub Resp_Writer_Correct Glob_Match_Correct Client_Output_Correct
begin

text \<open>
  The Pub/Sub registry keeps its tables and its connections in step, it implements a relation between
  connections and subscribed names, and a publication reaches exactly the connections that relation
  and the meaning of the patterns name.
\<close>

section \<open>Moving the last element into the gap\<close>

lemma swap_remove_split:
  assumes "x \<in> set xs" and "P x"
  obtains a y b where "xs = a @ y # b" "P y" "\<forall>z \<in> set a. \<not> P z"
    "swap_remove P xs = (if b = [] then a else a @ last b # butlast b)"
proof -
  define a where "a = takeWhile (\<lambda>x. \<not> P x) xs"
  obtain y b where y: "dropWhile (\<lambda>x. \<not> P x) xs = y # b" "P y"
    using assms by (metis (mono_tags, lifting) dropWhile_eq_Nil_conv hd_dropWhile list.collapse)
  have xs: "xs = a @ y # b" unfolding a_def y(1) [symmetric] by simp
  have a: "\<forall>z \<in> set a. \<not> P z" unfolding a_def by (auto dest: set_takeWhileD)
  have len: "length a < length xs" by (simp add: xs)
  have "swap_remove P xs = butlast (xs[length a := last xs])"
    using len by (simp add: swap_remove_def a_def [symmetric])
  also have "\<dots> = (if b = [] then a else a @ last b # butlast b)"
    by (simp add: xs butlast_append)
  finally show ?thesis using that xs y(2) a by blast
qed

lemma swap_remove_none: "\<forall>x \<in> set xs. \<not> P x \<Longrightarrow> swap_remove P xs = xs"
proof -
  assume "\<forall>x \<in> set xs. \<not> P x"
  then have "takeWhile (\<lambda>x. \<not> P x) xs = xs" by simp
  then show ?thesis by (simp only: swap_remove_def Let_def less_irrefl if_False)
qed

lemma swap_remove_Nil [simp]: "swap_remove P [] = []"
  by (simp add: swap_remove_def)

lemma map_swap_remove: "map f (swap_remove (\<lambda>x. P (f x)) xs) = swap_remove P (map f xs)"
proof -
  have "length (takeWhile (\<lambda>x. \<not> P x) (map f xs)) = length (takeWhile (\<lambda>x. \<not> P (f x)) xs)"
    by (simp add: takeWhile_map comp_def)
  then show ?thesis by (cases "xs = []") (auto simp: swap_remove_def Let_def map_butlast map_update last_map)
qed

lemma swap_remove_set:
  assumes "distinct (map f xs)"
  shows "set (swap_remove (\<lambda>x. f x = a) xs) = {x \<in> set xs. f x \<noteq> a}" "distinct (map f (swap_remove (\<lambda>x. f x = a) xs))"
proof -
  have "set (swap_remove (\<lambda>x. f x = a) xs) = {x \<in> set xs. f x \<noteq> a} \<and> distinct (map f (swap_remove (\<lambda>x. f x = a) xs))"
  proof (cases "\<exists>x \<in> set xs. f x = a")
    case True
    then obtain x where "x \<in> set xs" "f x = a" by blast
    then obtain l y r where s: "xs = l @ y # r" "f y = a" "swap_remove (\<lambda>x. f x = a) xs = (if r = [] then l else l @ last r # butlast r)"
      by (rule swap_remove_split [of x xs "\<lambda>x. f x = a"])
    show ?thesis
    proof (cases r rule: rev_cases)
      case Nil
      with s assms show ?thesis by (auto simp: image_iff)
    next
      case (snoc r' z)
      with s assms show ?thesis by (auto simp: image_iff)
    qed
  next
    case False
    then show ?thesis using assms swap_remove_none [of xs "\<lambda>x. f x = a"] by auto
  qed
  then show "set (swap_remove (\<lambda>x. f x = a) xs) = {x \<in> set xs. f x \<noteq> a}" "distinct (map f (swap_remove (\<lambda>x. f x = a) xs))"
    by blast+
qed

lemmas swap_remove_distinct = swap_remove_set [of "\<lambda>x. x", simplified]

lemma length_swap_remove: "x \<in> set xs \<Longrightarrow> P x \<Longrightarrow> length (swap_remove P xs) = length xs - 1"
  by (erule (1) swap_remove_split) (auto split: if_splits)

section \<open>Subscription tables\<close>

definition subs :: "sub_table \<Rightarrow> string \<Rightarrow> nat list" where
  "subs t n = (case map_of t n of None \<Rightarrow> [] | Some js \<Rightarrow> js)"

abbreviation subscribers_of :: "bool \<Rightarrow> pubsub \<Rightarrow> string \<Rightarrow> nat list" where
  "subscribers_of pat s n \<equiv> subs (table_of pat s) n"

definition table_ok :: "sub_table \<Rightarrow> bool" where
  "table_ok t \<longleftrightarrow> distinct (map fst t) \<and> (\<forall>(k, js) \<in> set t. js \<noteq> [] \<and> distinct js)"

lemma table_put_keys [simp]: "map fst (table_put n js t) = map fst t"
  by (auto simp: table_put_def)

lemma set_table_put:
  "(k, v) \<in> set (table_put n js t) \<longleftrightarrow> (k \<noteq> n \<and> (k, v) \<in> set t) \<or> (k = n \<and> v = js \<and> n \<in> fst ` set t)"
proof (induction t)
  case (Cons kv t)
  then show ?case by (cases kv) (auto simp: table_put_def split: if_splits)
qed (simp add: table_put_def)

lemma subs_put: "subs (table_put n js t) m = (if m = n \<and> n \<in> fst ` set t then js else subs t m)"
proof -
  have "map_of (table_put n js t) m = (if m = n \<and> n \<in> fst ` set t then Some js else map_of t m)"
  proof (induction t)
    case (Cons kv t)
    then show ?case by (cases kv; cases "m = n"; cases "n \<in> fst ` set t") (simp_all add: table_put_def)
  qed (simp add: table_put_def)
  then show ?thesis by (simp add: subs_def)
qed

lemma subs_erase: "subs (table_erase n t) m = (if m = n then [] else subs t m)"
proof -
  have "map_of (table_erase n t) m = (if m = n then None else map_of t m)"
  proof (induction t)
    case (Cons kv t)
    then show ?case by (cases kv) (auto simp: table_erase_def)
  qed (simp add: table_erase_def)
  then show ?thesis by (simp add: subs_def)
qed

lemma subs_snoc: "n \<notin> fst ` set t \<Longrightarrow> subs (t @ [(n, js)]) m = (if m = n then js else subs t m)"
  using map_of_eq_None_iff [of t n] by (simp add: subs_def map_add_def split: option.splits)

lemma table_ok_lookup:
  "table_ok t \<Longrightarrow> map_of t n = (if subs t n = [] then None else Some (subs t n)) \<and> distinct (subs t n)"
  by (auto simp: subs_def table_ok_def dest!: map_of_SomeD split: option.splits)

lemma table_ok_keys: "table_ok t \<Longrightarrow> n \<in> fst ` set t \<longleftrightarrow> subs t n \<noteq> []"
  using table_ok_lookup [of t n] map_of_eq_None_iff [of t n] by (auto split: if_splits)

lemma table_ok_alt: "table_ok t \<longleftrightarrow> distinct (map fst t) \<and> (\<forall>k js. (k, js) \<in> set t \<longrightarrow> js \<noteq> [] \<and> distinct js)"
  by (auto simp: table_ok_def)

lemma table_ok_put: "table_ok t \<Longrightarrow> js \<noteq> [] \<Longrightarrow> distinct js \<Longrightarrow> table_ok (table_put n js t)"
  unfolding table_ok_alt table_put_keys set_table_put by blast

lemma table_ok_put_erase: "table_ok t \<Longrightarrow> table_ok (table_erase n (table_put n js t))"
  unfolding table_ok_alt table_erase_def by (auto simp: set_table_put distinct_map_filter)

lemma table_ok_add:
  "table_ok t \<Longrightarrow> n \<notin> fst ` set t \<Longrightarrow> js \<noteq> [] \<Longrightarrow> distinct js \<Longrightarrow> table_ok (table_put n js (t @ [(n, [])]))"
  unfolding table_ok_alt table_put_keys set_table_put by auto


lemma table_access [simp]:
  "table_of q (set_table pat t s) = (if q = pat then t else table_of q s)"
  "table_of q (set_session i p s) = table_of q s"
  "table_of q (notify_subscription_changed n b k s) = table_of q s"
  "table_of q (erase_pattern_publish_entry n s) = table_of q s"
  "table_of q (s\<lparr>pattern_publish := pp\<rparr>) = table_of q s"
  "table_of q (s\<lparr>overflowed := ov\<rparr>) = table_of q s"
  "table_of q (s\<lparr>sessions := ss\<rparr>) = table_of q s"
  by (auto simp: table_of_def set_table_def set_session_def notify_subscription_changed_def erase_pattern_publish_entry_def)

lemma pubsub_access [simp]:
  "sessions (set_table pat t s) = sessions s" "sessions (set_session i p s) = (sessions s)(i := p)"
  "sessions (notify_subscription_changed n b k s) = sessions s" "sessions (erase_pattern_publish_entry n s) = sessions s"
  "pattern_publish (set_table pat t s) = pattern_publish s" "pattern_publish (set_session i p s) = pattern_publish s"
  "pattern_publish (notify_subscription_changed n b k s) = pattern_publish s"
  "pattern_publish (erase_pattern_publish_entry n s) = swap_remove (\<lambda>e. fst e = n) (pattern_publish s)"
  "overflowed (set_table pat t s) = overflowed s" "overflowed (set_session i p s) = overflowed s"
  "overflowed (notify_subscription_changed n b k s) = overflowed s" "overflowed (erase_pattern_publish_entry n s) = overflowed s"
  by (auto simp: set_table_def set_session_def notify_subscription_changed_def erase_pattern_publish_entry_def)

lemma session_access [simp]:
  "names_of q (set_names pat ns p) = (if q = pat then ns else names_of q p)" "names_of q (set_count pat k p) = names_of q p"
  "count_of q (set_count pat k p) = (if q = pat then k else count_of q p)" "count_of q (set_names pat ns p) = count_of q p"
  "names_of q (update_weights pat f p) = names_of q p" "count_of q (update_weights pat f p) = count_of q p"
  "ps_endpoint (set_names pat ns p) = ps_endpoint p" "ps_endpoint (set_count pat k p) = ps_endpoint p"
  "ps_endpoint (update_weights pat f p) = ps_endpoint p"
  "ps_wire_mode (set_names pat ns p) = ps_wire_mode p" "ps_wire_mode (set_count pat k p) = ps_wire_mode p"
  "ps_wire_mode (update_weights pat f p) = ps_wire_mode p"
  by (auto simp: names_of_def set_names_def count_of_def set_count_def update_weights_def split: option.splits)

section \<open>The invariant\<close>

definition publish_ok :: "pubsub \<Rightarrow> bool" where
  "publish_ok s \<longleftrightarrow> distinct (map fst (pattern_publish s)) \<and>
     set (pattern_publish s) = (\<lambda>n. (n, classify_pattern n)) ` {n. subscribers_of True s n \<noteq> []}"

definition tables_ok :: "pubsub \<Rightarrow> bool" where
  "tables_ok s \<longleftrightarrow> table_ok (table_of False s) \<and> table_ok (table_of True s) \<and> publish_ok s"

definition names_ok :: "pubsub \<Rightarrow> bool" where
  "names_ok s \<longleftrightarrow> (\<forall>pat j. distinct (names_of pat (sessions s j)) \<and>
     count_of pat (sessions s j) = length (names_of pat (sessions s j)) \<and>
     (\<forall>n. n \<in> set (names_of pat (sessions s j)) \<longleftrightarrow> j \<in> set (subscribers_of pat s n)))"

definition pubsub_ok :: "pubsub \<Rightarrow> bool" where
  "pubsub_ok s \<longleftrightarrow> tables_ok s \<and> names_ok s \<and> overflowed s = []"

lemma tables_okD: "tables_ok s \<Longrightarrow> table_ok (table_of pat s)"
  by (cases pat) (auto simp: tables_ok_def)

lemma tables_okI:
  assumes "tables_ok s" and "table_ok (table_of pat s')" and "table_of (\<not> pat) s' = table_of (\<not> pat) s"
    and "pat \<Longrightarrow> publish_ok s'" and "\<not> pat \<Longrightarrow> pattern_publish s' = pattern_publish s"
  shows "tables_ok s'"
  using assms by (cases pat) (auto simp: tables_ok_def publish_ok_def)

lemma remove_one_tables:
  assumes ok: "tables_ok s"
  shows "tables_ok (remove_one pat i s name)"
    and "j \<in> set (subscribers_of q (remove_one pat i s name) n) \<longleftrightarrow>
      j \<in> set (subscribers_of q s n) \<and> \<not> (q = pat \<and> n = name \<and> j = i)"
    and "sessions (remove_one pat i s name) = sessions s" "overflowed (remove_one pat i s name) = overflowed s"
    and "length (subscribers_of pat (remove_one pat i s name) name) =
      length (subscribers_of pat s name) - (if i \<in> set (subscribers_of pat s name) then 1 else 0)"
proof -
  let ?t = "table_of pat s" and ?js = "subscribers_of pat s name" and ?s = "remove_one pat i s name"
  note t = tables_okD [OF ok, of pat]
  note l = table_ok_lookup [OF t, of name]
  let ?new = "swap_remove (\<lambda>j. j = i) ?js"
  note sr = swap_remove_distinct [of ?js i]
  have "table_of q ?s = (if q = pat \<and> ?js \<noteq> [] then (if ?new = [] then table_erase name (table_put name ?new ?t)
      else table_put name ?new ?t) else table_of q s)" for q
    using l by (auto simp: remove_one_def Let_def)
  then have tab: "table_of q ?s = (if q = pat \<and> ?js \<noteq> [] then (if ?new = [] then table_erase name (table_put name ?new ?t)
      else table_put name ?new ?t) else table_of q s)" for q .
  have key: "?js \<noteq> [] \<Longrightarrow> name \<in> fst ` set ?t" using table_ok_keys [OF t] by simp
  have sub: "subscribers_of q ?s n = (if q = pat \<and> n = name then ?new else subscribers_of q s n)" for q n
    using key by (auto simp: tab subs_put subs_erase swap_remove_def)
  show "j \<in> set (subscribers_of q ?s n) \<longleftrightarrow> j \<in> set (subscribers_of q s n) \<and> \<not> (q = pat \<and> n = name \<and> j = i)"
    using sub [of q n] sr(1) l by auto
  show "sessions ?s = sessions s" "overflowed ?s = overflowed s"
    by (auto simp: remove_one_def Let_def split: option.splits)
  show "length (subscribers_of pat ?s name) = length ?js - (if i \<in> set ?js then 1 else 0)"
  proof (cases "i \<in> set ?js")
    case True
    then show ?thesis using length_swap_remove [of i ?js "\<lambda>j. j = i"] by (simp add: sub)
  next
    case False
    then have "?new = ?js" by (intro swap_remove_none) auto
    with False show ?thesis by (simp add: sub)
  qed
  have pp: "pattern_publish ?s = (if pat \<and> ?js \<noteq> [] \<and> ?new = [] then swap_remove (\<lambda>e. fst e = name) (pattern_publish s)
      else pattern_publish s)"
    using l by (auto simp: remove_one_def Let_def)
  show "tables_ok ?s"
  proof (rule tables_okI [OF ok, of pat])
    show "table_ok (table_of pat ?s)"
      using t sr(2) l by (auto simp: tab table_ok_put table_ok_put_erase)
    show "table_of (\<not> pat) ?s = table_of (\<not> pat) s" by (simp add: tab)
    show "\<not> pat \<Longrightarrow> pattern_publish ?s = pattern_publish s" using pp by simp
    assume pat
    then have po: "distinct (map fst (pattern_publish s))"
      "set (pattern_publish s) = (\<lambda>n. (n, classify_pattern n)) ` {n. subscribers_of True s n \<noteq> []}"
      using ok by (simp_all add: tables_ok_def publish_ok_def)
    show "publish_ok ?s"
      using po swap_remove_set [OF po(1), of name] \<open>pat\<close> unfolding publish_ok_def pp sub
      by (auto simp: image_iff)
  qed
qed


lemma unsubscribe_one_state:
  assumes "tables_ok s"
  shows "sessions (fst (unsubscribe_one forget pat i (s, out) name)) =
      (if i \<in> set (subscribers_of pat s name)
       then (sessions s)(i := update_weights pat (\<lambda>w. w(name := None))
          ((if forget then set_names pat (erase_name (names_of pat (sessions s i)) name) else (\<lambda>p. p))
             (set_count pat (count_of pat (sessions s i) - 1) (sessions s i))))
       else sessions s)"
    and "table_of q (fst (unsubscribe_one forget pat i (s, out) name)) = table_of q (remove_one pat i s name)"
    and "pattern_publish (fst (unsubscribe_one forget pat i (s, out) name)) = pattern_publish (remove_one pat i s name)"
    and "overflowed (fst (unsubscribe_one forget pat i (s, out) name)) = overflowed s"
  using table_ok_lookup [OF tables_okD [OF assms, of pat], of name]
  by (auto simp: unsubscribe_one_def remove_one_def Let_def)

lemma tables_ok_cong:
  "(\<And>q. table_of q s' = table_of q s) \<Longrightarrow> pattern_publish s' = pattern_publish s \<Longrightarrow> tables_ok s' = tables_ok s"
  by (simp add: tables_ok_def publish_ok_def)

lemma unsubscribe_one_tables:
  assumes "tables_ok s"
  shows "tables_ok (fst (unsubscribe_one forget pat i (s, out) name))"
    and "j \<in> set (subscribers_of q (fst (unsubscribe_one forget pat i (s, out) name)) n) \<longleftrightarrow>
      j \<in> set (subscribers_of q s n) \<and> \<not> (q = pat \<and> n = name \<and> j = i)"
  using remove_one_tables [OF assms] unsubscribe_one_state [OF assms]
    tables_ok_cong [of "fst (unsubscribe_one forget pat i (s, out) name)" "remove_one pat i s name"] by simp_all

lemma names_okD:
  assumes "names_ok s"
  shows "distinct (names_of pat (sessions s j))" "count_of pat (sessions s j) = length (names_of pat (sessions s j))"
    "n \<in> set (names_of pat (sessions s j)) \<longleftrightarrow> j \<in> set (subscribers_of pat s n)"
  using assms by (simp_all add: names_ok_def)

lemma unsubscribe_one_ok:
  assumes "pubsub_ok s"
  shows "pubsub_ok (fst (unsubscribe_one True pat i (s, out) name))"
proof -
  let ?s = "fst (unsubscribe_one True pat i (s, out) name)"
  have t: "tables_ok s" and n: "names_ok s" and o: "overflowed s = []" using assms by (simp_all add: pubsub_ok_def)
  note st = unsubscribe_one_state [OF t, where forget = True and pat = pat and i = i and out = out and name = name]
    and ts = unsubscribe_one_tables [OF t, where forget = True and pat = pat and i = i and out = out and name = name]
  have "names_ok ?s"
    unfolding names_ok_def
  proof (intro allI)
    fix q j
    note nd = names_okD [OF n, where pat = q and j = j]
    have "distinct (names_of q (sessions ?s j)) \<and> count_of q (sessions ?s j) = length (names_of q (sessions ?s j)) \<and>
       set (names_of q (sessions ?s j)) = {m \<in> set (names_of q (sessions s j)). \<not> (q = pat \<and> m = name \<and> j = i)}"
    proof (cases "q = pat \<and> j = i \<and> i \<in> set (subscribers_of pat s name)")
      case True
      then have mem: "name \<in> set (names_of pat (sessions s i))" using nd(3) by simp
      with True nd swap_remove_distinct [OF nd(1), of name]
        length_swap_remove [of name "names_of q (sessions s j)" "\<lambda>m. m = name"] show ?thesis
        by (auto simp: st(1) erase_name_def)
    next
      case False
      with nd show ?thesis by (auto simp: st(1))
    qed
    with nd(3) ts(2) show "distinct (names_of q (sessions ?s j)) \<and> count_of q (sessions ?s j) = length (names_of q (sessions ?s j)) \<and>
       (\<forall>m. m \<in> set (names_of q (sessions ?s j)) \<longleftrightarrow> j \<in> set (subscribers_of q ?s m))" by auto
  qed
  with ts(1) st(4) o show ?thesis by (simp add: pubsub_ok_def)
qed


lemma unsubscribe_fold:
  assumes "tables_ok s" and "distinct ns" and "\<forall>n \<in> set ns. i \<in> set (subscribers_of pat s n)"
  shows "let s' = fst (foldl (unsubscribe_one False pat i) (s, out) ns)
    in tables_ok s' \<and> overflowed s' = overflowed s \<and>
       (\<forall>q n j. j \<in> set (subscribers_of q s' n) \<longleftrightarrow> j \<in> set (subscribers_of q s n) \<and> \<not> (q = pat \<and> n \<in> set ns \<and> j = i)) \<and>
       (\<forall>q j. names_of q (sessions s' j) = names_of q (sessions s j) \<and>
          count_of q (sessions s' j) = count_of q (sessions s j) - (if q = pat \<and> j = i then length ns else 0))"
  using assms
proof (induction ns arbitrary: s out)
  case (Cons n ns)
  let ?u = "unsubscribe_one False pat i (s, out) n"
  obtain s1 out1 where u: "?u = (s1, out1)" by (cases ?u)
  note st = unsubscribe_one_state [OF Cons.prems(1), where forget = False and pat = pat and i = i and out = out and name = n, unfolded u fst_conv]
    and ts = unsubscribe_one_tables [OF Cons.prems(1), where forget = False and pat = pat and i = i and out = out and name = n, unfolded u fst_conv]
  have "\<forall>m \<in> set ns. i \<in> set (subscribers_of pat s1 m)" using Cons.prems ts(2) by auto
  from Cons.IH [OF ts(1) _ this, of out1] Cons.prems(2)
  show ?case using st ts Cons.prems(2,3) by (auto simp: Let_def u)
qed (simp add: Let_def)

lemma names_ok_cleared:
  assumes n: "names_ok s"
    and sub: "\<And>q n j. j \<in> set (subscribers_of q s' n) \<longleftrightarrow> j \<in> set (subscribers_of q s n) \<and> \<not> (q \<in> Q \<and> j = i)"
    and nm: "\<And>q j. names_of q (sessions s' j) = (if q \<in> Q \<and> j = i then [] else names_of q (sessions s j))"
    and ct: "\<And>q j. count_of q (sessions s' j) = (if q \<in> Q \<and> j = i then 0 else count_of q (sessions s j))"
  shows "names_ok s'"
  unfolding names_ok_def using names_okD [OF n] by (auto simp: sub nm ct)

lemma unsubscribe_all_ok:
  assumes "pubsub_ok s"
  shows "pubsub_ok (fst (unsubscribe i [] pat (s, out)))"
    and "j \<in> set (subscribers_of q (fst (unsubscribe i [] pat (s, out))) n) \<longleftrightarrow>
      j \<in> set (subscribers_of q s n) \<and> \<not> (q = pat \<and> j = i)"
proof -
  have t: "tables_ok s" and n: "names_ok s" and o: "overflowed s = []" using assms by (simp_all add: pubsub_ok_def)
  note nd = names_okD [OF n, where pat = pat and j = i]
  let ?ns = "names_of pat (sessions s i)"
  let ?s = "fst (unsubscribe i [] pat (s, out))"
  have "pubsub_ok ?s \<and> (\<forall>q n j. j \<in> set (subscribers_of q ?s n) \<longleftrightarrow> j \<in> set (subscribers_of q s n) \<and> \<not> (q = pat \<and> j = i))"
  proof (cases "?ns = []")
    case True
    then have s: "?s = s" by (simp add: unsubscribe_def)
    have no: "\<not> (q = pat \<and> j = i)" if "j \<in> set (subscribers_of q s m)" for q m j
      using nd(3) [of m] True that by (intro notI, elim conjE) (simp only: list.set empty_iff)
    show ?thesis unfolding s using assms no by blast
  next
    case False
    obtain s1 out1 where u: "foldl (unsubscribe_one False pat i) (s, out) ?ns = (s1, out1)"
      by (cases "foldl (unsubscribe_one False pat i) (s, out) ?ns")
    have s: "?s = set_session i (set_names pat [] (sessions s1 i)) s1" using False u by (simp add: unsubscribe_def)
    have f: "tables_ok s1" "overflowed s1 = overflowed s"
      "\<And>q n j. j \<in> set (subscribers_of q s1 n) \<longleftrightarrow> j \<in> set (subscribers_of q s n) \<and> \<not> (q = pat \<and> n \<in> set ?ns \<and> j = i)"
      "\<And>q j. names_of q (sessions s1 j) = names_of q (sessions s j)"
      "\<And>q j. count_of q (sessions s1 j) = count_of q (sessions s j) - (if q = pat \<and> j = i then length ?ns else 0)"
      using unsubscribe_fold [OF t nd(1), of i pat out] nd(3) by (simp_all add: Let_def u)
    have sub: "j \<in> set (subscribers_of q ?s n) \<longleftrightarrow> j \<in> set (subscribers_of q s n) \<and> \<not> (q \<in> {pat} \<and> j = i)" for q n j
      using f(3) [of j q n] nd(3) [of n] by (cases "q = pat"; cases "j = i") (simp_all add: s)
    have "names_ok ?s"
      by (rule names_ok_cleared [OF n, where Q = "{pat}", OF sub]) (use f(4,5) nd(2) in \<open>auto simp: s\<close>)
    moreover have "tables_ok ?s" using f(1) tables_ok_cong [of ?s s1] by (simp add: s)
    ultimately show ?thesis using sub f(2) o by (simp add: pubsub_ok_def s)
  qed
  then show "pubsub_ok ?s" "j \<in> set (subscribers_of q ?s n) \<longleftrightarrow> j \<in> set (subscribers_of q s n) \<and> \<not> (q = pat \<and> j = i)"
    by blast+
qed

lemma unsubscribe_ok: "pubsub_ok s \<Longrightarrow> pubsub_ok (fst (unsubscribe i names pat (s, out)))"
proof (cases "names = []")
  case False
  have "pubsub_ok (fst so) \<Longrightarrow> pubsub_ok (fst (foldl (unsubscribe_one True pat i) so names))" for so
  proof (induction names arbitrary: so)
    case (Cons n names)
    from Cons.IH [OF unsubscribe_one_ok [OF Cons.prems, of pat i "snd so" n]] show ?case by simp
  qed simp
  with False show "pubsub_ok s \<Longrightarrow> ?thesis" by (simp add: unsubscribe_def)
qed (simp add: unsubscribe_all_ok(1))

section \<open>Removing a connection\<close>

lemma remove_fold:
  "tables_ok s \<Longrightarrow>
   (let s' = foldl (remove_one pat i) s ns
    in tables_ok s' \<and> overflowed s' = overflowed s \<and> sessions s' = sessions s \<and>
       (\<forall>q n j. j \<in> set (subscribers_of q s' n) \<longleftrightarrow> j \<in> set (subscribers_of q s n) \<and> \<not> (q = pat \<and> n \<in> set ns \<and> j = i)))"
proof (induction ns arbitrary: s)
  case (Cons n ns)
  from Cons.IH [of "remove_one pat i s n"] remove_one_tables [OF Cons.prems, where pat = pat and i = i and name = n] show ?case by (auto simp: Let_def)
qed (simp add: Let_def)

definition core_ok :: "pubsub \<Rightarrow> bool" where
  "core_ok s \<longleftrightarrow> tables_ok s \<and> names_ok s"

lemma set_session_twice [simp]: "set_session i p (set_session i p' s) = set_session i p s"
  by (simp add: set_session_def)

lemma clear_output_simps [simp]:
  "names_of q (clear_output p) = names_of q p" "count_of q (clear_output p) = count_of q p"
  "ps_wire_mode (clear_output p) = ps_wire_mode p"
  by (simp_all add: clear_output_def names_of_def count_of_def Let_def)

lemma names_of_aggregate [simp]:
  "names_of q (p\<lparr>bluefield_aggregate_state := a\<rparr>) = names_of q p" "count_of q (p\<lparr>bluefield_aggregate_state := a\<rparr>) = count_of q p"
  by (simp_all add: names_of_def count_of_def)


lemma remove_core:
  assumes ok: "core_ok s"
  shows "core_ok (remove i s)" "overflowed (remove i s) = overflowed s"
    and "\<And>q n j. j \<in> set (subscribers_of q (remove i s) n) \<longleftrightarrow> j \<in> set (subscribers_of q s n) \<and> j \<noteq> i"
    and "\<And>j. j \<noteq> i \<Longrightarrow> sessions (remove i s) j = sessions s j"
    and "\<And>q. names_of q (sessions (remove i s) i) = []"
    and "ps_endpoint (sessions (remove i s) i) = ps_endpoint (clear_output (sessions s i))"
proof -
  have t: "tables_ok s" and n: "names_ok s" using ok by (simp_all add: core_ok_def)
  note nd = names_okD [OF n, where j = i]
  have "core_ok (remove i s) \<and> overflowed (remove i s) = overflowed s \<and>
    (\<forall>q n j. j \<in> set (subscribers_of q (remove i s) n) \<longleftrightarrow> j \<in> set (subscribers_of q s n) \<and> j \<noteq> i) \<and>
    (\<forall>j. j \<noteq> i \<longrightarrow> sessions (remove i s) j = sessions s j) \<and> (\<forall>q. names_of q (sessions (remove i s) i) = []) \<and>
    ps_endpoint (sessions (remove i s) i) = ps_endpoint (clear_output (sessions s i))"
  proof (cases "ps_subscription_count (sessions s i) = 0 \<and> channel_names (sessions s i) = [] \<and> pattern_names (sessions s i) = []")
    case True
    then have r: "remove i s = set_session i (clear_output (sessions s i)) s" by (simp add: remove_def Let_def)
    have e: "names_of q (sessions s i) = []" for q using True by (simp add: names_of_def)
    have sub: "j \<in> set (subscribers_of q (remove i s) n) \<longleftrightarrow> j \<in> set (subscribers_of q s n) \<and> \<not> (q \<in> UNIV \<and> j = i)" for q n j
      using nd(3) [where pat = q and n = n] e [of q] by (auto simp: r)
    have "names_ok (remove i s)"
      by (rule names_ok_cleared [OF n, where Q = UNIV, OF sub]) (use e nd(2) in \<open>auto simp: r\<close>)
    moreover have "tables_ok (remove i s)" using t tables_ok_cong [of "remove i s" s] by (simp add: r)
    ultimately show ?thesis using sub e by (auto simp: r core_ok_def)
  next
    case False
    let ?c = "channel_names (sessions s i)" and ?p = "pattern_names (sessions s i)"
    define s1 where "s1 = foldl (remove_one False i) s ?c"
    define s2 where "s2 = set_session i (set_count False 0 (set_names False [] (sessions s1 i))) s1"
    define s3 where "s3 = foldl (remove_one True i) s2 (pattern_names (sessions s2 i))"
    have f1: "tables_ok s1" "overflowed s1 = overflowed s" "sessions s1 = sessions s"
      "\<And>q n j. j \<in> set (subscribers_of q s1 n) \<longleftrightarrow> j \<in> set (subscribers_of q s n) \<and> \<not> (q = False \<and> n \<in> set ?c \<and> j = i)"
      using remove_fold [OF t, of False i ?c] by (simp_all add: s1_def Let_def)
    have t2: "tables_ok s2" using f1(1) tables_ok_cong [of s2 s1] by (simp add: s2_def)
    have p2: "pattern_names (sessions s2 i) = ?p" by (simp add: s2_def f1(3) set_count_def set_names_def)
    have same2: "table_of q s2 = table_of q s1" "overflowed s2 = overflowed s1" for q by (simp_all add: s2_def)
    have f3: "tables_ok s3" "overflowed s3 = overflowed s" "sessions s3 = sessions s2"
      "\<And>q n j. j \<in> set (subscribers_of q s3 n) \<longleftrightarrow> j \<in> set (subscribers_of q s1 n) \<and> \<not> (q = True \<and> n \<in> set ?p \<and> j = i)"
      using remove_fold [OF t2, of True i "pattern_names (sessions s2 i)", folded s3_def, unfolded p2] f1(2) same2
      by (simp_all add: Let_def)
    define p where "p = clear_output ((set_count True 0 (set_names True [] (sessions s3 i)))\<lparr>bluefield_aggregate_state :=
        map_option (\<lambda>a. a\<lparr>weight_channels := Map.empty, weight_patterns := Map.empty\<rparr>)
          (bluefield_aggregate_state (set_count True 0 (set_names True [] (sessions s3 i))))\<rparr>)"
    have p: "remove i s = set_session i p s3" "\<And>q. names_of q p = []" "\<And>q. count_of q p = 0"
      "ps_endpoint p = ps_endpoint (clear_output (sessions s i))"
      unfolding remove_def Let_def if_not_P [OF False]
      by (simp_all add: p_def s1_def [symmetric] s2_def [symmetric] s3_def [symmetric])
        (simp_all add: f3(3) s2_def f1(3) clear_output_def Let_def)
    have sub: "j \<in> set (subscribers_of q (remove i s) n) \<longleftrightarrow> j \<in> set (subscribers_of q s n) \<and> \<not> (q \<in> UNIV \<and> j = i)" for q n j
      using f1(4) [of j q n] f3(4) [of j q n] nd(3) [where pat = q and n = n] by (cases q) (auto simp: p(1) names_of_def)
    have "names_ok (remove i s)"
      by (rule names_ok_cleared [OF n, where Q = UNIV, OF sub]) (auto simp: p f3(3) s2_def f1(3))
    moreover have "tables_ok (remove i s)" using f3(1) tables_ok_cong [of "remove i s" s3] by (simp add: p(1))
    ultimately show ?thesis using sub by (auto simp: p f3(2,3) s2_def f1(3) core_ok_def)
  qed
  then show "core_ok (remove i s)" "overflowed (remove i s) = overflowed s"
    "\<And>q n j. j \<in> set (subscribers_of q (remove i s) n) \<longleftrightarrow> j \<in> set (subscribers_of q s n) \<and> j \<noteq> i"
    "\<And>j. j \<noteq> i \<Longrightarrow> sessions (remove i s) j = sessions s j" "\<And>q. names_of q (sessions (remove i s) i) = []"
    "ps_endpoint (sessions (remove i s) i) = ps_endpoint (clear_output (sessions s i))" by blast+
qed


section \<open>Subscribing\<close>

lemma subscribe_one_state:
  assumes t: "tables_ok s"
  shows "sessions (fst (subscribe_one pat i (s, out) name)) =
      (if i \<in> set (subscribers_of pat s name) then sessions s
       else (sessions s)(i := update_weights pat (\<lambda>w. if w name = None then w(name \<mapsto> 1) else w)
          (set_names pat (names_of pat (sessions s i) @ [name])
             (set_count pat (count_of pat (sessions s i) + 1) (sessions s i)))))"
    and "table_of q (fst (subscribe_one pat i (s, out) name)) =
      (if q = pat \<and> i \<notin> set (subscribers_of pat s name)
       then table_put name (subscribers_of pat s name @ [i])
              (if subscribers_of pat s name = [] then table_of pat s @ [(name, [])] else table_of pat s)
       else table_of q s)"
    and "pattern_publish (fst (subscribe_one pat i (s, out) name)) =
      (if pat \<and> subscribers_of pat s name = [] then pattern_publish s @ [(name, classify_pattern name)] else pattern_publish s)"
    and "overflowed (fst (subscribe_one pat i (s, out) name)) = overflowed s"
proof -
  note t' = tables_okD [OF t, of pat]
  note k = table_ok_keys [OF t', of name] and l = table_ok_lookup [OF t', of name]
  have new: "map_of (table_of pat s @ [(name, [])]) name = Some []" if "subscribers_of pat s name = []"
    using l that by (simp add: map_add_def)
  show "sessions (fst (subscribe_one pat i (s, out) name)) =
      (if i \<in> set (subscribers_of pat s name) then sessions s
       else (sessions s)(i := update_weights pat (\<lambda>w. if w name = None then w(name \<mapsto> 1) else w)
          (set_names pat (names_of pat (sessions s i) @ [name])
             (set_count pat (count_of pat (sessions s i) + 1) (sessions s i)))))"
    using k l new by (cases pat; cases "subscribers_of pat s name = []") (simp_all add: subscribe_one_def Let_def)
  show "table_of q (fst (subscribe_one pat i (s, out) name)) =
      (if q = pat \<and> i \<notin> set (subscribers_of pat s name)
       then table_put name (subscribers_of pat s name @ [i])
              (if subscribers_of pat s name = [] then table_of pat s @ [(name, [])] else table_of pat s)
       else table_of q s)"
    using k l new by (cases pat; cases "subscribers_of pat s name = []") (simp_all add: subscribe_one_def Let_def)
  show "pattern_publish (fst (subscribe_one pat i (s, out) name)) =
      (if pat \<and> subscribers_of pat s name = [] then pattern_publish s @ [(name, classify_pattern name)] else pattern_publish s)"
    using k l new by (cases pat; cases "subscribers_of pat s name = []") (simp_all add: subscribe_one_def Let_def)
  show "overflowed (fst (subscribe_one pat i (s, out) name)) = overflowed s"
    using k l new by (cases pat; cases "subscribers_of pat s name = []") (simp_all add: subscribe_one_def Let_def)
qed

lemma subscribe_one_tables:
  assumes t: "tables_ok s"
  shows "tables_ok (fst (subscribe_one pat i (s, out) name))"
    and "j \<in> set (subscribers_of q (fst (subscribe_one pat i (s, out) name)) n) \<longleftrightarrow>
      j \<in> set (subscribers_of q s n) \<or> (q = pat \<and> n = name \<and> j = i)"
proof -
  let ?s = "fst (subscribe_one pat i (s, out) name)" and ?js = "subscribers_of pat s name"
  note st = subscribe_one_state [OF t, where pat = pat and i = i and out = out and name = name]
  note t' = tables_okD [OF t, of pat]
  have key: "name \<in> fst ` set (table_of pat s) \<longleftrightarrow> ?js \<noteq> []" by (rule table_ok_keys [OF t'])
  have sub: "subscribers_of q ?s n = (if q = pat \<and> n = name \<and> i \<notin> set ?js then ?js @ [i] else subscribers_of q s n)" for q n
    using key by (auto simp: st(2) subs_put subs_snoc)
  then show "j \<in> set (subscribers_of q ?s n) \<longleftrightarrow> j \<in> set (subscribers_of q s n) \<or> (q = pat \<and> n = name \<and> j = i)"
    by (cases "q = pat \<and> n = name") auto
  show "tables_ok ?s"
  proof (rule tables_okI [OF t, of pat])
    show "table_ok (table_of pat ?s)"
      using t' key table_ok_lookup [OF t', of name]
        table_ok_add [OF t', of name "[i]"] table_ok_put [OF t', of "?js @ [i]" name] by (auto simp: st(2))
    show "table_of (\<not> pat) ?s = table_of (\<not> pat) s" by (simp add: st(2))
    show "\<not> pat \<Longrightarrow> pattern_publish ?s = pattern_publish s" using st(3) by simp
    assume pat
    then have po: "distinct (map fst (pattern_publish s))"
      "set (pattern_publish s) = (\<lambda>n. (n, classify_pattern n)) ` {n. subscribers_of True s n \<noteq> []}"
      using t by (simp_all add: tables_ok_def publish_ok_def)
    then have "name \<in> fst ` set (pattern_publish s) \<longleftrightarrow> ?js \<noteq> []" using \<open>pat\<close> by force
    with po show "publish_ok ?s"
      using \<open>pat\<close> unfolding publish_ok_def st(3) sub by (auto simp: image_iff)
  qed
qed

lemma subscribe_one_ok:
  assumes "pubsub_ok s"
  shows "pubsub_ok (fst (subscribe_one pat i (s, out) name))"
proof -
  let ?s = "fst (subscribe_one pat i (s, out) name)"
  have t: "tables_ok s" and n: "names_ok s" and o: "overflowed s = []" using assms by (simp_all add: pubsub_ok_def)
  note st = subscribe_one_state [OF t, where pat = pat and i = i and out = out and name = name]
    and ts = subscribe_one_tables [OF t, where pat = pat and i = i and out = out and name = name]
  have "names_ok ?s"
    unfolding names_ok_def
  proof (intro allI)
    fix q j
    note nd = names_okD [OF n, where pat = q and j = j]
    have "distinct (names_of q (sessions ?s j)) \<and> count_of q (sessions ?s j) = length (names_of q (sessions ?s j)) \<and>
       set (names_of q (sessions ?s j)) = {m. m \<in> set (names_of q (sessions s j)) \<or> (q = pat \<and> m = name \<and> j = i)}"
    proof (cases "q = pat \<and> j = i \<and> i \<notin> set (subscribers_of pat s name)")
      case True
      then have "name \<notin> set (names_of pat (sessions s i))" using nd(3) [of name] by simp
      with True nd(1,2) show ?thesis by (auto simp: st(1))
    next
      case False
      then have "q = pat \<and> j = i \<Longrightarrow> name \<in> set (names_of q (sessions s j))" using nd(3) [of name] by simp
      with nd(1,2) False show ?thesis by (auto simp: st(1))
    qed
    with nd(3) ts(2) show "distinct (names_of q (sessions ?s j)) \<and> count_of q (sessions ?s j) = length (names_of q (sessions ?s j)) \<and>
       (\<forall>m. m \<in> set (names_of q (sessions ?s j)) \<longleftrightarrow> j \<in> set (subscribers_of q ?s m))" by auto
  qed
  with ts(1) st(4) o show ?thesis by (simp add: pubsub_ok_def)
qed

lemma subscribe_ok: "pubsub_ok s \<Longrightarrow> pubsub_ok (fst (subscribe i names pat (s, out)))"
proof -
  have "pubsub_ok (fst so) \<Longrightarrow> pubsub_ok (fst (foldl (subscribe_one pat i) so names))" for so
  proof (induction names arbitrary: so)
    case (Cons n names)
    from Cons.IH [OF subscribe_one_ok [OF Cons.prems, of pat i "snd so" n]] show ?case by simp
  qed simp
  then show "pubsub_ok s \<Longrightarrow> ?thesis" by (simp add: subscribe_def)
qed


section \<open>Publishing\<close>

definition message_frame :: "wire_mode \<Rightarrow> string \<Rightarrow> string \<Rightarrow> string" where
  "message_frame wire channel payload =
     append_literal_body [] (if wire = Wire_resp3 then kResp3MessagePrefix else kResp2MessagePrefix) channel payload"

definition pmessage_frame :: "wire_mode \<Rightarrow> string \<Rightarrow> string \<Rightarrow> string \<Rightarrow> string" where
  "pmessage_frame wire pattern channel payload =
     append_pattern_body [] (if wire = Wire_resp3 then kResp3PmessagePrefix else kResp2PmessagePrefix) pattern channel payload"

text \<open>A sequence of pushes to connections.\<close>

fun push_all :: "(nat \<times> string) list \<Rightarrow> pubsub \<times> int \<Rightarrow> pubsub \<times> int" where
  "push_all [] sd = sd"
| "push_all (jb # l) sd =
     (case ps_enqueue (fst jb) (snd jb) (fst sd) of
        (okay, s) \<Rightarrow> push_all l (s, if okay then snd sd + 1 else snd sd))"

lemma push_all_append: "push_all (l @ l') sd = push_all l' (push_all l sd)"
  by (induction l arbitrary: sd) (auto split: prod.splits)

text \<open>Pushing changes only the output of connections and the list of overflowed ones.\<close>

definition output_only :: "pubsub \<Rightarrow> pubsub \<Rightarrow> bool" where
  "output_only s s' \<longleftrightarrow> (\<forall>q. table_of q s' = table_of q s) \<and> pattern_publish s' = pattern_publish s \<and>
     (\<forall>k. \<exists>e. sessions s' k = (sessions s k)\<lparr>ps_endpoint := e\<rparr>)"

lemma output_only_refl: "output_only s s"
  unfolding output_only_def by (metis pubsub_session.surjective pubsub_session.update_convs(1))

lemma output_only_trans: "output_only s s' \<Longrightarrow> output_only s' s'' \<Longrightarrow> output_only s s''"
  unfolding output_only_def by (metis pubsub_session.unfold_congs(1) pubsub_session.update_convs(1) pubsub_session.surjective)

lemma ps_enqueue_output_only: "output_only s (snd (ps_enqueue j b s))"
proof -
  have "\<exists>e. p = p\<lparr>ps_endpoint := e\<rparr>" for p :: pubsub_session by (metis pubsub_session.surjective pubsub_session.update_convs(1))
  then show ?thesis by (auto simp: ps_enqueue_def output_only_def Let_def split: prod.splits)
qed

lemma push_all_output_only: "output_only (fst sd) (fst (push_all l sd))"
proof (induction l arbitrary: sd)
  case (Cons jb l)
  obtain okay s1 where e: "ps_enqueue (fst jb) (snd jb) (fst sd) = (okay, s1)" by (cases "ps_enqueue (fst jb) (snd jb) (fst sd)")
  have "output_only (fst sd) s1" using ps_enqueue_output_only [of "fst sd" "fst jb" "snd jb"] e by simp
  then have "output_only (fst sd) (fst (push_all l (s1, if okay then snd sd + 1 else snd sd)))"
    using output_only_trans [OF _ Cons.IH [of "(s1, if okay then snd sd + 1 else snd sd)", unfolded fst_conv]] by blast
  with e show ?case by simp
qed (simp add: output_only_refl)

lemma output_onlyD:
  assumes "output_only s s'"
  shows "table_of q s' = table_of q s" "pattern_publish s' = pattern_publish s"
    "ps_wire_mode (sessions s' k) = ps_wire_mode (sessions s k)"
    "excluded_session edge (sessions s' k) = excluded_session edge (sessions s k)"
    "names_of q (sessions s' k) = names_of q (sessions s k)" "count_of q (sessions s' k) = count_of q (sessions s k)"
proof -
  obtain e where "sessions s' k = (sessions s k)\<lparr>ps_endpoint := e\<rparr>" using assms by (auto simp: output_only_def)
  then show "ps_wire_mode (sessions s' k) = ps_wire_mode (sessions s k)"
    "excluded_session edge (sessions s' k) = excluded_session edge (sessions s k)"
    "names_of q (sessions s' k) = names_of q (sessions s k)" "count_of q (sessions s' k) = count_of q (sessions s k)"
    by (simp_all add: excluded_session_def names_of_def count_of_def)
  show "table_of q s' = table_of q s" "pattern_publish s' = pattern_publish s" using assms by (auto simp: output_only_def)
qed

lemma output_only_core: "output_only s s' \<Longrightarrow> core_ok s' = core_ok s"
  using output_onlyD [of s s'] tables_ok_cong [of s' s] by (simp add: core_ok_def names_ok_def)

definition audience :: "u64 \<Rightarrow> pubsub \<Rightarrow> nat list \<Rightarrow> nat list" where
  "audience edge s js = filter (\<lambda>j. \<not> excluded_session edge (sessions s j)) js"

lemma deliver_push_all:
  assumes "\<And>j. j \<in> set (audience edge s js) \<Longrightarrow> bytes_for m scratch (ps_wire_mode (sessions s j)) = Some (f (ps_wire_mode (sessions s j)))"
    and "output_only s (fst sd)"
  shows "deliver_to_set js m scratch edge sd =
    push_all (map (\<lambda>j. (j, f (ps_wire_mode (sessions s j)))) (audience edge s js)) sd"
  using assms
proof (induction js arbitrary: sd)
  case (Cons j js)
  note oo = output_onlyD [OF Cons.prems(2)]
  show ?case
  proof (cases "excluded_session edge (sessions s j)")
    case True
    then show ?thesis using Cons oo by (simp add: audience_def)
  next
    case False
    obtain okay s1 where e: "ps_enqueue j (f (ps_wire_mode (sessions s j))) (fst sd) = (okay, s1)"
      by (cases "ps_enqueue j (f (ps_wire_mode (sessions s j))) (fst sd)")
    have "output_only (fst sd) s1" using ps_enqueue_output_only [of "fst sd" j "f (ps_wire_mode (sessions s j))"] e by simp
    with Cons.prems(2) have s1: "output_only s s1" by (rule output_only_trans)
    have b: "bytes_for m scratch (ps_wire_mode (sessions s j)) = Some (f (ps_wire_mode (sessions s j)))"
      by (rule Cons.prems(1)) (use False in \<open>simp add: audience_def\<close>)
    from Cons.IH [of "(s1, if okay then snd sd + 1 else snd sd)"] Cons.prems(1) s1 False b e oo(3,4) show ?thesis
      by (simp add: audience_def)
  qed
qed (simp add: audience_def)

lemma collect_modes_from_keeps:
  "mode_resp2 m \<Longrightarrow> mode_resp2 (collect_modes_from ss edge js m)" "mode_resp3 m \<Longrightarrow> mode_resp3 (collect_modes_from ss edge js m)"
  "mode_sbe m \<Longrightarrow> mode_sbe (collect_modes_from ss edge js m)"
  by (induction ss edge js m rule: collect_modes_from.induct) (auto simp: Let_def split: wire_mode.splits)

lemma collect_modes_from_covers:
  "j \<in> set js \<Longrightarrow> \<not> excluded_session edge (ss j) \<Longrightarrow>
   (case ps_wire_mode (ss j) of
      Wire_resp3 \<Rightarrow> mode_resp3 (collect_modes_from ss edge js m)
    | Wire_sbe \<Rightarrow> mode_sbe (collect_modes_from ss edge js m)
    | _ \<Rightarrow> mode_resp2 (collect_modes_from ss edge js m))"
proof (induction ss edge js m rule: collect_modes_from.induct)
  case (2 ss edge k js m)
  then show ?case
    by (cases "j = k") (auto simp: Let_def collect_modes_from_keeps split: wire_mode.splits if_splits)
qed simp


lemma append_bulk_string_prefix: "\<exists>r. append_bulk_string out v = out @ r"
  unfolding append_bulk_string_eq by simp

lemma literal_body: "\<exists>r. \<forall>prefix. append_literal_body [] prefix channel payload = prefix @ r"
proof -
  have "append_literal_body [] prefix channel payload =
      prefix @ append_bulk_string (append_bulk_string [] channel) payload" for prefix
    by (simp add: append_literal_body_def append_bulk_string_eq)
  then show ?thesis by blast
qed

lemma pattern_body: "\<exists>r. \<forall>prefix. append_pattern_body [] prefix pattern channel payload = prefix @ r"
proof -
  have "append_pattern_body [] prefix pattern channel payload =
      prefix @ append_bulk_string (append_bulk_string (append_bulk_string [] pattern) channel) payload" for prefix
    by (simp add: append_pattern_body_def append_bulk_string_eq)
  then show ?thesis by blast
qed

lemma literal_frames:
  assumes "wire \<noteq> Wire_sbe" and "if wire = Wire_resp3 then mode_resp3 m else mode_resp2 m"
  shows "bytes_for m (encode_literal_frames m channel payload sc) wire = Some (message_frame wire channel payload)"
proof -
  obtain r where r: "\<And>prefix. append_literal_body [] prefix channel payload = prefix @ r" using literal_body by blast
  show ?thesis
    using assms by (cases sc; cases wire)
      (auto simp: bytes_for_def encode_literal_frames_def message_frame_def r Let_def kResp2MessagePrefix_def kResp3MessagePrefix_def)
qed

lemma pattern_frames:
  assumes "wire \<noteq> Wire_sbe" and "if wire = Wire_resp3 then mode_resp3 m else mode_resp2 m"
  shows "bytes_for m (encode_pattern_frames m pattern channel payload sc) wire = Some (pmessage_frame wire pattern channel payload)"
proof -
  obtain r where r: "\<And>prefix. append_pattern_body [] prefix pattern channel payload = prefix @ r" using pattern_body by blast
  show ?thesis
    using assms by (cases sc; cases wire)
      (auto simp: bytes_for_def encode_pattern_frames_def pmessage_frame_def r Let_def kResp2PmessagePrefix_def kResp3PmessagePrefix_def)
qed

definition no_sbe :: "pubsub \<Rightarrow> bool" where
  "no_sbe s \<longleftrightarrow> (\<forall>j. ps_wire_mode (sessions s j) \<noteq> Wire_sbe)"

lemma modes_cover:
  assumes "no_sbe s" and "j \<in> set (audience edge s js)"
  shows "if ps_wire_mode (sessions s j) = Wire_resp3 then mode_resp3 (collect_modes (sessions s) js edge)
    else mode_resp2 (collect_modes (sessions s) js edge)"
  using collect_modes_from_covers [of j js edge "sessions s"] assms
  by (cases "ps_wire_mode (sessions s j)") (auto simp: collect_modes_def audience_def no_sbe_def)

lemma no_modes_audience:
  assumes "no_sbe s" and "no_modes (collect_modes (sessions s) js edge)"
  shows "audience edge s js = []"
proof (cases "audience edge s js")
  case (Cons j l)
  with modes_cover [OF assms(1), of j edge js] assms(2) show ?thesis by (auto simp: no_modes_def split: if_splits)
qed

lemma output_only_sessions:
  assumes "output_only s s'"
  shows "audience edge s' js = audience edge s js" "collect_modes (sessions s') js edge = collect_modes (sessions s) js edge"
    "no_sbe s' = no_sbe s"
proof -
  have "collect_modes_from (sessions s') edge js m = collect_modes_from (sessions s) edge js m" for m
    by (induction "sessions s" edge js m rule: collect_modes_from.induct) (simp_all add: output_onlyD(3,4) [OF assms] Let_def)
  then show "collect_modes (sessions s') js edge = collect_modes (sessions s) js edge" by (simp add: collect_modes_def)
  show "audience edge s' js = audience edge s js" "no_sbe s' = no_sbe s"
    by (simp_all add: audience_def no_sbe_def output_onlyD(3,4) [OF assms])
qed

definition channel_pushes :: "u64 \<Rightarrow> pubsub \<Rightarrow> string \<Rightarrow> string \<Rightarrow> (nat \<times> string) list" where
  "channel_pushes edge s channel payload =
     map (\<lambda>j. (j, message_frame (ps_wire_mode (sessions s j)) channel payload)) (audience edge s (subscribers_of False s channel))"

definition pattern_pushes :: "u64 \<Rightarrow> pubsub \<Rightarrow> string \<Rightarrow> string \<Rightarrow> string \<Rightarrow> (nat \<times> string) list" where
  "pattern_pushes edge s channel payload pattern =
     (if matches (tokens pattern) channel
      then map (\<lambda>j. (j, pmessage_frame (ps_wire_mode (sessions s j)) pattern channel payload))
             (audience edge s (subscribers_of True s pattern))
      else [])"

lemma publish_channel_pushes:
  assumes t: "tables_ok s" and w: "no_sbe s"
  shows "publish_channel channel payload edge (s, d) = push_all (channel_pushes edge s channel payload) (s, d)"
proof -
  let ?js = "subscribers_of False s channel" and ?m = "collect_modes (sessions s) (subscribers_of False s channel) edge"
  have "deliver_to_set ?js ?m (encode_literal_frames ?m channel payload ([], [])) edge (s, d) =
      push_all (channel_pushes edge s channel payload) (s, d)"
    unfolding channel_pushes_def
    by (rule deliver_push_all) (use modes_cover [OF w] w literal_frames in \<open>auto simp: no_sbe_def output_only_refl\<close>)
  moreover have "?js = [] \<or> no_modes ?m \<Longrightarrow> channel_pushes edge s channel payload = []"
    using no_modes_audience [OF w, of ?js edge] by (auto simp: channel_pushes_def audience_def)
  ultimately show ?thesis
    using table_ok_lookup [OF tables_okD [OF t, of False], of channel]
    by (auto simp: publish_channel_def Let_def table_of_def)
qed

lemma publish_pattern_pushes:
  assumes t: "tables_ok s" and w: "no_sbe s" and o: "output_only s (fst sd)" and k: "kind = classify_pattern pattern"
  shows "publish_pattern channel payload edge sd (pattern, kind) = push_all (pattern_pushes edge s channel payload pattern) sd"
proof -
  let ?js = "subscribers_of True s pattern" and ?m = "collect_modes (sessions s) (subscribers_of True s pattern) edge"
  have "deliver_to_set ?js ?m (encode_pattern_frames ?m pattern channel payload ([], [])) edge sd =
      push_all (map (\<lambda>j. (j, pmessage_frame (ps_wire_mode (sessions s j)) pattern channel payload)) (audience edge s ?js)) sd"
    by (rule deliver_push_all [OF _ o]) (use modes_cover [OF w] w pattern_frames in \<open>auto simp: no_sbe_def\<close>)
  moreover have "?js = [] \<or> no_modes ?m \<Longrightarrow> audience edge s ?js = []"
    using no_modes_audience [OF w, of ?js edge] by (auto simp: audience_def)
  moreover have "map_of (patterns (fst sd)) pattern = (if ?js = [] then None else Some ?js)"
    using table_ok_lookup [OF tables_okD [OF t, of True], of pattern] output_onlyD(1) [OF o, of True] by (simp add: table_of_def)
  ultimately show ?thesis
    by (auto simp: publish_pattern_def pattern_pushes_def Let_def k match_classified_meaning output_only_sessions [OF o])
qed

definition publish_pushes :: "u64 \<Rightarrow> pubsub \<Rightarrow> string \<Rightarrow> string \<Rightarrow> (nat \<times> string) list" where
  "publish_pushes edge s channel payload =
     channel_pushes edge s channel payload @ concat (map (\<lambda>e. pattern_pushes edge s channel payload (fst e)) (pattern_publish s))"

lemma publish_pushes_all:
  assumes t: "tables_ok s" and w: "no_sbe s"
  shows "publish channel payload edge s =
    (case push_all (publish_pushes edge s channel payload) (s, 0) of (s', n) \<Rightarrow> (n, cleanup_overflowed s'))"
proof -
  let ?sd = "push_all (channel_pushes edge s channel payload) (s, 0)"
  have oo: "output_only s (fst ?sd)" using push_all_output_only [of "(s, 0)"] by simp
  have fold: "output_only s (fst sd) \<Longrightarrow> \<forall>e \<in> set l. snd e = classify_pattern (fst e) \<Longrightarrow>
      foldl (publish_pattern channel payload edge) sd l =
      push_all (concat (map (\<lambda>e. pattern_pushes edge s channel payload (fst e)) l)) sd" for sd l
  proof (induction l arbitrary: sd)
    case (Cons e l)
    have "publish_pattern channel payload edge sd e = push_all (pattern_pushes edge s channel payload (fst e)) sd"
      using publish_pattern_pushes [OF t w Cons.prems(1), of "snd e" "fst e"] Cons.prems(2) by (cases e) simp
    moreover have "output_only s (fst (push_all (pattern_pushes edge s channel payload (fst e)) sd))"
      using output_only_trans [OF Cons.prems(1) push_all_output_only] .
    ultimately show ?case using Cons by (simp add: push_all_append)
  qed simp
  have "\<forall>e \<in> set (pattern_publish s). snd e = classify_pattern (fst e)" using t by (auto simp: tables_ok_def publish_ok_def)
  with fold [OF oo] output_onlyD(2) [OF oo] show ?thesis
    by (simp add: publish_def publish_channel_pushes [OF t w] publish_pushes_def push_all_append Let_def)
qed


section \<open>What each connection receives\<close>

abbreviation output_of :: "pubsub \<Rightarrow> nat \<Rightarrow> endpoint" where
  "output_of s j \<equiv> ps_endpoint (sessions s j)"

text \<open>A connection's output after a list of frames was enqueued, and how many were accepted.\<close>

definition enqueue_all :: "endpoint \<Rightarrow> string list \<Rightarrow> endpoint" where
  "enqueue_all e bs = foldl (\<lambda>e b. snd (enqueue e b)) e bs"

fun accepted_count :: "endpoint \<Rightarrow> string list \<Rightarrow> int" where
  "accepted_count e [] = 0"
| "accepted_count e (b # bs) = (if fst (enqueue e b) then 1 else 0) + accepted_count (snd (enqueue e b)) bs"

definition frames_to :: "nat \<Rightarrow> (nat \<times> string) list \<Rightarrow> string list" where
  "frames_to j l = map snd (filter (\<lambda>jb. fst jb = j) l)"

lemma frames_to_simps [simp]:
  "frames_to j [] = []" "frames_to j (kb # l) = (if fst kb = j then snd kb # frames_to j l else frames_to j l)"
  "frames_to j (l @ l') = frames_to j l @ frames_to j l'"
  by (simp_all add: frames_to_def)

lemma ps_enqueue_output:
  assumes "ps_enqueue j b s = (okay, s')"
  shows "output_of s' k = (if k = j then snd (enqueue (output_of s j) b) else output_of s k)"
    "okay = fst (enqueue (output_of s j) b)"
    "overflowed s' = overflowed s @ (if \<not> okay \<and> \<not> close_requested (output_of s j) then [j] else [])"
  using assms by (auto simp: ps_enqueue_def Let_def split: prod.splits)

lemma push_all_output: "output_of (fst (push_all l sd)) k = enqueue_all (output_of (fst sd) k) (frames_to k l)"
proof (induction l arbitrary: sd)
  case (Cons jb l)
  obtain okay s1 where e: "ps_enqueue (fst jb) (snd jb) (fst sd) = (okay, s1)" by (cases "ps_enqueue (fst jb) (snd jb) (fst sd)")
  from Cons.IH [of "(s1, if okay then snd sd + 1 else snd sd)"] ps_enqueue_output(1) [OF e, of k] e show ?case
    by (simp add: enqueue_all_def)
qed (simp add: enqueue_all_def)

lemma close_requested_enqueue:
  "close_requested (snd (enqueue e b)) \<longleftrightarrow> close_requested e \<or> \<not> fst (enqueue e b)"
  by (auto simp: enqueue_def split: prod.splits bool.splits)

lemma close_requested_enqueue_all: "close_requested e \<Longrightarrow> close_requested (enqueue_all e bs)"
proof (induction bs arbitrary: e)
  case (Cons b bs)
  from Cons.IH [of "snd (enqueue e b)"] Cons.prems show ?case by (simp add: enqueue_all_def close_requested_enqueue)
qed (simp add: enqueue_all_def)

lemma push_all_overflowed:
  "set (overflowed (fst (push_all l sd))) =
     set (overflowed (fst sd)) \<union> {j. \<not> close_requested (output_of (fst sd) j) \<and> close_requested (output_of (fst (push_all l sd)) j)}"
proof (induction l arbitrary: sd)
  case (Cons jb l)
  obtain okay s1 where e: "ps_enqueue (fst jb) (snd jb) (fst sd) = (okay, s1)" by (cases "ps_enqueue (fst jb) (snd jb) (fst sd)")
  let ?sd = "(s1, if okay then snd sd + 1 else snd sd)"
  note en = ps_enqueue_output [OF e]
  have "close_requested (output_of s1 j) \<longleftrightarrow> close_requested (output_of (fst sd) j) \<or> (j = fst jb \<and> \<not> okay)" for j
    using en(1) [of j] en(2) by (auto simp: close_requested_enqueue)
  moreover have "close_requested (output_of s1 j) \<Longrightarrow> close_requested (output_of (fst (push_all l ?sd)) j)" for j
    using close_requested_enqueue_all by (simp add: push_all_output)
  ultimately show ?case using Cons.IH [of ?sd] e en(3) by auto
qed auto

lemma push_all_count:
  assumes "finite J" and "fst ` set l \<subseteq> J"
  shows "snd (push_all l sd) = snd sd + (\<Sum>j \<in> J. accepted_count (output_of (fst sd) j) (frames_to j l))"
  using assms(2)
proof (induction l arbitrary: sd)
  case (Cons jb l)
  obtain okay s1 where e: "ps_enqueue (fst jb) (snd jb) (fst sd) = (okay, s1)" by (cases "ps_enqueue (fst jb) (snd jb) (fst sd)")
  let ?f = "\<lambda>j. accepted_count (output_of s1 j) (frames_to j l)"
  note en = ps_enqueue_output [OF e]
  have j: "fst jb \<in> J" "fst ` set l \<subseteq> J" using Cons.prems by auto
  have "(\<Sum>j \<in> J. accepted_count (output_of (fst sd) j) (frames_to j (jb # l))) =
      (\<Sum>j \<in> J. (if j = fst jb then (if okay then 1 else 0) else 0) + ?f j)"
    by (rule sum.cong) (auto simp: en(1,2))
  also have "\<dots> = (if okay then 1 else 0) + sum ?f J" using assms(1) j(1) by (simp add: sum.distrib sum.delta)
  finally show ?case using Cons.IH [OF j(2), of "(s1, if okay then snd sd + 1 else snd sd)"] e by simp
qed simp

lemma cleanup_fold:
  assumes "core_ok s"
  shows "let s' = foldl (\<lambda>s i. remove i s) s ov
    in core_ok s' \<and> (\<forall>q n j. j \<in> set (subscribers_of q s' n) \<longleftrightarrow> j \<in> set (subscribers_of q s n) \<and> j \<notin> set ov) \<and>
       (\<forall>j. j \<notin> set ov \<longrightarrow> sessions s' j = sessions s j)"
  using assms
proof (induction ov arbitrary: s)
  case (Cons i ov)
  note r = remove_core [OF Cons.prems, where i = i]
  from Cons.IH [OF r(1)] r(3,4) show ?case by (auto simp: Let_def)
qed (simp add: Let_def)


text \<open>The frames of a publication for a connection: one for its subscription to the channel, one for each of
  its patterns that match, in the order of the pattern list.\<close>

definition frames_for :: "u64 \<Rightarrow> pubsub \<Rightarrow> string \<Rightarrow> string \<Rightarrow> nat \<Rightarrow> string list" where
  "frames_for edge s channel payload j =
     (if excluded_session edge (sessions s j) then []
      else
        (if j \<in> set (subscribers_of False s channel) then [message_frame (ps_wire_mode (sessions s j)) channel payload] else []) @
        map (\<lambda>e. pmessage_frame (ps_wire_mode (sessions s j)) (fst e) channel payload)
          (filter (\<lambda>e. matches (tokens (fst e)) channel \<and> j \<in> set (subscribers_of True s (fst e))) (pattern_publish s)))"

lemma frames_to_map: "distinct js \<Longrightarrow> frames_to j (map (\<lambda>j. (j, f j)) js) = (if j \<in> set js then [f j] else [])"
  by (induction js) auto

lemma frames_to_publish:
  assumes t: "tables_ok s"
  shows "frames_to j (publish_pushes edge s channel payload) = frames_for edge s channel payload j"
proof -
  have d: "distinct (audience edge s (subscribers_of q s n))" for q n
    using table_ok_lookup [OF tables_okD [OF t, of q], of n] by (simp add: audience_def)
  have p: "frames_to j (pattern_pushes edge s channel payload pattern) =
      (if matches (tokens pattern) channel \<and> j \<in> set (subscribers_of True s pattern) \<and> \<not> excluded_session edge (sessions s j)
       then [pmessage_frame (ps_wire_mode (sessions s j)) pattern channel payload] else [])" for pattern
    unfolding pattern_pushes_def using frames_to_map [OF d [of True pattern]] by (auto simp: audience_def)
  have "frames_to j (concat (map (\<lambda>e. pattern_pushes edge s channel payload (fst e)) l)) =
      (if excluded_session edge (sessions s j) then []
       else map (\<lambda>e. pmessage_frame (ps_wire_mode (sessions s j)) (fst e) channel payload)
          (filter (\<lambda>e. matches (tokens (fst e)) channel \<and> j \<in> set (subscribers_of True s (fst e))) l))" for l
    by (induction l) (simp_all add: p)
  then show ?thesis
    using frames_to_map [OF d [of False channel]]
    by (auto simp: publish_pushes_def channel_pushes_def frames_for_def audience_def)
qed

lemma publish_effect:
  assumes ok: "pubsub_ok s" and w: "no_sbe s" and p: "publish channel payload edge s = (n, s')"
  defines "after \<equiv> (\<lambda>j. enqueue_all (output_of s j) (frames_for edge s channel payload j))"
  defines "lost \<equiv> {j. \<not> close_requested (output_of s j) \<and> close_requested (after j)}"
  shows "pubsub_ok s'"
    and "\<And>j. j \<notin> lost \<Longrightarrow> output_of s' j = after j"
    and "\<And>q c j. j \<in> set (subscribers_of q s' c) \<longleftrightarrow> j \<in> set (subscribers_of q s c) \<and> j \<notin> lost"
    and "\<And>J. finite J \<Longrightarrow> {j. frames_for edge s channel payload j \<noteq> []} \<subseteq> J \<Longrightarrow>
      n = (\<Sum>j \<in> J. accepted_count (output_of s j) (frames_for edge s channel payload j))"
proof -
  have t: "tables_ok s" and c: "core_ok s" and o: "overflowed s = []" using ok by (simp_all add: pubsub_ok_def core_ok_def)
  let ?l = "publish_pushes edge s channel payload"
  obtain s1 where s1: "push_all ?l (s, 0) = (s1, n)" "s' = cleanup_overflowed s1"
    using p publish_pushes_all [OF t w, of channel payload edge] by (auto split: prod.splits)
  have oo: "output_only s s1" using push_all_output_only [of "(s, 0)" ?l] s1(1) by simp
  have out: "output_of s1 j = after j" for j
    using push_all_output [of ?l "(s, 0)" j] s1(1) by (simp add: after_def frames_to_publish [OF t])
  have ov: "set (overflowed s1) = lost"
    using push_all_overflowed [of ?l "(s, 0)"] s1(1) o by (simp add: out lost_def)
  have c1: "core_ok s1" using output_only_core [OF oo] c by simp
  let ?s2 = "foldl (\<lambda>s i. remove i s) s1 (overflowed s1)"
  have s': "s' = ?s2\<lparr>overflowed := []\<rparr>" by (simp add: s1(2) cleanup_overflowed_def)
  have cf: "core_ok ?s2" "\<And>q c j. j \<in> set (subscribers_of q ?s2 c) \<longleftrightarrow> j \<in> set (subscribers_of q s1 c) \<and> j \<notin> lost"
    "\<And>j. j \<notin> lost \<Longrightarrow> sessions ?s2 j = sessions s1 j"
    using cleanup_fold [OF c1, of "overflowed s1"] by (simp_all add: Let_def ov)
  show "pubsub_ok s'"
    using cf(1) tables_ok_cong [of s' ?s2] by (simp add: pubsub_ok_def core_ok_def s' names_ok_def)
  show "\<And>j. j \<notin> lost \<Longrightarrow> output_of s' j = after j" using cf(3) out by (simp add: s')
  show "\<And>q c j. j \<in> set (subscribers_of q s' c) \<longleftrightarrow> j \<in> set (subscribers_of q s c) \<and> j \<notin> lost"
    using cf(2) output_onlyD(1) [OF oo] by (simp add: s')
  fix J :: "nat set"
  assume J: "finite J" "{j. frames_for edge s channel payload j \<noteq> []} \<subseteq> J"
  have "j \<in> J" if "j \<in> fst ` set ?l" for j
  proof -
    from that obtain b where "(j, b) \<in> set ?l" by auto
    then have "frames_to j ?l \<noteq> []" by (force simp: frames_to_def filter_empty_conv)
    with J(2) show ?thesis by (auto simp: frames_to_publish [OF t])
  qed
  with push_all_count [OF J(1), of ?l "(s, 0)"] s1(1)
  show "n = (\<Sum>j \<in> J. accepted_count (output_of s j) (frames_for edge s channel payload j))"
    by (auto simp: frames_to_publish [OF t])
qed


section \<open>Runs of the registry\<close>

lemma deliver_output_only: "output_only (fst sd) (fst (deliver_to_set js m scratch edge sd))"
proof (induction js arbitrary: sd)
  case (Cons j js)
  show ?case
  proof (cases "excluded_session edge (sessions (fst sd) j) \<or> bytes_for m scratch (ps_wire_mode (sessions (fst sd) j)) = None")
    case True
    then show ?thesis using Cons.IH [of sd] by (auto simp: Let_def)
  next
    case False
    then obtain b where b: "bytes_for m scratch (ps_wire_mode (sessions (fst sd) j)) = Some b" by auto
    obtain okay s1 where e: "ps_enqueue j b (fst sd) = (okay, s1)" by (cases "ps_enqueue j b (fst sd)")
    have "output_only (fst sd) s1" using ps_enqueue_output_only [of "fst sd" j b] e by simp
    from output_only_trans [OF this Cons.IH [of "(s1, if okay then snd sd + 1 else snd sd)", unfolded fst_conv]]
    show ?thesis using False b e by (simp add: Let_def)
  qed
qed (simp add: output_only_refl)

lemma publish_keeps:
  assumes "pubsub_ok s"
  shows "pubsub_ok (snd (publish channel payload edge s))"
proof -
  have pc: "output_only (fst sd) (fst (publish_channel channel payload edge sd))" for sd
    using deliver_output_only output_only_refl by (auto simp: publish_channel_def Let_def split: option.splits)
  have pp: "output_only (fst sd) (fst (publish_pattern channel payload edge sd e))" for sd e
    using deliver_output_only output_only_refl by (auto simp: publish_pattern_def Let_def split: option.splits)
  have fold: "output_only (fst sd) (fst (foldl (publish_pattern channel payload edge) sd l))" for sd l
  proof (induction l arbitrary: sd)
    case (Cons e l)
    from output_only_trans [OF pp Cons.IH [of "publish_pattern channel payload edge sd e"]] show ?case by simp
  qed (simp add: output_only_refl)
  let ?sd = "publish_channel channel payload edge (s, 0)"
  let ?s = "fst (foldl (publish_pattern channel payload edge) ?sd (pattern_publish (fst ?sd)))"
  have "output_only s ?s" using output_only_trans [OF pc [of "(s, 0)", unfolded fst_conv] fold] .
  then have "core_ok ?s" using output_only_core assms by (simp add: pubsub_ok_def core_ok_def)
  from cleanup_fold [OF this, of "overflowed ?s"] have "core_ok (foldl (\<lambda>s i. remove i s) ?s (overflowed ?s))" by (simp add: Let_def)
  moreover have "snd (publish channel payload edge s) = (foldl (\<lambda>s i. remove i s) ?s (overflowed ?s))\<lparr>overflowed := []\<rparr>"
    by (simp add: publish_def cleanup_overflowed_def Let_def split: prod.splits)
  ultimately show ?thesis
    using tables_ok_cong [of "snd (publish channel payload edge s)" "foldl (\<lambda>s i. remove i s) ?s (overflowed ?s)"]
    by (simp add: pubsub_ok_def core_ok_def names_ok_def)
qed

text \<open>Events: a connection runs a Pub/Sub command, goes away, or changes its output or protocol otherwise; the
  weight of an aggregate subscription is set.\<close>

datatype ps_event =
    Run nat command string
  | Gone nat
  | Other nat endpoint wire_mode
  | Weigh nat string bool nat

fun ps_step :: "(string list \<Rightarrow> string list) \<Rightarrow> pubsub \<Rightarrow> ps_event \<Rightarrow> pubsub" where
  "ps_step layout s (Run i c out) = fst (ps_execute layout i c s out)"
| "ps_step layout s (Gone i) = remove i s"
| "ps_step layout s (Other i e w) = set_session i ((sessions s i)\<lparr>ps_endpoint := e, ps_wire_mode := w\<rparr>) s"
| "ps_step layout s (Weigh i name pat n) = snd (set_bluefield_subscription_weight i name pat n s)"

definition ps_initial :: "pubsub \<Rightarrow> bool" where
  "ps_initial s \<longleftrightarrow> channels s = [] \<and> patterns s = [] \<and> pattern_publish s = [] \<and> overflowed s = [] \<and>
     (\<forall>i. channel_names (sessions s i) = [] \<and> pattern_names (sessions s i) = [] \<and>
        literal_subscriptions (sessions s i) = 0 \<and> pattern_subscriptions (sessions s i) = 0)"

inductive ps_reachable :: "(string list \<Rightarrow> string list) \<Rightarrow> pubsub \<Rightarrow> bool" for layout where
  start: "ps_initial s \<Longrightarrow> ps_reachable layout s"
| move: "ps_reachable layout s \<Longrightarrow> ps_reachable layout (ps_step layout s ev)"

lemma ps_initial_ok: "ps_initial s \<Longrightarrow> pubsub_ok s"
  by (auto simp: ps_initial_def pubsub_ok_def tables_ok_def names_ok_def table_of_def table_ok_def publish_ok_def subs_def
      names_of_def count_of_def)

lemma pubsub_ok_session:
  assumes "pubsub_ok s" and "\<And>q. names_of q p = names_of q (sessions s i)" "\<And>q. count_of q p = count_of q (sessions s i)"
  shows "pubsub_ok (set_session i p s)"
  using assms tables_ok_cong [of "set_session i p s" s] by (auto simp: pubsub_ok_def names_ok_def)

lemma ps_step_ok:
  assumes "pubsub_ok s"
  shows "pubsub_ok (ps_step layout s ev)"
proof (cases ev)
  case (Run i c out)
  then show ?thesis
    using assms subscribe_ok unsubscribe_ok publish_keeps [OF assms, of "cmd_args c ! 0" "cmd_args c ! 1" "bluefield_edge_id (sessions s i)"]
    by (cases "cmd_type c") (auto simp: ps_execute_def split: prod.splits)
next
  case (Gone i)
  with remove_core(1,2) [where s = s and i = i] assms show ?thesis by (simp add: pubsub_ok_def core_ok_def)
next
  case (Other i e w)
  with assms show ?thesis by (simp add: pubsub_ok_session names_of_def count_of_def)
next
  case (Weigh i name pat n)
  with assms show ?thesis
    by (auto simp: set_bluefield_subscription_weight_def Let_def pubsub_ok_session split: option.splits)
qed

lemma ps_reachable_ok: "ps_reachable layout s \<Longrightarrow> pubsub_ok s"
  by (induction rule: ps_reachable.induct) (simp_all add: ps_initial_ok ps_step_ok)

section \<open>Subscriptions as a relation\<close>

definition subscriptions :: "pubsub \<Rightarrow> (bool \<times> nat \<times> string) set" where
  "subscriptions s = {(pat, j, n). j \<in> set (subscribers_of pat s n)}"

lemma subscribe_relation:
  assumes "pubsub_ok s"
  shows "subscriptions (fst (subscribe i names pat (s, out))) = subscriptions s \<union> {(pat, i, n) |n. n \<in> set names}"
proof -
  have "pubsub_ok (fst so) \<Longrightarrow> subscriptions (fst (foldl (subscribe_one pat i) so names)) =
      subscriptions (fst so) \<union> {(pat, i, n) |n. n \<in> set names}" for so
  proof (induction names arbitrary: so)
    case (Cons n names)
    obtain s1 o1 where so: "so = (s1, o1)" by (cases so)
    have t: "tables_ok s1" using Cons.prems so by (simp add: pubsub_ok_def)
    have "subscriptions (fst (subscribe_one pat i (s1, o1) n)) = subscriptions s1 \<union> {(pat, i, n)}"
      using subscribe_one_tables(2) [OF t, where pat = pat and i = i and out = o1 and name = n] by (auto simp: subscriptions_def)
    with Cons.IH [of "subscribe_one pat i (s1, o1) n"] subscribe_one_ok [of s1 pat i o1 n] Cons.prems so show ?case by auto
  qed simp
  with assms show ?thesis by (simp add: subscribe_def)
qed

lemma unsubscribe_relation:
  assumes "pubsub_ok s"
  shows "subscriptions (fst (unsubscribe i names pat (s, out))) =
    subscriptions s - {(pat, i, n) |n. names = [] \<or> n \<in> set names}"
proof (cases "names = []")
  case True
  then show ?thesis
    using unsubscribe_all_ok(2) [OF assms, where i = i and pat = pat and out = out] by (auto simp: subscriptions_def)
next
  case False
  have "pubsub_ok (fst so) \<Longrightarrow> subscriptions (fst (foldl (unsubscribe_one True pat i) so names)) =
      subscriptions (fst so) - {(pat, i, n) |n. n \<in> set names}" for so
  proof (induction names arbitrary: so)
    case (Cons n names)
    obtain s1 o1 where so: "so = (s1, o1)" by (cases so)
    have t: "tables_ok s1" using Cons.prems so by (simp add: pubsub_ok_def)
    have "subscriptions (fst (unsubscribe_one True pat i (s1, o1) n)) = subscriptions s1 - {(pat, i, n)}"
      using unsubscribe_one_tables(2) [OF t, where forget = True and pat = pat and i = i and out = o1 and name = n]
      by (auto simp: subscriptions_def)
    with Cons.IH [of "unsubscribe_one True pat i (s1, o1) n"] unsubscribe_one_ok [of s1 pat i o1 n] Cons.prems so show ?case by auto
  qed simp
  with assms False show ?thesis by (simp add: unsubscribe_def)
qed

lemma remove_relation: "pubsub_ok s \<Longrightarrow> subscriptions (remove i s) = {(pat, j, n) \<in> subscriptions s. j \<noteq> i}"
  using remove_core(3) [where s = s and i = i] by (auto simp: subscriptions_def pubsub_ok_def core_ok_def)


section \<open>Properties\<close>

text \<open>C11: the subscription tables and the connections always agree. In every reachable registry no table entry
  is empty and no connection is listed twice; a connection's own list of names, its counter and the
  tables name the same subscriptions; the list that publications scan holds exactly the patterns with a
  subscriber, once each and classified right; no overflowed connection is left over.\<close>

theorem pubsub_invariant: "ps_reachable layout s \<Longrightarrow> pubsub_ok s"
  by (rule ps_reachable_ok)

definition demo_session :: pubsub_session where
  "demo_session = \<lparr>ps_endpoint = new_endpoint demo_queue, ps_wire_mode = Wire_resp2, literal_subscriptions = 0,
     pattern_subscriptions = 0, channel_names = [], pattern_names = [], bluefield_edge_id = 0,
     bluefield_aggregate = False, bluefield_aggregate_state = None\<rparr>"

definition demo_pubsub :: pubsub where
  "demo_pubsub = \<lparr>sessions = (\<lambda>_. demo_session), channels = [], patterns = [], pattern_publish = [], overflowed = [],
     observer_calls = []\<rparr>"

lemma demo_pubsub_initial: "ps_initial demo_pubsub"
  by (simp add: ps_initial_def demo_pubsub_def demo_session_def)

theorem pubsub_invariant_witness:
  "pubsub_ok (ps_step (\<lambda>ns. ns) demo_pubsub (Run 1 \<lparr>cmd_type = Ct_subscribe, cmd_args = [''news'']\<rparr> []))"
  using pubsub_invariant [OF ps_reachable.move [OF ps_reachable.start [OF demo_pubsub_initial]]] .

text \<open>C17: the registry implements a relation between connections and names. Subscribing adds the named
  pairs, unsubscribing takes them away, without names all of the connection's of that sort, and a
  connection that goes away loses all; nobody else's subscriptions change.\<close>

theorem subscriptions_refine:
  assumes "ps_reachable layout s"
  shows "subscriptions (fst (subscribe i names pat (s, out))) = subscriptions s \<union> {(pat, i, n) |n. n \<in> set names} \<and>
    subscriptions (fst (unsubscribe i names pat (s, out))) = subscriptions s - {(pat, i, n) |n. names = [] \<or> n \<in> set names} \<and>
    subscriptions (remove i s) = {(pat, j, n) \<in> subscriptions s. j \<noteq> i}"
  using subscribe_relation [OF ps_reachable_ok [OF assms]] unsubscribe_relation [OF ps_reachable_ok [OF assms]]
    remove_relation [OF ps_reachable_ok [OF assms]] by (intro conjI)

theorem subscriptions_refine_witness:
  "(False, 1, ''news'') \<in> subscriptions (fst (subscribe 1 [''news''] False (demo_pubsub, [])))"
  using subscriptions_refine [OF ps_reachable.start [OF demo_pubsub_initial], of 1 "[''news'']" False "[]"] by simp

text \<open>C6: a publication reaches its subscribers and nobody else. Every connection that is not excluded gets
  one message frame if it is subscribed to the channel and one pattern frame for each of its patterns
  whose meaning covers the channel, in its own protocol version; its output is what enqueueing these
  frames makes of it. Only connections whose queue overflows on the way lose their subscriptions. The
  number returned is the number of frames accepted.\<close>

theorem publish_delivers:
  assumes "ps_reachable layout s" and "\<forall>j. ps_wire_mode (sessions s j) \<noteq> Wire_sbe"
    and "publish channel payload edge s = (n, s')"
    and "finite J" and "{j. frames_for edge s channel payload j \<noteq> []} \<subseteq> J"
    and "lost = {j. \<not> close_requested (output_of s j) \<and>
      close_requested (enqueue_all (output_of s j) (frames_for edge s channel payload j))}"
  shows "(\<forall>j. j \<notin> lost \<longrightarrow> output_of s' j = enqueue_all (output_of s j) (frames_for edge s channel payload j)) \<and>
    subscriptions s' = {(pat, j, c) \<in> subscriptions s. j \<notin> lost} \<and>
    n = (\<Sum>j \<in> J. accepted_count (output_of s j) (frames_for edge s channel payload j))"
proof -
  have "no_sbe s" using assms(2) by (simp add: no_sbe_def)
  note e = publish_effect [OF ps_reachable_ok [OF assms(1)] this assms(3)]
  have "subscriptions s' = {(pat, j, c) \<in> subscriptions s. j \<notin> lost}"
    unfolding subscriptions_def assms(6) using e(3) by auto
  with e(2) e(4) [OF assms(4,5)] show ?thesis by (simp add: assms(6))
qed

definition demo_subscribed :: pubsub where
  "demo_subscribed = ps_step (\<lambda>ns. ns) demo_pubsub (Run 1 \<lparr>cmd_type = Ct_subscribe, cmd_args = [''c'']\<rparr> [])"

lemma demo_subscribed_eq:
  "demo_subscribed = demo_pubsub\<lparr>channels := [(''c'', [1])], observer_calls := [(''c'', False, 1)],
     sessions := (\<lambda>_. demo_session)(1 := demo_session\<lparr>literal_subscriptions := 1, channel_names := [''c'']\<rparr>)\<rparr>"
  by (simp add: demo_subscribed_def ps_execute_def subscribe_def subscribe_one_def demo_pubsub_def demo_session_def Let_def
      table_of_def set_table_def table_put_def set_count_def count_of_def set_names_def names_of_def update_weights_def
      notify_subscription_changed_def set_session_def)

lemma demo_frames:
  "frames_for 0 demo_subscribed ''c'' ''m'' j = (if j = 1 then [message_frame Wire_resp2 ''c'' ''m''] else [])"
  by (simp add: frames_for_def demo_subscribed_eq demo_pubsub_def demo_session_def excluded_session_def subs_def table_of_def)

theorem publish_delivers_witness:
  "\<exists>s'. publish ''c'' ''m'' 0 demo_subscribed =
     (accepted_count (output_of demo_subscribed 1) [message_frame Wire_resp2 ''c'' ''m''], s')"
proof -
  obtain n s' where p: "publish ''c'' ''m'' 0 demo_subscribed = (n, s')" by (cases "publish ''c'' ''m'' 0 demo_subscribed")
  have r: "ps_reachable (\<lambda>ns. ns) demo_subscribed"
    unfolding demo_subscribed_def by (rule ps_reachable.move [OF ps_reachable.start [OF demo_pubsub_initial]])
  have w: "\<forall>j. ps_wire_mode (sessions demo_subscribed j) \<noteq> Wire_sbe"
    by (simp add: demo_subscribed_eq demo_session_def)
  have J: "{j. frames_for 0 demo_subscribed ''c'' ''m'' j \<noteq> []} \<subseteq> {1}" by (auto simp: demo_frames)
  from publish_delivers [OF r w p _ J refl] p show ?thesis by (simp add: demo_frames)
qed

end
