(* ===== verification/Ring_Buffer.thy ===== *)
theory Ring_Buffer
  imports Fifo "HOL-Library.Monad_Syntax"
begin

text \<open>
  The shared-memory rings (\<open>include/goblin/core/ring_buffer.hpp\<close>). One direction of a ring is a power-of-two
  region of bytes with two 64-bit counters, the consumer's \<open>head\<close> and the producer's \<open>tail\<close>. A record is a
  64-byte control line (length, flag) followed by the payload, padded to whole lines. In the portable
  mode a record never straddles the end of the region, a filler record tells the consumer to skip; in
  the mirror mode the region is mapped twice in a row and a record may run into the second copy.

  \<open>ring\<close> is the memory both processes see; \<open>producer\<close> and \<open>consumer\<close> are the private fields of the two
  classes, without the pointers and the counter of idle polls, which only chooses how to wait. First
  come the operations as the source has them, run without interference; then the same operations cut
  at every access to shared memory, one byte at a time for the payload, as a step relation in which
  producer and consumer interleave, crash and reconnect. The acquire and release orderings of the
  source make every execution one of these interleavings.
\<close>

unbundle bit_operations_syntax

section \<open>Sizes\<close>

definition kCacheLine :: u64 where "kCacheLine = 64"
definition kFlagData :: u64 where "kFlagData = 0"
definition kFlagWrap :: u64 where "kFlagWrap = 1"

definition align_up :: "u64 \<Rightarrow> u64 \<Rightarrow> u64" where
  "align_up x a = (x + (a - 1)) AND NOT (a - 1)"

text \<open>\<open>std::bit_width\<close> and \<open>std::bit_ceil\<close>.\<close>

fun bit_width :: "nat \<Rightarrow> nat" where
  "bit_width n = (if n = 0 then 0 else Suc (bit_width (n div 2)))"

definition bit_ceil :: "u64 \<Rightarrow> u64" where
  "bit_ceil x = (if x \<le> 1 then 1 else push_bit (bit_width (unat (x - 1))) 1)"

definition capacity_for :: "u64 \<Rightarrow> u64 \<Rightarrow> u64" where
  "capacity_for page bytes = bit_ceil (if bytes < page then page else bytes)"

definition suffix_is :: "string \<Rightarrow> string \<Rightarrow> bool" where
  "suffix_is suffix s \<longleftrightarrow>
     map (\<lambda>c. if 65 \<le> ord c \<and> ord c \<le> 90 then chr (ord c + 32) else c) suffix = s"

definition parse_size :: "string \<Rightarrow> u64 option" where
  "parse_size text1 =
     (let digits = takeWhile (\<lambda>c. 48 \<le> ord c \<and> ord c \<le> 57) text1;
          val = foldl (\<lambda>v c. v * 10 + (ord c - 48)) 0 digits;
          suffix = drop (length digits) text1
      in if digits = [] \<or> val > 2 ^ 64 - 1 then None
         else do {
           mult \<leftarrow> (if suffix = [] \<or> suffix_is suffix ''b'' then Some 1
                   else if suffix_is suffix ''k'' \<or> suffix_is suffix ''kb'' then Some (2 ^ 10)
                   else if suffix_is suffix ''m'' \<or> suffix_is suffix ''mb'' then Some (2 ^ 20)
                   else if suffix_is suffix ''g'' \<or> suffix_is suffix ''gb'' then Some (2 ^ 30)
                   else None);
           if val \<noteq> 0 \<and> val > (2 ^ 64 - 1) div mult then None else Some (of_nat (val * mult))
         })"

section \<open>Memory\<close>

record ring =
  ring_head :: u64
  ring_tail :: u64
  ring_data :: string

text \<open>The physical place of an offset: the second half of a mirror mapping is the first half again.\<close>

definition phys :: "bool \<Rightarrow> string \<Rightarrow> nat \<Rightarrow> nat" where
  "phys mirror d a = (if mirror \<and> length d \<le> a then a - length d else a)"

definition poke :: "bool \<Rightarrow> string \<Rightarrow> nat \<times> char \<Rightarrow> string" where
  "poke mirror d ab = d[phys mirror d (fst ab) := snd ab]"

definition bytes_at :: "nat \<Rightarrow> string \<Rightarrow> (nat \<times> char) list" where
  "bytes_at a bs = zip [a..<a + length bs] bs"

definition ring_get_u32 :: "string \<Rightarrow> nat \<Rightarrow> u64" where
  "ring_get_u32 d a = of_nat (le_value (substr d a 4))"

section \<open>The consumer\<close>

record consumer =
  con_capacity :: u64
  con_mask :: u64
  con_mirror :: bool
  head_pos :: u64

definition new_consumer :: "u64 \<Rightarrow> bool \<Rightarrow> ring \<Rightarrow> consumer" where
  "new_consumer capacity mirror r =
     \<lparr>con_capacity = capacity, con_mask = capacity - 1, con_mirror = mirror, head_pos = ring_head r\<rparr>"

definition flag_at :: "consumer \<Rightarrow> string \<Rightarrow> u64 \<Rightarrow> u64" where
  "flag_at c d h = ring_get_u32 d (unat (h AND con_mask c) + 4)"

definition length_at :: "consumer \<Rightarrow> string \<Rightarrow> u64" where
  "length_at c d = ring_get_u32 d (unat (head_pos c AND con_mask c))"

partial_function (option) advance_to_record :: "ring \<Rightarrow> consumer \<Rightarrow> (bool \<times> ring \<times> consumer) option" where
  "advance_to_record r c =
     (let h = head_pos c; t = ring_tail r
      in if h = t then Some (False, r, c)
         else if con_mirror c then Some (True, r, c)
         else
           let off = h AND con_mask c
           in if flag_at c (ring_data r) h = kFlagWrap
              then let h = h + (con_capacity c - off)
                   in advance_to_record (r\<lparr>ring_head := h\<rparr>) (c\<lparr>head_pos := h\<rparr>)
              else Some (True, r, c))"

definition view_byte :: "consumer \<Rightarrow> string \<Rightarrow> nat \<Rightarrow> char" where
  "view_byte c d a = d ! phys (con_mirror c) d a"

definition con_peek :: "ring \<Rightarrow> consumer \<Rightarrow> (string option \<times> ring \<times> consumer) option" where
  "con_peek r c =
     do {
       (found, r, c) \<leftarrow> advance_to_record r c;
       if \<not> found then Some (None, r, c)
       else
         let base = unat (head_pos c AND con_mask c); len = unat (length_at c (ring_data r))
         in Some (Some (map (view_byte c (ring_data r)) [base + 64..<base + 64 + len]), r, c)
     }"

definition next_head :: "consumer \<Rightarrow> u64 \<Rightarrow> u64" where
  "next_head c len = head_pos c + kCacheLine + align_up len kCacheLine"

definition con_pop :: "ring \<Rightarrow> consumer \<Rightarrow> ring \<times> consumer" where
  "con_pop r c =
     (let n = next_head c (length_at c (ring_data r)) in (r\<lparr>ring_head := n\<rparr>, c\<lparr>head_pos := n\<rparr>))"

section \<open>The producer\<close>

record producer =
  prod_capacity :: u64
  prod_mask :: u64
  prod_mirror :: bool
  max_payload :: u64
  cached_head :: u64
  tail_pos :: u64

definition new_producer :: "u64 \<Rightarrow> bool \<Rightarrow> ring \<Rightarrow> producer" where
  "new_producer capacity mirror r =
     \<lparr>prod_capacity = capacity, prod_mask = capacity - 1, prod_mirror = mirror,
      max_payload = capacity div 2 - kCacheLine, cached_head = ring_head r, tail_pos = ring_tail r\<rparr>"

definition push_padded :: "string \<Rightarrow> u64" where
  "push_padded payload = kCacheLine + align_up (of_nat (length payload)) kCacheLine"

definition to_end :: "producer \<Rightarrow> u64" where
  "to_end p = prod_capacity p - (tail_pos p AND prod_mask p)"

definition push_wraps :: "producer \<Rightarrow> string \<Rightarrow> bool" where
  "push_wraps p payload \<longleftrightarrow> \<not> prod_mirror p \<and> push_padded payload > to_end p"

definition push_need :: "producer \<Rightarrow> string \<Rightarrow> u64" where
  "push_need p payload = (if push_wraps p payload then to_end p + push_padded payload else push_padded payload)"

definition has_room :: "producer \<Rightarrow> string \<Rightarrow> bool" where
  "has_room p payload \<longleftrightarrow> \<not> prod_capacity p - (tail_pos p - cached_head p) < push_need p payload"

text \<open>The stores of \<open>try_push\<close> in their order: the filler, the control word, the payload.\<close>

definition push_stores :: "producer \<Rightarrow> string \<Rightarrow> (nat \<times> char) list" where
  "push_stores p payload =
     (let t = tail_pos p;
          filler = (if push_wraps p payload
                    then bytes_at (unat (t AND prod_mask p)) (le_bytes 8 (unat (push_bit 32 kFlagWrap)))
                    else []);
          t = (if push_wraps p payload then t + to_end p else t);
          base = unat (t AND prod_mask p);
          ctrl = take_bit 32 (of_nat (length payload)) OR push_bit 32 kFlagData
      in filler @ bytes_at base (le_bytes 8 (unat ctrl)) @ bytes_at (base + 64) payload)"

definition push_next :: "producer \<Rightarrow> string \<Rightarrow> u64" where
  "push_next p payload = (if push_wraps p payload then tail_pos p + to_end p else tail_pos p) + push_padded payload"

definition try_push :: "string \<Rightarrow> ring \<Rightarrow> producer \<Rightarrow> bool \<times> ring \<times> producer" where
  "try_push payload r p =
     (let p = (if has_room p payload then p else p\<lparr>cached_head := ring_head r\<rparr>)
      in if \<not> has_room p payload then (False, r, p)
         else (True,
               r\<lparr>ring_data := foldl (poke (prod_mirror p)) (ring_data r) (push_stores p payload),
                 ring_tail := push_next p payload\<rparr>,
               p\<lparr>tail_pos := push_next p payload\<rparr>))"

text \<open>Waiting for room: each element of \<open>waits\<close> is what the consumer has stored to the head by the next
  attempt, and the result of \<open>stop()\<close>. \<open>None\<close> is a producer that still waits when the list ends.\<close>

fun push_until :: "string \<Rightarrow> (u64 \<times> bool) list \<Rightarrow> ring \<Rightarrow> producer \<Rightarrow> (bool \<times> (u64 \<times> bool) list \<times> ring \<times> producer) option" where
  "push_until payload waits r p =
     (case try_push payload r p of
        (True, r, p) \<Rightarrow> Some (True, waits, r, p)
      | (False, r, p) \<Rightarrow>
          (case waits of
             [] \<Rightarrow> None
           | (h, stop) # waits \<Rightarrow>
               if stop then Some (False, waits, r\<lparr>ring_head := h\<rparr>, p)
               else push_until payload waits (r\<lparr>ring_head := h\<rparr>) p))"

definition piece_size :: "producer \<Rightarrow> string \<Rightarrow> nat" where
  "piece_size p payload = (if length payload < unat (max_payload p) then length payload else unat (max_payload p))"

partial_function (option) send_loop ::
  "string \<Rightarrow> (u64 \<times> bool) list \<Rightarrow> ring \<Rightarrow> producer \<Rightarrow> (bool \<times> (u64 \<times> bool) list \<times> ring \<times> producer) option" where
  "send_loop payload waits r p =
     (if payload = [] then Some (True, waits, r, p)
      else
        let chunk = piece_size p payload
        in do {
          (ok, waits, r, p) \<leftarrow> push_until (take chunk payload) waits r p;
          if ok then send_loop (drop chunk payload) waits r p else Some (False, waits, r, p)
        })"

definition send :: "string \<Rightarrow> (u64 \<times> bool) list \<Rightarrow> ring \<Rightarrow> producer \<Rightarrow> (bool \<times> (u64 \<times> bool) list \<times> ring \<times> producer) option" where
  "send payload waits r p =
     (if length payload \<le> unat (max_payload p) then push_until payload waits r p
      else send_loop payload waits r p)"

text \<open>\<open>send_record\<close>; \<open>Inl\<close> is the exception \<open>std::length_error\<close>, with the two sizes of its message.\<close>

definition send_record ::
  "string \<Rightarrow> (u64 \<times> bool) list \<Rightarrow> ring \<Rightarrow> producer \<Rightarrow> (nat \<times> nat + bool \<times> (u64 \<times> bool) list \<times> ring \<times> producer) option" where
  "send_record payload waits r p =
     (if length payload > unat (max_payload p) then Some (Inl (length payload, unat (max_payload p)))
      else map_option Inr (push_until payload waits r p))"

section \<open>Reconnecting\<close>

text \<open>The two directions of a mapping and the handshake words of its header.\<close>

record ring_mapping =
  sq :: ring
  cq :: ring
  sq_cap :: u64
  cq_cap :: u64
  map_mirror :: bool
  epoch :: u64
  epoch_ack :: u64

definition new_ring :: "u64 \<Rightarrow> ring" where
  "new_ring capacity = \<lparr>ring_head = 0, ring_tail = 0, ring_data = replicate (unat capacity) (chr 0)\<rparr>"

definition request_reconnect :: "ring_mapping \<Rightarrow> u64 \<times> ring_mapping" where
  "request_reconnect m = (epoch m + 1, m\<lparr>epoch := epoch m + 1\<rparr>)"

definition reconnect_acked :: "u64 \<Rightarrow> ring_mapping \<Rightarrow> bool" where
  "reconnect_acked e m \<longleftrightarrow> epoch_ack m = e"

definition ack_epoch :: "u64 \<Rightarrow> ring_mapping \<Rightarrow> ring_mapping" where
  "ack_epoch e m = m\<lparr>epoch_ack := e\<rparr>"

definition discard_unread :: "ring \<Rightarrow> ring" where
  "discard_unread r = r\<lparr>ring_head := ring_tail r\<rparr>"

definition rewind_unread :: "ring \<Rightarrow> ring" where
  "rewind_unread r = r\<lparr>ring_tail := ring_head r\<rparr>"

definition drain_for_reconnect :: "ring_mapping \<Rightarrow> ring_mapping" where
  "drain_for_reconnect m = m\<lparr>sq := discard_unread (sq m), cq := rewind_unread (cq m)\<rparr>"

section \<open>Interleaved steps\<close>

text \<open>Where the producer is: not connected, its constructor between the two loads, between calls, about to
  load the head again, in the middle of its stores.\<close>

datatype push_pc =
    Push_detached
  | Push_seed u64
  | Push_idle
  | Push_reload string
  | Push_storing string "(nat \<times> char) list" u64

text \<open>Where the consumer is: not connected, between calls, about to read the flag, to skip a filler, to read
  the length, copying out of the view with the bytes read so far, about to free the record.\<close>

datatype pop_pc =
    Pop_detached
  | Pop_idle
  | Pop_flag
  | Pop_skip u64
  | Pop_length
  | Pop_view nat string
  | Pop_free u64 string

record ring_run =
  shared :: ring
  run_prod :: producer
  run_cons :: consumer
  push_at :: push_pc
  pop_at :: pop_pc
  published :: "string list"
  delivered :: "string list"

definition push_go :: "producer \<Rightarrow> string \<Rightarrow> push_pc \<Rightarrow> push_pc" where
  "push_go p payload otherwise =
     (if has_room p payload then Push_storing payload (push_stores p payload) (push_next p payload) else otherwise)"

inductive ring_step :: "u64 \<Rightarrow> bool \<Rightarrow> ring_run \<Rightarrow> ring_run \<Rightarrow> bool" for capacity mirror where
  push_seed: "push_at s = Push_detached \<Longrightarrow> ring_step capacity mirror s (s\<lparr>push_at := Push_seed (ring_head (shared s))\<rparr>)"
| push_attach: "push_at s = Push_seed h \<Longrightarrow> ring_step capacity mirror s
    (s\<lparr>run_prod := (new_producer capacity mirror (shared s))\<lparr>cached_head := h\<rparr>, push_at := Push_idle\<rparr>)"
| push_start: "push_at s = Push_idle \<Longrightarrow> length payload \<le> unat (max_payload (run_prod s)) \<Longrightarrow>
    ring_step capacity mirror s (s\<lparr>push_at := push_go (run_prod s) payload (Push_reload payload)\<rparr>)"
| push_reload: "push_at s = Push_reload payload \<Longrightarrow> p = (run_prod s)\<lparr>cached_head := ring_head (shared s)\<rparr> \<Longrightarrow>
    ring_step capacity mirror s (s\<lparr>run_prod := p, push_at := push_go p payload Push_idle\<rparr>)"
| push_store: "push_at s = Push_storing payload (ab # ss) n \<Longrightarrow> ring_step capacity mirror s
    (s\<lparr>shared := (shared s)\<lparr>ring_data := poke (prod_mirror (run_prod s)) (ring_data (shared s)) ab\<rparr>,
       push_at := Push_storing payload ss n\<rparr>)"
| push_publish: "push_at s = Push_storing payload [] n \<Longrightarrow> ring_step capacity mirror s
    (s\<lparr>shared := (shared s)\<lparr>ring_tail := n\<rparr>, run_prod := (run_prod s)\<lparr>tail_pos := n\<rparr>, push_at := Push_idle,
       published := published s @ [payload]\<rparr>)"
| push_crash: "ring_step capacity mirror s (s\<lparr>push_at := Push_detached\<rparr>)"
| pop_attach: "pop_at s = Pop_detached \<Longrightarrow> ring_step capacity mirror s
    (s\<lparr>run_cons := new_consumer capacity mirror (shared s), pop_at := Pop_idle\<rparr>)"
| pop_poll: "pop_at s = Pop_idle \<Longrightarrow> ring_step capacity mirror s
    (s\<lparr>pop_at := (if head_pos (run_cons s) = ring_tail (shared s) then Pop_idle
                 else if con_mirror (run_cons s) then Pop_length else Pop_flag)\<rparr>)"
| pop_flag: "pop_at s = Pop_flag \<Longrightarrow> h = head_pos (run_cons s) \<Longrightarrow> ring_step capacity mirror s
    (s\<lparr>pop_at := (if flag_at (run_cons s) (ring_data (shared s)) h = kFlagWrap
                 then Pop_skip (h + (con_capacity (run_cons s) - (h AND con_mask (run_cons s)))) else Pop_length)\<rparr>)"
| pop_skip: "pop_at s = Pop_skip h \<Longrightarrow> ring_step capacity mirror s
    (s\<lparr>shared := (shared s)\<lparr>ring_head := h\<rparr>, run_cons := (run_cons s)\<lparr>head_pos := h\<rparr>, pop_at := Pop_idle\<rparr>)"
| pop_length: "pop_at s = Pop_length \<Longrightarrow> ring_step capacity mirror s
    (s\<lparr>pop_at := Pop_view (unat (length_at (run_cons s) (ring_data (shared s)))) []\<rparr>)"
| pop_copy: "pop_at s = Pop_view n got \<Longrightarrow> length got < n \<Longrightarrow> ring_step capacity mirror s
    (s\<lparr>pop_at := Pop_view n (got @ [view_byte (run_cons s) (ring_data (shared s))
        (unat (head_pos (run_cons s) AND con_mask (run_cons s)) + 64 + length got)])\<rparr>)"
| pop_again: "pop_at s = Pop_view n got \<Longrightarrow> length got = n \<Longrightarrow> ring_step capacity mirror s
    (s\<lparr>pop_at := Pop_free (next_head (run_cons s) (length_at (run_cons s) (ring_data (shared s)))) got\<rparr>)"
| pop_free: "pop_at s = Pop_free h got \<Longrightarrow> ring_step capacity mirror s
    (s\<lparr>shared := (shared s)\<lparr>ring_head := h\<rparr>, run_cons := (run_cons s)\<lparr>head_pos := h\<rparr>, pop_at := Pop_idle,
       delivered := delivered s @ [got]\<rparr>)"
| pop_crash: "ring_step capacity mirror s (s\<lparr>pop_at := Pop_detached\<rparr>)"
| discard: "push_at s = Push_detached \<Longrightarrow> pop_at s \<in> {Pop_idle, Pop_detached} \<Longrightarrow> ring_step capacity mirror s
    (s\<lparr>shared := discard_unread (shared s), pop_at := Pop_detached, published := [], delivered := []\<rparr>)"
| rewind: "pop_at s = Pop_detached \<Longrightarrow> push_at s \<in> {Push_idle, Push_detached} \<Longrightarrow> ring_step capacity mirror s
    (s\<lparr>shared := rewind_unread (shared s), push_at := Push_detached, published := [], delivered := []\<rparr>)"

inductive ring_reachable :: "u64 \<Rightarrow> bool \<Rightarrow> ring_run \<Rightarrow> bool" for capacity mirror where
  start: "shared s = new_ring capacity \<Longrightarrow> push_at s = Push_detached \<Longrightarrow> pop_at s = Pop_detached \<Longrightarrow>
    published s = [] \<Longrightarrow> delivered s = [] \<Longrightarrow> ring_reachable capacity mirror s"
| step: "ring_reachable capacity mirror s \<Longrightarrow> ring_step capacity mirror s s' \<Longrightarrow> ring_reachable capacity mirror s'"

end
