(* ===== verification/Ring_Buffer_Correct.thy ===== *)
theory Ring_Buffer_Correct
  imports Ring_Buffer
begin

text \<open>
  Correctness of the shared-memory ring of \<open>Ring_Buffer\<close>. The counters are read as absolute byte positions
  (natural numbers), the memory between head and tail as a list of records and fillers (\<open>laid\<close>). The
  invariant \<open>ring_state\<close> says, for every point producer and consumer can be at, how their private fields
  relate to these positions; every step keeps it (\<open>ring_step_ok\<close>), which gives order and integrity in all
  interleavings. The section on progress runs the steps forward. Run without interference the
  operations are a queue of records in the sense of \<open>fifo_queue\<close> (interpretation \<open>records\<close>).
\<close>

section \<open>Counters and offsets\<close>

lemma unat_of_nat_small: "n < 2 ^ 64 \<Longrightarrow> unat (of_nat n :: u64) = n"
  by (simp add: unat_of_nat take_bit_nat_eq_self)

lemma capacity_word: "k < 64 \<Longrightarrow> (2 ^ k :: u64) = of_nat (2 ^ k)"
  by simp

lemma unat_capacity: "k < 64 \<Longrightarrow> unat (2 ^ k :: u64) = 2 ^ k"
  using unat_of_nat_small [of "2 ^ k"] power_strict_increasing [of k 64 "2 :: nat"] by simp

lemma offset_mod:
  assumes "k < 64"
  shows "unat (of_nat n AND (2 ^ k - 1) :: u64) = n mod 2 ^ k"
proof -
  have "(of_nat n AND (2 ^ k - 1) :: u64) = take_bit k (of_nat n)"
    by (simp add: take_bit_eq_mask mask_eq_exp_minus_1)
  also have "unat \<dots> = take_bit k (unat (of_nat n :: u64))"
    by (simp add: unsigned_take_bit_eq)
  also have "\<dots> = n mod 2 ^ k"
    using mod_mod_cancel [OF le_imp_power_dvd [of k 64 "2 :: nat"], of n] assms
    by (simp add: unat_of_nat take_bit_eq_mod)
  finally show ?thesis .
qed

definition pad64 :: "nat \<Rightarrow> nat" where
  "pad64 n = (n + 63) div 64 * 64"

lemma pad64_bounds: "n \<le> pad64 n" "pad64 n \<le> n + 63" "64 dvd pad64 n"
  unfolding pad64_def using div_mult_mod_eq [of "n + 63" 64] mod_less_divisor [of 64 "n + 63"] by (linarith | simp)+

lemma pad64_mono: "m \<le> n \<Longrightarrow> pad64 m \<le> pad64 n"
  by (simp add: pad64_def div_le_mono)

lemma pad64_multiple: "64 dvd n \<Longrightarrow> pad64 n = n"
  by (auto simp: pad64_def dvd_def)

lemma align_up_eq:
  assumes "n + 63 < 2 ^ 64"
  shows "align_up (of_nat n) kCacheLine = of_nat (pad64 n)"
proof -
  have u: "unat (of_nat (n + 63) :: u64) = n + 63" using assms by (rule unat_of_nat_small)
  have "(of_nat n + (kCacheLine - 1)) AND NOT (kCacheLine - 1) = of_nat (n + 63) AND NOT (mask 6 :: u64)"
    by (simp add: kCacheLine_def mask_eq_exp_minus_1 add.commute)
  also have "\<dots> = push_bit 6 (drop_bit 6 (of_nat (n + 63) :: u64))"
    by (rule bit_eqI) (auto simp: bit_and_iff bit_not_iff bit_mask_iff bit_push_bit_iff bit_drop_bit_eq not_less)
  also have "drop_bit 6 (of_nat (n + 63) :: u64) = of_nat ((n + 63) div 64)"
  proof (rule word_unat_eq_iff [THEN iffD2])
    have "(n + 63) div 64 < 2 ^ 64" using assms by (meson div_le_dividend le_less_trans)
    then show "unat (drop_bit 6 (of_nat (n + 63) :: u64)) = unat (of_nat ((n + 63) div 64) :: u64)"
      using u by (simp only: unat_drop_bit_eq unat_of_nat_small) (simp add: drop_bit_eq_div)
  qed
  also have "push_bit 6 (of_nat ((n + 63) div 64) :: u64) = of_nat (pad64 n)"
    by (simp add: push_bit_eq_mult pad64_def)
  finally show ?thesis by (simp add: align_up_def)
qed

section \<open>Records at absolute positions\<close>

text \<open>The counters count bytes since the start. \<open>ring_at d y\<close> is the byte at the absolute position \<open>y\<close>.\<close>

definition ring_at :: "string \<Rightarrow> nat \<Rightarrow> char" where
  "ring_at d y = d ! (y mod length d)"

definition span :: "string \<Rightarrow> nat \<Rightarrow> nat \<Rightarrow> string" where
  "span d y n = map (ring_at d) [y..<y + n]"

lemma length_span [simp]: "length (span d y n) = n"
  by (simp add: span_def)

lemma nth_span: "i < n \<Longrightarrow> span d y n ! i = ring_at d (y + i)"
  by (simp add: span_def)

lemma span_eqI: "length bs = n \<Longrightarrow> (\<And>i. i < n \<Longrightarrow> ring_at d (y + i) = bs ! i) \<Longrightarrow> span d y n = bs"
  by (rule nth_equalityI) (simp_all add: nth_span)

lemma span_cong: "(\<And>z. y \<le> z \<Longrightarrow> z < y + n \<Longrightarrow> ring_at d' z = ring_at d z) \<Longrightarrow> span d' y n = span d y n"
  by (simp add: span_def)

lemma span_substr:
  assumes "y mod length d + n \<le> length d" and "d \<noteq> []"
  shows "substr d (y mod length d) n = span d y n"
proof (rule nth_equalityI)
  show "length (substr d (y mod length d) n) = length (span d y n)" using assms by (simp add: length_substr)
  fix i assume "i < length (substr d (y mod length d) n)"
  then have i: "i < n" using assms(1) by (simp add: length_substr)
  have "(y + i) mod length d = (y mod length d + i) mod length d" by (simp add: mod_add_left_eq)
  also have "\<dots> = y mod length d + i" using i assms(1) by simp
  finally show "substr d (y mod length d) n ! i = span d y n ! i"
    using i assms by (simp add: nth_substr nth_span ring_at_def)
qed

lemma span_Suc: "span d y (Suc n) = ring_at d y # span d (Suc y) n"
  by (simp add: span_def upt_conv_Cons del: upt_Suc)

lemma span_take: "j \<le> n \<Longrightarrow> take j (span d y n) = span d y j"
  by (simp add: span_def take_map)

lemma residue_distinct: "H \<le> y \<Longrightarrow> y < z \<Longrightarrow> z < H + c \<Longrightarrow> y mod c \<noteq> z mod (c :: nat)"
proof
  assume a: "H \<le> y" "y < z" "z < H + c" "y mod c = z mod c"
  then have "c dvd z - y" by (metis less_imp_le mod_eq_dvd_iff_nat)
  moreover have "0 < z - y" "z - y < c" using a by auto
  ultimately show False by (auto dest: dvd_imp_le)
qed

datatype seg = Data string | Filler

fun seg_size :: "nat \<Rightarrow> nat \<Rightarrow> seg \<Rightarrow> nat" where
  "seg_size c p (Data v) = 64 + pad64 (length v)"
| "seg_size c p Filler = c - p mod c"

fun seg_stored :: "bool \<Rightarrow> string \<Rightarrow> nat \<Rightarrow> seg \<Rightarrow> bool" where
  "seg_stored m d p (Data v) \<longleftrightarrow> length v < 2 ^ 32 \<and> (m \<or> p mod length d + 64 + pad64 (length v) \<le> length d) \<and>
     span d p 8 = le_bytes 8 (length v) \<and> span d (p + 64) (length v) = v"
| "seg_stored m d p Filler \<longleftrightarrow> \<not> m \<and> span d p 8 = le_bytes 8 (2 ^ 32)"

fun laid :: "bool \<Rightarrow> string \<Rightarrow> nat \<Rightarrow> seg list \<Rightarrow> nat \<Rightarrow> bool" where
  "laid m d p [] q \<longleftrightarrow> p = q"
| "laid m d p (x # xs) q \<longleftrightarrow> seg_stored m d p x \<and> laid m d (p + seg_size (length d) p x) xs q"

fun payloads :: "seg list \<Rightarrow> string list" where
  "payloads [] = []"
| "payloads (Data v # xs) = v # payloads xs"
| "payloads (Filler # xs) = payloads xs"

lemma payloads_append [simp]: "payloads (xs @ ys) = payloads xs @ payloads ys"
  by (induction xs rule: payloads.induct) auto

lemma laid_append: "laid m d p (xs @ ys) q \<longleftrightarrow> (\<exists>r. laid m d p xs r \<and> laid m d r ys q)"
  by (induction xs arbitrary: p) auto

lemma laid_le: "laid m d p xs q \<Longrightarrow> p \<le> q"
  by (induction xs arbitrary: p) fastforce+

lemma seg_size_dvd:
  assumes "64 dvd c" "64 dvd p" "0 < c"
  shows "64 dvd seg_size c p x" "64 \<le> seg_size c p x"
proof -
  have m: "64 dvd c - p mod c" using assms by (simp add: dvd_diff_nat dvd_mod)
  moreover have "0 < c - p mod c" using assms by simp
  ultimately have f: "64 \<le> c - p mod c" by (rule dvd_imp_le)
  show "64 dvd seg_size c p x" using m pad64_bounds(3) by (cases x) auto
  show "64 \<le> seg_size c p x" using f by (cases x) auto
qed

lemma seg_stored_cong:
  assumes "length d' = length d" and "64 dvd length d" "64 dvd p" "0 < length d"
    and "\<And>y. p \<le> y \<Longrightarrow> y < p + seg_size (length d) p x \<Longrightarrow> ring_at d' y = ring_at d y"
  shows "seg_stored m d' p x \<longleftrightarrow> seg_stored m d p x"
proof -
  note s = seg_size_dvd(2) [OF assms(2-4), of x]
  have c: "span d' p 8 = span d p 8" using s by (intro span_cong assms(5)) auto
  show ?thesis
  proof (cases x)
    case (Data v)
    have "span d' (p + 64) (length v) = span d (p + 64) (length v)"
      using pad64_bounds(1) [of "length v"] Data by (intro span_cong assms(5)) auto
    with c Data assms(1) show ?thesis by simp
  next
    case Filler
    with c show ?thesis by simp
  qed
qed

lemma laid_cong:
  assumes "length d' = length d" and "64 dvd length d" "0 < length d"
  shows "64 dvd p \<Longrightarrow> laid m d p xs q \<Longrightarrow> (\<And>y. p \<le> y \<Longrightarrow> y < q \<Longrightarrow> ring_at d' y = ring_at d y) \<Longrightarrow> laid m d' p xs q"
proof (induction xs arbitrary: p)
  case (Cons x xs)
  let ?n = "seg_size (length d) p x"
  note s = seg_size_dvd [OF assms(2) Cons.prems(1) assms(3), of x]
  from Cons.prems(2) have l: "seg_stored m d p x" "laid m d (p + ?n) xs q" by auto
  note q = laid_le [OF l(2)]
  have "laid m d' (p + ?n) xs q" using s Cons.prems(1,3) l(2) by (intro Cons.IH) auto
  moreover have "seg_stored m d' p x"
    using seg_stored_cong [OF assms(1,2) Cons.prems(1) assms(3), of x m] Cons.prems(3) q l(1) by auto
  ultimately show ?case using assms(1) by simp
qed simp

lemma laid_dvd: "64 dvd length d \<Longrightarrow> 0 < length d \<Longrightarrow> 64 dvd p \<Longrightarrow> laid m d p xs q \<Longrightarrow> 64 dvd q"
proof (induction xs arbitrary: p)
  case (Cons x xs)
  from Cons.prems have "64 dvd p + seg_size (length d) p x" using seg_size_dvd(1) [of "length d" p x] by simp
  from Cons.IH [OF Cons.prems(1,2) this] Cons.prems(4) show ?case by simp
qed simp

section \<open>Stores\<close>

lemma length_poke [simp]: "length (poke m d ab) = length d"
  by (simp add: poke_def)

lemma length_foldl_poke [simp]: "length (foldl (poke m) d ss) = length d"
  by (induction ss arbitrary: d) auto

lemma bytes_at_simps [simp]:
  "bytes_at a [] = []" "bytes_at a (b # bs) = (a, b) # bytes_at (Suc a) bs"
  by (simp_all add: bytes_at_def upt_rec)

lemma ring_at_poke:
  assumes "phys m d (fst ab) = y mod length d" "0 < length d"
  shows "ring_at (poke m d ab) z = (if z mod length d = y mod length d then snd ab else ring_at d z)"
  using assms by (auto simp: ring_at_def poke_def nth_list_update)

definition in_map :: "bool \<Rightarrow> nat \<Rightarrow> nat \<Rightarrow> nat \<Rightarrow> bool" where
  "in_map m c a n \<longleftrightarrow> a + n \<le> (if m then 2 * c else c)"

lemma phys_mod: "in_map m (length d) a (Suc n) \<Longrightarrow> 0 < length d \<Longrightarrow> phys m d a = a mod length d"
  by (cases "a < length d") (auto simp: in_map_def phys_def le_mod_geq split: if_splits)

lemma in_map_Suc: "in_map m c a (Suc n) \<Longrightarrow> in_map m c (Suc a) n"
  by (simp add: in_map_def split: if_splits)

lemma store_bytes:
  assumes "in_map m (length d) a (length bs)" "a mod length d = y mod length d" "length bs \<le> length d" "0 < length d"
  shows "span (foldl (poke m) d (bytes_at a bs)) y (length bs) = bs"
    and "(\<And>i. i < length bs \<Longrightarrow> z mod length d \<noteq> (y + i) mod length d) \<Longrightarrow>
      ring_at (foldl (poke m) d (bytes_at a bs)) z = ring_at d z"
proof -
  have *: "ring_at (foldl (poke m) d (bytes_at a bs)) z = ring_at d z"
    if "in_map m (length d) a (length bs)" "a mod length d = y mod length d" "0 < length d"
      "\<And>i. i < length bs \<Longrightarrow> z mod length d \<noteq> (y + i) mod length d" for d a y z bs
    using that
  proof (induction bs arbitrary: d a y)
    case (Cons b bs)
    have p: "phys m d a = y mod length d" using phys_mod [of m d a "length bs"] Cons.prems by simp
    have "ring_at (foldl (poke m) (poke m d (a, b)) (bytes_at (Suc a) bs)) z = ring_at (poke m d (a, b)) z"
    proof (rule Cons.IH [of _ _ "Suc y"])
      show "in_map m (length (poke m d (a, b))) (Suc a) (length bs)" using in_map_Suc Cons.prems(1) by simp
      show "Suc a mod length (poke m d (a, b)) = Suc y mod length (poke m d (a, b))"
        using Cons.prems(2) by (metis length_poke mod_Suc_eq)
      show "\<And>i. i < length bs \<Longrightarrow> z mod length (poke m d (a, b)) \<noteq> (Suc y + i) mod length (poke m d (a, b))"
        using Cons.prems(4) [of "Suc _"] by simp
    qed (use Cons.prems(3) in simp)
    also have "\<dots> = ring_at d z" using ring_at_poke [of m d "(a, b)" y z] p Cons.prems(3) Cons.prems(4) [of 0] by simp
    finally show ?case by simp
  qed simp
  show "(\<And>i. i < length bs \<Longrightarrow> z mod length d \<noteq> (y + i) mod length d) \<Longrightarrow>
      ring_at (foldl (poke m) d (bytes_at a bs)) z = ring_at d z"
    using * assms(1,2,4) by blast
  show "span (foldl (poke m) d (bytes_at a bs)) y (length bs) = bs"
    using assms
  proof (induction bs arbitrary: d a y)
    case (Cons b bs)
    let ?d = "poke m d (a, b)"
    have p: "phys m d a = y mod length d" using phys_mod [of m d a "length bs"] Cons.prems by simp
    have m: "in_map m (length ?d) (Suc a) (length bs)" using in_map_Suc Cons.prems(1) by simp
    have s: "Suc a mod length ?d = Suc y mod length ?d" using Cons.prems(2) by (metis length_poke mod_Suc_eq)
    have "span (foldl (poke m) ?d (bytes_at (Suc a) bs)) (Suc y) (length bs) = bs"
      using Cons.prems(3,4) by (intro Cons.IH m s) auto
    moreover have "ring_at (foldl (poke m) ?d (bytes_at (Suc a) bs)) y = ring_at ?d y"
    proof (rule * [OF m s])
      fix i assume "i < length bs"
      then show "y mod length ?d \<noteq> (Suc y + i) mod length ?d"
        using residue_distinct [of y y "Suc y + i" "length d"] Cons.prems(3) by simp
    qed (use Cons.prems(4) in simp)
    moreover have "ring_at ?d y = b" using ring_at_poke [of m d "(a, b)" y y] p Cons.prems(4) by simp
    ultimately show ?case by (simp add: span_Suc)
  qed (simp add: span_def)
qed

lemma store_places:
  assumes "in_map m (length d) a (length bs)" "a mod length d = y mod length d" "0 < length d" "ab \<in> set (bytes_at a bs)"
  shows "\<exists>z. y \<le> z \<and> z < y + length bs \<and> phys m d (fst ab) = z mod length d"
proof -
  obtain i where i: "i < length bs" "fst ab = a + i" using assms(4) by (auto simp: bytes_at_def set_zip)
  have "in_map m (length d) (a + i) (Suc 0)" using assms(1) i(1) by (auto simp: in_map_def split: if_splits)
  then have "phys m d (fst ab) = (a + i) mod length d" using phys_mod assms(3) i(2) by simp
  also have "\<dots> = (y + i) mod length d" using assms(2) by (metis mod_add_left_eq)
  finally show ?thesis using i(1) by (intro exI [of _ "y + i"]) auto
qed

section \<open>Publishing a record\<close>

text \<open>The capacities considered: a power of two from a page up to 8 GiB. Above that the 32-bit length of a
  record is too narrow for the longest payload.\<close>

definition geometry :: "nat \<Rightarrow> bool" where
  "geometry k \<longleftrightarrow> 12 \<le> k \<and> k \<le> 33"

lemma geometryD:
  assumes "geometry k"
  shows "k < 64" "(4096 :: nat) \<le> 2 ^ k" "(2 :: nat) ^ k \<le> 2 ^ 33" "(64 :: nat) dvd 2 ^ k" "(128 :: nat) dvd 2 ^ k"
    "0 < (2 :: nat) ^ k"
proof -
  show "k < 64" using assms by (simp add: geometry_def)
  show "(4096 :: nat) \<le> 2 ^ k" using power_increasing [of 12 k "2 :: nat"] assms by (simp add: geometry_def)
  show "(2 :: nat) ^ k \<le> 2 ^ 33" using power_increasing [of k 33 "2 :: nat"] assms by (simp add: geometry_def)
  show "(64 :: nat) dvd 2 ^ k" using le_imp_power_dvd [of 6 k "2 :: nat"] assms by (simp add: geometry_def)
  show "(128 :: nat) dvd 2 ^ k" using le_imp_power_dvd [of 7 k "2 :: nat"] assms by (simp add: geometry_def)
qed simp

lemma small:
  assumes "geometry k" "n \<le> 2 ^ k"
  shows "unat (of_nat n :: u64) = n"
proof -
  have "n \<le> 2 ^ 33" using assms(2) geometryD(3) [OF assms(1)] by linarith
  then show ?thesis by (intro unat_of_nat_small) simp
qed

lemma unat_max_payload:
  assumes "geometry k"
  shows "unat ((2 ^ k :: u64) div 2 - kCacheLine) = 2 ^ k div 2 - 64"
proof -
  note g = geometryD [OF assms]
  have u: "unat ((2 ^ k :: u64) div 2) = 2 ^ k div 2" using unat_capacity [OF g(1)] by (simp add: unat_div)
  have "(64 :: u64) \<le> 2 ^ k div 2" using u g(2) by (simp add: word_le_nat_alt)
  then show ?thesis using u by (simp add: kCacheLine_def unat_sub)
qed

definition prod_ok :: "nat \<Rightarrow> bool \<Rightarrow> producer \<Rightarrow> bool" where
  "prod_ok k m p \<longleftrightarrow> prod_capacity p = 2 ^ k \<and> prod_mask p = 2 ^ k - 1 \<and> prod_mirror p = m \<and>
     max_payload p = 2 ^ k div 2 - kCacheLine"

definition wraps :: "nat \<Rightarrow> bool \<Rightarrow> nat \<Rightarrow> string \<Rightarrow> bool" where
  "wraps c m T v \<longleftrightarrow> \<not> m \<and> c - T mod c < 64 + pad64 (length v)"

definition need :: "nat \<Rightarrow> bool \<Rightarrow> nat \<Rightarrow> string \<Rightarrow> nat" where
  "need c m T v = (if wraps c m T v then c - T mod c else 0) + (64 + pad64 (length v))"

lemma padded_bound:
  assumes "geometry k" "length v \<le> 2 ^ k div 2 - 64"
  shows "64 + pad64 (length v) \<le> 2 ^ k div 2"
proof -
  note g = geometryD [OF assms(1)]
  obtain j where j: "(2 :: nat) ^ k = 128 * j" using g(5) by (auto simp: dvd_def)
  have "64 dvd (2 ^ k div 2 - 64 :: nat)" by (simp add: j dvd_diff_nat)
  then have "pad64 (2 ^ k div 2 - 64) = 2 ^ k div 2 - 64" by (rule pad64_multiple)
  with pad64_mono [OF assms(2)] g(2) show ?thesis by simp
qed

lemma need_bound:
  assumes "geometry k" "length v \<le> 2 ^ k div 2 - 64"
  shows "need (2 ^ k) m T v \<le> 2 ^ k"
  using padded_bound [OF assms] by (auto simp: need_def wraps_def)

lemma push_numbers:
  assumes g: "geometry k" and p: "prod_ok k m p" and t: "tail_pos p = of_nat T" and v: "length v \<le> 2 ^ k div 2 - 64"
  shows "push_padded v = of_nat (64 + pad64 (length v))" "to_end p = of_nat (2 ^ k - T mod 2 ^ k)"
    "push_wraps p v \<longleftrightarrow> wraps (2 ^ k) m T v" "push_need p v = of_nat (need (2 ^ k) m T v)"
    "push_next p v = of_nat (T + need (2 ^ k) m T v)"
proof -
  note gd = geometryD [OF g]
  note small = small [OF g]
  have l: "length v + 63 < 2 ^ 64" using v gd(3) by simp
  show pad: "push_padded v = of_nat (64 + pad64 (length v))"
    using align_up_eq [OF l] by (simp add: push_padded_def kCacheLine_def)
  have off: "(of_nat T AND (2 ^ k - 1) :: u64) = of_nat (T mod 2 ^ k)"
    using offset_mod [OF gd(1), of T] small [of "T mod 2 ^ k"] by (intro word_unat_eq_iff [THEN iffD2]) simp
  have "T mod 2 ^ k \<le> (2 :: nat) ^ k" by (simp add: less_imp_le)
  then show te: "to_end p = of_nat (2 ^ k - T mod 2 ^ k)"
    using p t off by (simp add: to_end_def prod_ok_def of_nat_diff)
  show w: "push_wraps p v \<longleftrightarrow> wraps (2 ^ k) m T v"
    using p padded_bound [OF g v] small [of "2 ^ k - T mod 2 ^ k"] small [of "64 + pad64 (length v)"]
    by (auto simp: push_wraps_def wraps_def pad te prod_ok_def word_less_nat_alt simp del: of_nat_add)
  show "push_need p v = of_nat (need (2 ^ k) m T v)"
    unfolding push_need_def w need_def pad te by simp
  show "push_next p v = of_nat (T + need (2 ^ k) m T v)"
    unfolding push_next_def w need_def pad te t by (simp add: add.assoc)
qed

lemma has_room_iff:
  assumes g: "geometry k" and p: "prod_ok k m p" and t: "tail_pos p = of_nat T" and v: "length v \<le> 2 ^ k div 2 - 64"
    and h: "cached_head p = of_nat Hc" "Hc \<le> T" "T \<le> Hc + 2 ^ k"
  shows "has_room p v \<longleftrightarrow> T + need (2 ^ k) m T v \<le> Hc + 2 ^ k"
proof -
  note gd = geometryD [OF g]
  note small = small [OF g]
  have "prod_capacity p - (tail_pos p - cached_head p) = of_nat (2 ^ k - (T - Hc))"
    using p t h by (simp add: prod_ok_def of_nat_diff)
  then show ?thesis
    using small [of "2 ^ k - (T - Hc)"] small [OF need_bound [OF g v, of m T]] h(2,3)
    unfolding has_room_def push_numbers(4) [OF g p t v] word_less_nat_alt by auto
qed

lemma ctrl_word: "n < 2 ^ 32 \<Longrightarrow> unat (take_bit 32 (of_nat n) OR push_bit 32 kFlagData :: u64) = n"
  by (simp add: kFlagData_def take_bit_of_nat take_bit_nat_eq_self unat_of_nat)

lemma wrap_word: "unat (push_bit 32 kFlagWrap) = 2 ^ 32"
  by (simp add: kFlagWrap_def push_bit_eq_mult)

text \<open>The two stores of a record at the position \<open>P\<close>.\<close>

definition data_stores :: "nat \<Rightarrow> string \<Rightarrow> (nat \<times> char) list" where
  "data_stores base v = bytes_at base (le_bytes 8 (length v)) @ bytes_at (base + 64) v"

lemma le_length_mod: "64 dvd c \<Longrightarrow> 64 dvd P \<Longrightarrow> 0 < c \<Longrightarrow> P mod c + 64 \<le> (c :: nat)"
  using seg_size_dvd(2) [of c P Filler] by simp

lemma data_maps:
  assumes "64 dvd c" "64 dvd P" "0 < c" "64 + pad64 n \<le> c" "m \<or> P mod c + 64 + pad64 n \<le> c"
  shows "in_map m c (P mod c) 8" "in_map m c (P mod c + 64) n"
proof -
  have "P mod c < c" using assms(3) by simp
  then show "in_map m c (P mod c) 8" "in_map m c (P mod c + 64) n"
    using le_length_mod [OF assms(1-3)] pad64_bounds(1) [of n] assms(4,5) by (auto simp: in_map_def)
qed

lemma store_data:
  assumes d: "64 dvd length d" "0 < length d" and P: "64 dvd P" and n: "64 + pad64 (length v) \<le> length d"
    and fit: "m \<or> P mod length d + 64 + pad64 (length v) \<le> length d" and v: "length v < 2 ^ 32"
  defines "d' \<equiv> foldl (poke m) d (data_stores (P mod length d) v)"
  shows "seg_stored m d' P (Data v)"
    and "(\<And>y. P \<le> y \<Longrightarrow> y < P + (64 + pad64 (length v)) \<Longrightarrow> z mod length d \<noteq> y mod length d) \<Longrightarrow> ring_at d' z = ring_at d z"
    and "ab \<in> set (data_stores (P mod length d) v) \<Longrightarrow>
      \<exists>y. P \<le> y \<and> y < P + (64 + pad64 (length v)) \<and> phys m d (fst ab) = y mod length d"
proof -
  let ?c = "length d" and ?ctrl = "le_bytes 8 (length v)"
  note maps = data_maps [OF d(1) P d(2) n fit]
  define d1 where "d1 = foldl (poke m) d (bytes_at (P mod ?c) ?ctrl)"
  have l1: "length d1 = ?c" by (simp add: d1_def)
  have d': "d' = foldl (poke m) d1 (bytes_at (P mod ?c + 64) v)" by (simp add: d'_def data_stores_def d1_def)
  have r2: "(P mod ?c + 64) mod ?c = (P + 64) mod ?c" by (simp add: mod_add_left_eq)
  note pb = pad64_bounds(1) [of "length v"]
  have c8: "length ?ctrl \<le> ?c" using n by simp
  have cv: "length v \<le> ?c" using n pb by simp
  have s1: "span d1 P 8 = ?ctrl"
    using store_bytes(1) [of m d "P mod ?c" ?ctrl P] maps(1) c8 d(2) by (simp add: d1_def)
  have s2: "span d' (P + 64) (length v) = v"
    using store_bytes(1) [of m d1 "P mod ?c + 64" v "P + 64"] maps(2) cv d(2) r2 l1 by (simp add: d')
  have k2: "ring_at d' z = ring_at d1 z" if "\<And>i. i < length v \<Longrightarrow> z mod ?c \<noteq> (P + 64 + i) mod ?c" for z
    using store_bytes(2) [of m d1 "P mod ?c + 64" v "P + 64" z] maps(2) cv d(2) r2 l1 that by (simp add: d')
  have "span d' P 8 = span d1 P 8"
  proof (rule span_cong, rule k2)
    fix z i assume "P \<le> z" "z < P + 8" "i < length v"
    then show "z mod ?c \<noteq> (P + 64 + i) mod ?c" using residue_distinct [of P z "P + 64 + i" ?c] n pb by simp
  qed
  moreover have "length d' = ?c" by (simp add: d' l1)
  ultimately show "seg_stored m d' P (Data v)" using s1 s2 v fit by simp
  show "ring_at d' z = ring_at d z"
    if z: "\<And>y. P \<le> y \<Longrightarrow> y < P + (64 + pad64 (length v)) \<Longrightarrow> z mod ?c \<noteq> y mod ?c"
  proof -
    have "ring_at d' z = ring_at d1 z" using z pb by (intro k2) simp
    also have "\<dots> = ring_at d z"
      using store_bytes(2) [of m d "P mod ?c" ?ctrl P z] maps(1) c8 d(2) z by (simp add: d1_def)
    finally show ?thesis .
  qed
  assume "ab \<in> set (data_stores (P mod ?c) v)"
  then consider "ab \<in> set (bytes_at (P mod ?c) ?ctrl)" | "ab \<in> set (bytes_at (P mod ?c + 64) v)"
    by (auto simp: data_stores_def)
  then show "\<exists>y. P \<le> y \<and> y < P + (64 + pad64 (length v)) \<and> phys m d (fst ab) = y mod ?c"
  proof cases
    case 1
    with store_places [of m d "P mod ?c" ?ctrl P ab] maps(1) d(2) obtain y
      where "P \<le> y" "y < P + 8" "phys m d (fst ab) = y mod ?c" by auto
    then show ?thesis by (intro exI [of _ y]) simp
  next
    case 2
    with store_places [of m d "P mod ?c + 64" v "P + 64" ab] maps(2) d(2) r2 obtain y
      where "P + 64 \<le> y" "y < P + 64 + length v" "phys m d (fst ab) = y mod ?c" by auto
    then show ?thesis using pb by (intro exI [of _ y]) simp
  qed
qed

definition new_segs :: "nat \<Rightarrow> bool \<Rightarrow> nat \<Rightarrow> string \<Rightarrow> seg list" where
  "new_segs c m T v = (if wraps c m T v then [Filler, Data v] else [Data v])"

lemma payloads_new_segs [simp]: "payloads (new_segs c m T v) = [v]"
  by (simp add: new_segs_def)

definition places :: "bool \<Rightarrow> string \<Rightarrow> nat \<Rightarrow> nat \<Rightarrow> (nat \<times> char) list \<Rightarrow> bool" where
  "places m d T N ss \<longleftrightarrow> (\<forall>ab \<in> set ss. \<exists>y. T \<le> y \<and> y < N \<and> phys m d (fst ab) = y mod length d)"

lemma push_stores_eq:
  assumes g: "geometry k" and p: "prod_ok k m p" and t: "tail_pos p = of_nat T" and v: "length v \<le> 2 ^ k div 2 - 64"
  shows "push_stores p v =
    (if wraps (2 ^ k) m T v
     then bytes_at (T mod 2 ^ k) (le_bytes 8 (2 ^ 32)) @ data_stores ((T + (2 ^ k - T mod 2 ^ k)) mod 2 ^ k) v
     else data_stores (T mod 2 ^ k) v)"
proof -
  note gd = geometryD [OF g] and pn = push_numbers [OF g p t v]
  have "length v < 2 ^ 32" using v gd(3) by simp
  note ctrl = ctrl_word [OF this]
  have off: "unat (of_nat x AND prod_mask p) = x mod 2 ^ k" for x
    using offset_mod [OF gd(1), of x] p by (simp add: prod_ok_def)
  have t2: "of_nat T + of_nat (2 ^ k - T mod 2 ^ k) = (of_nat (T + (2 ^ k - T mod 2 ^ k)) :: u64)"
    by (rule of_nat_add [symmetric])
  show ?thesis
    unfolding push_stores_def Let_def pn(3) pn(2) t wrap_word data_stores_def ctrl t2
    by (cases "wraps (2 ^ k) m T v") (simp_all only: if_True if_False off append_Nil)
qed

text \<open>The stores of a record behind a filler.\<close>

lemma wrapped_laid:
  assumes d: "64 dvd length d" "0 < length d" and T: "64 dvd T" and v: "length v < 2 ^ 32"
    and n: "length d - T mod length d + (64 + pad64 (length v)) \<le> length d"
  defines "P \<equiv> T + (length d - T mod length d)"
  defines "ss \<equiv> bytes_at (T mod length d) (le_bytes 8 (2 ^ 32)) @ data_stores (P mod length d) v"
  shows "laid False (foldl (poke False) d ss) T [Filler, Data v] (P + (64 + pad64 (length v)))" (is ?laid)
    and "places False d T (P + (64 + pad64 (length v))) ss" (is ?places)
proof -
  let ?c = "length d" and ?w = "le_bytes 8 (2 ^ 32) :: string"
  have lt: "T mod ?c < ?c" using d by simp
  have "P = T div ?c * ?c + ?c" using div_mult_mod_eq [of T ?c] lt unfolding P_def by linarith
  then have P0: "P mod ?c = 0" by simp
  then have dP: "64 dvd P" using d(1) by (meson dvd_trans mod_0_imp_dvd)
  have e: "64 \<le> ?c - T mod ?c" using le_length_mod [OF d(1) T d(2)] by simp
  define d1 where "d1 = foldl (poke False) d (bytes_at (T mod ?c) ?w)"
  have l1: "length d1 = ?c" by (simp add: d1_def)
  have map8: "in_map False ?c (T mod ?c) (length ?w)" using e by (simp add: in_map_def)
  note s = store_data [of d1 P v False, unfolded l1, OF d dP]
  let ?d = "foldl (poke False) d1 (data_stores (P mod ?c) v)"
  have "span ?d T 8 = span d1 T 8"
  proof (rule span_cong)
    fix z assume z: "T \<le> z" "z < T + 8"
    have "\<And>y. P \<le> y \<Longrightarrow> y < P + (64 + pad64 (length v)) \<Longrightarrow> z mod ?c \<noteq> y mod ?c"
      using residue_distinct [of T z _ ?c] z e n by (simp add: P_def)
    then show "ring_at ?d z = ring_at d1 z" using s(2) [of z] n P0 v by simp
  qed
  also have "span d1 T 8 = ?w" using store_bytes(1) [OF map8, of T] e d by (simp add: d1_def)
  finally show ?laid using s(1) n P0 v l1 by (simp add: ss_def d1_def P_def)
  show ?places
    unfolding places_def
  proof
    fix ab assume "ab \<in> set ss"
    then consider "ab \<in> set (bytes_at (T mod ?c) ?w)" | "ab \<in> set (data_stores (P mod ?c) v)" by (auto simp: ss_def)
    then show "\<exists>y. T \<le> y \<and> y < P + (64 + pad64 (length v)) \<and> phys False d (fst ab) = y mod ?c"
    proof cases
      case 1
      from store_places [OF map8, of T ab] 1 d(2) obtain y where "T \<le> y" "y < T + 8" "phys False d (fst ab) = y mod ?c" by auto
      then show ?thesis using e by (intro exI [of _ y]) (simp add: P_def)
    next
      case 2
      from s(3) [of ab] 2 n P0 v obtain y
        where "P \<le> y" "y < P + (64 + pad64 (length v))" "phys False d1 (fst ab) = y mod ?c" by auto
      then show ?thesis by (intro exI [of _ y]) (simp add: P_def phys_def)
    qed
  qed
qed

lemma push_laid:
  assumes g: "geometry k" and p: "prod_ok k m p" and t: "tail_pos p = of_nat T" and v: "length v \<le> 2 ^ k div 2 - 64"
    and d: "length d = 2 ^ k" and T: "64 dvd T"
  defines "N \<equiv> T + need (2 ^ k) m T v"
  shows "laid m (foldl (poke m) d (push_stores p v)) T (new_segs (2 ^ k) m T v) N \<and> places m d T N (push_stores p v)"
proof -
  note gd = geometryD [OF g] and ps = push_stores_eq [OF g p t v]
  have v32: "length v < 2 ^ 32" using v gd(3) by simp
  have n: "64 + pad64 (length v) \<le> length d" using padded_bound [OF g v] d by simp
  have ld: "64 dvd length d" "0 < length d" using gd d by simp_all
  show ?thesis
  proof (cases "wraps (2 ^ k) m T v")
    case False
    then have fit: "m \<or> T mod length d + 64 + pad64 (length v) \<le> length d"
      using d mod_less_divisor [OF gd(6), of T] by (auto simp: wraps_def)
    note s = store_data [OF ld T n fit v32]
    have N: "N = T + (64 + pad64 (length v))" using False by (simp add: N_def need_def)
    have "laid m (foldl (poke m) d (data_stores (T mod 2 ^ k) v)) T [Data v] N" using s(1) d by (simp add: N)
    moreover have "places m d T N (data_stores (T mod 2 ^ k) v)" using s(3) d by (simp add: places_def N)
    ultimately show ?thesis unfolding ps new_segs_def using False by simp
  next
    case True
    then have m: "m = False" by (simp add: wraps_def)
    have "length d - T mod length d + (64 + pad64 (length v)) \<le> length d"
      using need_bound [OF g v, of m T] True d by (simp add: need_def)
    note w = wrapped_laid [OF ld T v32 this]
    have N: "N = T + (length d - T mod length d) + (64 + pad64 (length v))"
      by (simp only: N_def need_def d True if_True add.assoc)
    have ps: "push_stores p v = bytes_at (T mod length d) (le_bytes 8 (2 ^ 32)) @
        data_stores ((T + (length d - T mod length d)) mod length d) v"
      by (simp only: ps True if_True d)
    show ?thesis using w(1,2) True unfolding ps N m new_segs_def by (simp only: m if_True simp_thms)
  qed
qed

section \<open>Reading a record\<close>

lemma le_bytes_add: "le_bytes (i + j) n = le_bytes i n @ le_bytes j (n div 256 ^ i)"
  by (induction i arbitrary: n) (simp_all add: div_mult2_eq)

definition con_at :: "nat \<Rightarrow> bool \<Rightarrow> nat \<Rightarrow> consumer \<Rightarrow> bool" where
  "con_at k m H c \<longleftrightarrow> con_capacity c = 2 ^ k \<and> con_mask c = 2 ^ k - 1 \<and> con_mirror c = m \<and> head_pos c = of_nat H"

lemma ctrl_bytes:
  assumes "geometry k" "length d = 2 ^ k" "64 dvd H" "span d H 8 = le_bytes 8 n"
  shows "substr d (H mod 2 ^ k) 4 = le_bytes 4 n" "substr d (H mod 2 ^ k + 4) 4 = le_bytes 4 (n div 2 ^ 32)"
proof -
  note g = geometryD [OF assms(1)]
  have "H mod 2 ^ k + 64 \<le> 2 ^ k" using le_length_mod [OF g(4) assms(3) g(6)] .
  moreover have "d \<noteq> []" using assms(2) g(6) by auto
  ultimately have s: "substr d (H mod 2 ^ k) 8 = le_bytes 4 n @ le_bytes 4 (n div 2 ^ 32)"
    using span_substr [of H d 8] assms(2,4) le_bytes_add [of 4 4 n] by simp
  have "substr d (H mod 2 ^ k) 4 = substr (substr d (H mod 2 ^ k) 8) 0 4" by (simp add: substr_substr)
  then show "substr d (H mod 2 ^ k) 4 = le_bytes 4 n" unfolding s by (simp add: substr_def)
  have "substr d (H mod 2 ^ k + 4) 4 = substr (substr d (H mod 2 ^ k) 8) 4 4" by (simp add: substr_substr)
  then show "substr d (H mod 2 ^ k + 4) 4 = le_bytes 4 (n div 2 ^ 32)" unfolding s by (simp add: substr_def)
qed

lemma read_flag:
  assumes g: "geometry k" and d: "length d = 2 ^ k" and H: "64 dvd H" and c: "con_at k m H c" and x: "seg_stored m d H x"
  shows "flag_at c d (head_pos c) = kFlagWrap \<longleftrightarrow> x = Filler"
proof -
  have o1: "unat (head_pos c AND con_mask c) = H mod 2 ^ k"
    using offset_mod [OF geometryD(1) [OF g], of H] c by (simp add: con_at_def)
  show ?thesis
  proof (cases x)
    case (Data v)
    with x ctrl_bytes(2) [OF g d H, of "length v"] have "substr d (H mod 2 ^ k + 4) 4 = le_bytes 4 0" by simp
    then show ?thesis using Data unfolding flag_at_def o1 ring_get_u32_def by (simp add: kFlagWrap_def)
  next
    case Filler
    with x ctrl_bytes(2) [OF g d H, of "2 ^ 32"] have "substr d (H mod 2 ^ k + 4) 4 = le_bytes 4 1" by simp
    then show ?thesis using Filler unfolding flag_at_def o1 ring_get_u32_def by (simp add: kFlagWrap_def)
  qed
qed

lemma skip_filler:
  assumes g: "geometry k" and c: "con_at k m H c"
  shows "head_pos c + (con_capacity c - (head_pos c AND con_mask c)) = of_nat (H + seg_size (2 ^ k) H Filler)"
proof -
  note gd = geometryD [OF g]
  have lt: "H mod 2 ^ k \<le> (2 :: nat) ^ k" by (simp add: less_imp_le)
  have "(of_nat H AND (2 ^ k - 1) :: u64) = of_nat (H mod 2 ^ k)"
    using offset_mod [OF gd(1), of H] small [OF g lt] by (intro word_unat_eq_iff [THEN iffD2]) simp
  then have "head_pos c + (con_capacity c - (head_pos c AND con_mask c)) = of_nat H + of_nat (2 ^ k - H mod 2 ^ k)"
    using c lt by (simp add: con_at_def of_nat_diff)
  then show ?thesis by (simp only: seg_size.simps of_nat_add)
qed

lemma read_data:
  assumes g: "geometry k" and d: "length d = 2 ^ k" and H: "64 dvd H" and c: "con_at k m H c"
    and x: "seg_stored m d H (Data v)" and l: "64 + pad64 (length v) \<le> 2 ^ k"
  shows "length_at c d = of_nat (length v)" "unat (length_at c d) = length v"
    and "i < length v \<Longrightarrow> view_byte c d (unat (head_pos c AND con_mask c) + 64 + i) = v ! i"
    and "next_head c (length_at c d) = of_nat (H + seg_size (2 ^ k) H (Data v))"
proof -
  note gd = geometryD [OF g] and pb = pad64_bounds(1) [of "length v"]
  have o1: "unat (head_pos c AND con_mask c) = H mod 2 ^ k"
    using offset_mod [OF gd(1), of H] c by (simp add: con_at_def)
  from x ctrl_bytes(1) [OF g d H, of "length v"] have "substr d (H mod 2 ^ k) 4 = le_bytes 4 (length v)" by simp
  then show len: "length_at c d = of_nat (length v)" using x unfolding length_at_def o1 ring_get_u32_def by simp
  show "unat (length_at c d) = length v" using small [OF g, of "length v"] pb l unfolding len by simp
  show "view_byte c d (unat (head_pos c AND con_mask c) + 64 + i) = v ! i" if "i < length v"
  proof -
    have "in_map m (length d) (H mod 2 ^ k + 64) (length v)" using data_maps(2) [OF gd(4) H gd(6) l, of m] x d by simp
    then have "in_map m (length d) (H mod 2 ^ k + 64 + i) (Suc 0)" using that by (auto simp: in_map_def split: if_splits)
    then have "phys m d (H mod 2 ^ k + 64 + i) = (H mod 2 ^ k + 64 + i) mod 2 ^ k" using phys_mod [of m d _ 0] d gd(6) by simp
    also have "\<dots> = (H + 64 + i) mod 2 ^ k" by (metis mod_add_left_eq)
    finally have "view_byte c d (H mod 2 ^ k + 64 + i) = span d (H + 64) (length v) ! i"
      using that c d by (simp add: view_byte_def con_at_def nth_span ring_at_def)
    with x o1 show ?thesis by simp
  qed
  have "length v \<le> 2 ^ 33" using l pb gd(3) by linarith
  then have "length v + 63 < 2 ^ 64" by simp
  from align_up_eq [OF this] c show "next_head c (length_at c d) = of_nat (H + seg_size (2 ^ k) H (Data v))"
    unfolding next_head_def len by (simp add: con_at_def kCacheLine_def add.assoc)
qed

section \<open>The invariant of the interleaving\<close>

definition prod_at :: "nat \<Rightarrow> bool \<Rightarrow> nat \<Rightarrow> nat \<Rightarrow> producer \<Rightarrow> bool" where
  "prod_at k m Hc T p \<longleftrightarrow> prod_ok k m p \<and> tail_pos p = of_nat T \<and> cached_head p = of_nat Hc"

definition short :: "nat \<Rightarrow> string \<Rightarrow> bool" where
  "short k v \<longleftrightarrow> length v \<le> 2 ^ k div 2 - 64"

fun push_inv :: "nat \<Rightarrow> bool \<Rightarrow> string \<Rightarrow> nat \<Rightarrow> nat \<Rightarrow> producer \<Rightarrow> push_pc \<Rightarrow> bool" where
  "push_inv k m d Hc T p Push_detached \<longleftrightarrow> True"
| "push_inv k m d Hc T p (Push_seed h) \<longleftrightarrow> h = of_nat Hc"
| "push_inv k m d Hc T p Push_idle \<longleftrightarrow> prod_at k m Hc T p"
| "push_inv k m d Hc T p (Push_reload v) \<longleftrightarrow> prod_at k m Hc T p \<and> short k v"
| "push_inv k m d Hc T p (Push_storing v ss n) \<longleftrightarrow> prod_at k m Hc T p \<and>
     (\<exists>news N. n = of_nat N \<and> T \<le> N \<and> N \<le> Hc + 2 ^ k \<and> payloads news = [v] \<and>
        laid m (foldl (poke m) d ss) T news N \<and> places m d T N ss)"

fun pop_inv :: "nat \<Rightarrow> bool \<Rightarrow> nat \<Rightarrow> seg list \<Rightarrow> consumer \<Rightarrow> pop_pc \<Rightarrow> bool" where
  "pop_inv k m H rs c Pop_detached \<longleftrightarrow> True"
| "pop_inv k m H rs c Pop_idle \<longleftrightarrow> con_at k m H c"
| "pop_inv k m H rs c Pop_flag \<longleftrightarrow> con_at k m H c \<and> rs \<noteq> []"
| "pop_inv k m H rs c (Pop_skip h) \<longleftrightarrow> con_at k m H c \<and> (\<exists>r. rs = Filler # r) \<and> h = of_nat (H + seg_size (2 ^ k) H Filler)"
| "pop_inv k m H rs c Pop_length \<longleftrightarrow> con_at k m H c \<and> (\<exists>v r. rs = Data v # r)"
| "pop_inv k m H rs c (Pop_view n got) \<longleftrightarrow> con_at k m H c \<and>
     (\<exists>v r. rs = Data v # r \<and> n = length v \<and> length got \<le> length v \<and> got = take (length got) v)"
| "pop_inv k m H rs c (Pop_free h got) \<longleftrightarrow> con_at k m H c \<and>
     (\<exists>r. rs = Data got # r) \<and> h = of_nat (H + seg_size (2 ^ k) H (Data got))"

definition ring_state :: "nat \<Rightarrow> bool \<Rightarrow> nat \<Rightarrow> nat \<Rightarrow> nat \<Rightarrow> seg list \<Rightarrow> ring_run \<Rightarrow> bool" where
  "ring_state k m Hc H T rs s \<longleftrightarrow>
     length (ring_data (shared s)) = 2 ^ k \<and> 64 dvd H \<and> ring_head (shared s) = of_nat H \<and> ring_tail (shared s) = of_nat T \<and>
     Hc \<le> H \<and> T \<le> Hc + 2 ^ k \<and> laid m (ring_data (shared s)) H rs T \<and>
     published s = delivered s @ payloads rs \<and>
     push_inv k m (ring_data (shared s)) Hc T (run_prod s) (push_at s) \<and> pop_inv k m H rs (run_cons s) (pop_at s)"

definition ring_ok :: "nat \<Rightarrow> bool \<Rightarrow> ring_run \<Rightarrow> bool" where
  "ring_ok k m s \<longleftrightarrow> (\<exists>Hc H T rs. ring_state k m Hc H T rs s)"

lemma ring_okI: "ring_state k m Hc H T rs s \<Longrightarrow> ring_ok k m s"
  by (auto simp: ring_ok_def)

lemma push_go_inv:
  assumes g: "geometry k" and p: "prod_at k m Hc T p" and h: "Hc \<le> T" "T \<le> Hc + 2 ^ k" and v: "short k v"
    and d: "length d = 2 ^ k" "64 dvd T" and pc: "push_inv k m d Hc T p pc"
  shows "push_inv k m d Hc T p (push_go p v pc)"
proof (cases "has_room p v")
  case True
  have ok: "prod_ok k m p" "tail_pos p = of_nat T" "cached_head p = of_nat Hc" "length v \<le> 2 ^ k div 2 - 64"
    using p v by (simp_all add: prod_at_def short_def)
  have "T + need (2 ^ k) m T v \<le> Hc + 2 ^ k"
    using has_room_iff [OF g ok(1,2,4,3) h] True by simp
  with push_laid [OF g ok(1,2,4) d] push_numbers(5) [OF g ok(1,2,4)] p True show ?thesis
    by (auto simp: push_go_def intro!: exI [of _ "new_segs (2 ^ k) m T v"] exI [of _ "T + need (2 ^ k) m T v"])
qed (use pc in \<open>simp add: push_go_def\<close>)

lemma pop_inv_append: "pop_inv k m H rs c pc \<Longrightarrow> pop_inv k m H (rs @ news) c pc"
  by (cases pc) auto

lemma laid_outside:
  assumes g: "geometry k" and d: "length d = 2 ^ k" "64 dvd H" and l: "laid m d H rs T"
    and w: "phys m d (fst ab) = y mod length d" "T \<le> y" "y < H + 2 ^ k"
  shows "laid m (poke m d ab) H rs T"
proof (rule laid_cong [OF _ _ _ d(2) l])
  note gd = geometryD [OF g]
  show "64 dvd length d" "0 < length d" using gd d by simp_all
  fix z assume "H \<le> z" "z < T"
  then show "ring_at (poke m d ab) z = ring_at d z"
    using ring_at_poke [OF w(1), of z] residue_distinct [of H z y "2 ^ k"] w(2,3) d(1) gd(6) by simp
qed simp

lemma phys_poke [simp]: "phys m (poke m' d ab) = phys m d"
  by (simp add: phys_def fun_eq_iff)

lemma step_store:
  assumes g: "geometry k" and s: "ring_state k m Hc H T rs s" and pc: "push_at s = Push_storing v (ab # ss) n"
  shows "ring_state k m Hc H T rs
    (s\<lparr>shared := (shared s)\<lparr>ring_data := poke (prod_mirror (run_prod s)) (ring_data (shared s)) ab\<rparr>,
       push_at := Push_storing v ss n\<rparr>)"
proof -
  let ?d = "ring_data (shared s)"
  from s pc obtain news N where n: "n = of_nat N" "T \<le> N" "N \<le> Hc + 2 ^ k" "payloads news = [v]"
    "laid m (foldl (poke m) ?d (ab # ss)) T news N" "places m ?d T N (ab # ss)"
    by (auto simp: ring_state_def)
  from n(6) obtain y where y: "T \<le> y" "y < N" "phys m ?d (fst ab) = y mod length ?d" by (auto simp: places_def)
  have m: "prod_mirror (run_prod s) = m" using s pc by (simp add: ring_state_def prod_at_def prod_ok_def)
  have "laid m (poke m ?d ab) H rs T"
    using laid_outside [OF g _ _ _ y(3,1), of H rs] s y(2) n(3) by (simp add: ring_state_def)
  moreover have "places m (poke m ?d ab) T N ss" using n(6) by (simp add: places_def)
  ultimately show ?thesis using s pc n m by (auto simp: ring_state_def)
qed

lemma step_publish:
  assumes s: "ring_state k m Hc H T rs s" and pc: "push_at s = Push_storing v [] n"
  shows "ring_ok k m (s\<lparr>shared := (shared s)\<lparr>ring_tail := n\<rparr>, run_prod := (run_prod s)\<lparr>tail_pos := n\<rparr>, push_at := Push_idle,
       published := published s @ [v]\<rparr>)"
proof -
  from s pc obtain news N where n: "n = of_nat N" "N \<le> Hc + 2 ^ k" "payloads news = [v]"
    "laid m (ring_data (shared s)) T news N" by (auto simp: ring_state_def)
  have "laid m (ring_data (shared s)) H (rs @ news) N" using s n(4) by (auto simp: laid_append ring_state_def)
  with s pc n show ?thesis
    by (intro ring_okI [of _ _ Hc H N "rs @ news"])
      (auto simp: ring_state_def pop_inv_append prod_at_def prod_ok_def)
qed

lemma head_advances:
  assumes g: "geometry k" and s: "ring_state k m Hc H T (x # r) s" and c: "con_at k m H (run_cons s)"
    and h: "h = of_nat (H + seg_size (2 ^ k) H x)" and out: "out = delivered s @ payloads [x]"
  shows "ring_state k m Hc (H + seg_size (2 ^ k) H x) T r
    (s\<lparr>shared := (shared s)\<lparr>ring_head := h\<rparr>, run_cons := (run_cons s)\<lparr>head_pos := h\<rparr>, pop_at := Pop_idle, delivered := out\<rparr>)"
proof -
  define H' where "H' = H + seg_size (2 ^ k) H x"
  have "64 dvd H'" using seg_size_dvd(1) [of "2 ^ k" H x] geometryD [OF g] s by (simp add: ring_state_def H'_def)
  moreover have "H \<le> H'" by (simp add: H'_def)
  moreover have "laid m (ring_data (shared s)) H' r T" using s by (auto simp: ring_state_def H'_def)
  moreover have "payloads (x # r) = payloads [x] @ payloads r" by (cases x) simp_all
  ultimately show ?thesis
    using s c unfolding h out H'_def [symmetric]
    by (auto simp: ring_state_def con_at_def)
qed

lemma step_push_start:
  assumes g: "geometry k" and s: "ring_state k m Hc H T rs s" and pc: "push_at s = Push_idle"
    and v: "length v \<le> unat (max_payload (run_prod s))"
  shows "ring_state k m Hc H T rs (s\<lparr>push_at := push_go (run_prod s) v (Push_reload v)\<rparr>)"
proof -
  note gd = geometryD [OF g]
  have p: "prod_at k m Hc T (run_prod s)" using s pc by (simp add: ring_state_def)
  then have v: "short k v" using v unat_max_payload [OF g] by (simp add: prod_at_def prod_ok_def short_def)
  have l: "H \<le> T" using s laid_le [of m "ring_data (shared s)" H rs T] by (simp add: ring_state_def)
  have T: "64 dvd T" using s laid_dvd [of "ring_data (shared s)" H m rs T] gd by (simp add: ring_state_def)
  have "push_inv k m (ring_data (shared s)) Hc T (run_prod s) (push_go (run_prod s) v (Push_reload v))"
    using s l T p v by (intro push_go_inv [OF g p]) (auto simp: ring_state_def)
  then show ?thesis using s by (simp add: ring_state_def)
qed

lemma step_push_reload:
  assumes g: "geometry k" and s: "ring_state k m Hc H T rs s" and pc: "push_at s = Push_reload v"
    and p': "p = (run_prod s)\<lparr>cached_head := ring_head (shared s)\<rparr>"
  shows "ring_state k m H H T rs (s\<lparr>run_prod := p, push_at := push_go p v Push_idle\<rparr>)"
proof -
  note gd = geometryD [OF g]
  have v: "short k v" and p: "prod_at k m H T p" using s pc p' by (auto simp: ring_state_def prod_at_def prod_ok_def)
  have l: "H \<le> T" using s laid_le [of m "ring_data (shared s)" H rs T] by (simp add: ring_state_def)
  have T: "64 dvd T" using s laid_dvd [of "ring_data (shared s)" H m rs T] gd by (simp add: ring_state_def)
  have "push_inv k m (ring_data (shared s)) H T p (push_go p v Push_idle)"
    using s l T p v by (intro push_go_inv [OF g p]) (auto simp: ring_state_def)
  then show ?thesis using s by (simp add: ring_state_def)
qed

lemma seg_bound:
  assumes "ring_state k m Hc H T (Data v # r) s"
  shows "64 + pad64 (length v) \<le> 2 ^ k" "seg_stored m (ring_data (shared s)) H (Data v)"
proof -
  from assms have "laid m (ring_data (shared s)) (H + (64 + pad64 (length v))) r T" by (simp add: ring_state_def)
  from laid_le [OF this] assms show "64 + pad64 (length v) \<le> 2 ^ k" by (simp add: ring_state_def)
  from assms show "seg_stored m (ring_data (shared s)) H (Data v)" by (auto simp: ring_state_def)
qed

lemma record_read:
  assumes "geometry k" "ring_state k m Hc H T (Data v # r) s" "con_at k m H (run_cons s)"
  shows "unat (length_at (run_cons s) (ring_data (shared s))) = length v"
    and "i < length v \<Longrightarrow> view_byte (run_cons s) (ring_data (shared s))
      (unat (head_pos (run_cons s) AND con_mask (run_cons s)) + 64 + i) = v ! i"
    and "next_head (run_cons s) (length_at (run_cons s) (ring_data (shared s))) = of_nat (H + seg_size (2 ^ k) H (Data v))"
proof -
  have "length (ring_data (shared s)) = 2 ^ k" "64 dvd H" using assms(2) by (simp_all add: ring_state_def)
  note r = read_data [OF assms(1) this assms(3) seg_bound(2,1) [OF assms(2)]]
  show "unat (length_at (run_cons s) (ring_data (shared s))) = length v" by (rule r(2))
  show "next_head (run_cons s) (length_at (run_cons s) (ring_data (shared s))) = of_nat (H + seg_size (2 ^ k) H (Data v))"
    by (rule r(4))
  assume "i < length v"
  then show "view_byte (run_cons s) (ring_data (shared s)) (unat (head_pos (run_cons s) AND con_mask (run_cons s)) + 64 + i) = v ! i"
    by (rule r(3))
qed

lemma pop_moves:
  assumes "ring_state k m Hc H T rs s" "pop_inv k m H rs (run_cons s) pc"
  shows "ring_state k m Hc H T rs (s\<lparr>pop_at := pc\<rparr>)"
  using assms by (simp add: ring_state_def)

lemma step_pop_poll:
  assumes s: "ring_state k m Hc H T rs s" and pc: "pop_at s = Pop_idle"
  shows "pop_inv k m H rs (run_cons s) (if head_pos (run_cons s) = ring_tail (shared s) then Pop_idle
                 else if con_mirror (run_cons s) then Pop_length else Pop_flag)"
proof -
  have c: "con_at k m H (run_cons s)" using s pc by (simp add: ring_state_def)
  have "rs \<noteq> []" if "head_pos (run_cons s) \<noteq> ring_tail (shared s)"
    using s c that by (auto simp: ring_state_def con_at_def)
  moreover have "\<exists>v r. rs = Data v # r" if "rs \<noteq> []" m
  proof (cases rs)
    case (Cons x r)
    with s that(2) show ?thesis by (cases x) (auto simp: ring_state_def)
  qed (use that in simp)
  ultimately show ?thesis using c by (auto simp: con_at_def)
qed

lemma step_pop_flag:
  assumes g: "geometry k" and s: "ring_state k m Hc H T rs s" and pc: "pop_at s = Pop_flag" and h: "h = head_pos (run_cons s)"
  shows "pop_inv k m H rs (run_cons s) (if flag_at (run_cons s) (ring_data (shared s)) h = kFlagWrap
      then Pop_skip (h + (con_capacity (run_cons s) - (h AND con_mask (run_cons s)))) else Pop_length)"
proof -
  from s pc obtain x r where c: "con_at k m H (run_cons s)" and rs: "rs = x # r" by (cases rs) (auto simp: ring_state_def)
  have "seg_stored m (ring_data (shared s)) H x" "length (ring_data (shared s)) = 2 ^ k" "64 dvd H"
    using s rs by (simp_all add: ring_state_def)
  note f = read_flag [OF g this(2,3) c this(1)]
  show ?thesis unfolding h f skip_filler [OF g c] using c rs by (cases x) simp_all
qed

lemma ring_step_ok:
  assumes g: "geometry k" and i: "ring_ok k m s" and st: "ring_step (2 ^ k) m s s'"
  shows "ring_ok k m s'"
proof -
  from i obtain Hc H T rs where s: "ring_state k m Hc H T rs s" by (auto simp: ring_ok_def)
  note gd = geometryD [OF g]
  have T: "64 dvd T" using s laid_dvd [of "ring_data (shared s)" H m rs T] gd by (simp add: ring_state_def)
  have HT: "H \<le> T" using s laid_le [of m "ring_data (shared s)" H rs T] by (simp add: ring_state_def)
  from st show ?thesis
  proof cases
    case push_seed
    with s show ?thesis by (intro ring_okI [of _ _ H H T rs]) (auto simp: ring_state_def)
  next
    case (push_attach h)
    with s show ?thesis
      by (intro ring_okI [of _ _ Hc H T rs]) (auto simp: ring_state_def new_producer_def prod_at_def prod_ok_def)
  next
    case (push_start v)
    with step_push_start [OF g s] show ?thesis by (auto intro: ring_okI)
  next
    case (push_reload v p)
    with step_push_reload [OF g s] show ?thesis by (auto intro: ring_okI)
  next
    case (push_store v ab ss n)
    with step_store [OF g s] show ?thesis by (auto intro: ring_okI)
  next
    case (push_publish v n)
    with step_publish [OF s] show ?thesis by simp
  next
    case push_crash
    with s show ?thesis by (intro ring_okI [of _ _ Hc H T rs]) (auto simp: ring_state_def)
  next
    case pop_attach
    with s show ?thesis by (intro ring_okI [of _ _ Hc H T rs]) (auto simp: ring_state_def new_consumer_def con_at_def)
  next
    case pop_poll
    then show ?thesis using ring_okI [OF pop_moves [OF s step_pop_poll [OF s pop_poll(2)]]] by (simp only:)
  next
    case (pop_flag h)
    then show ?thesis using ring_okI [OF pop_moves [OF s step_pop_flag [OF g s pop_flag(2,3)]]] by (simp only:)
  next
    case (pop_skip h)
    then obtain r where "rs = Filler # r" "con_at k m H (run_cons s)" "h = of_nat (H + seg_size (2 ^ k) H Filler)"
      using s by (auto simp: ring_state_def)
    with ring_okI [OF head_advances [OF g, of m Hc H T Filler r s h "delivered s"]] s pop_skip show ?thesis by simp
  next
    case pop_length
    then obtain v r where r: "rs = Data v # r" "con_at k m H (run_cons s)" using s by (auto simp: ring_state_def)
    with record_read(1) [OF g] s pop_length show ?thesis by (auto intro!: ring_okI [OF pop_moves [OF s]])
  next
    case (pop_copy n got)
    then obtain v r where r: "rs = Data v # r" "con_at k m H (run_cons s)" "n = length v" "got = take (length got) v"
      using s by (auto simp: ring_state_def)
    with record_read(2) [OF g, of m Hc H T v r s "length got"] s pop_copy
    show ?thesis by (auto intro!: ring_okI [OF pop_moves [OF s]] simp: take_Suc_conv_app_nth)
  next
    case (pop_again n got)
    then obtain v r where "rs = Data v # r" "con_at k m H (run_cons s)" "got = v" using s by (auto simp: ring_state_def)
    with record_read(3) [OF g] s pop_again show ?thesis by (auto intro!: ring_okI [OF pop_moves [OF s]])
  next
    case (pop_free h got)
    then obtain r where "rs = Data got # r" "con_at k m H (run_cons s)" "h = of_nat (H + seg_size (2 ^ k) H (Data got))"
      using s by (auto simp: ring_state_def)
    with ring_okI [OF head_advances [OF g, of m Hc H T "Data got" r s h "delivered s @ [got]"]] s pop_free show ?thesis by simp
  next
    case pop_crash
    with s show ?thesis by (intro ring_okI [of _ _ Hc H T rs]) (auto simp: ring_state_def)
  next
    case discard
    with s T show ?thesis by (intro ring_okI [of _ _ T T T "[]"]) (auto simp: ring_state_def discard_unread_def)
  next
    case rewind
    with s show ?thesis by (intro ring_okI [of _ _ H H H "[]"]) (auto simp: ring_state_def rewind_unread_def)
  qed
qed

lemma ring_reachable_ok:
  assumes "geometry k" "ring_reachable (2 ^ k) m s"
  shows "ring_ok k m s"
  using assms(2)
proof (induction rule: ring_reachable.induct)
  case (start s)
  then show ?case using unat_capacity [OF geometryD(1) [OF assms(1)]]
    by (intro ring_okI [of _ _ 0 0 0 "[]"]) (auto simp: ring_state_def new_ring_def)
qed (rule ring_step_ok [OF assms(1)])

section \<open>Progress\<close>

definition steps_to :: "nat \<Rightarrow> bool \<Rightarrow> ring_run \<Rightarrow> ring_run \<Rightarrow> bool" where
  "steps_to k m = (ring_step (2 ^ k) m)\<^sup>*\<^sup>*"

lemma steps_refl: "steps_to k m s s"
  by (simp add: steps_to_def)

lemma steps_one: "ring_step (2 ^ k) m s s' \<Longrightarrow> steps_to k m s' s'' \<Longrightarrow> steps_to k m s s''"
  unfolding steps_to_def by (rule converse_rtranclp_into_rtranclp)

lemma steps_trans: "steps_to k m s s' \<Longrightarrow> steps_to k m s' s'' \<Longrightarrow> steps_to k m s s''"
  unfolding steps_to_def by (rule rtranclp_trans)

lemma steps_ok: "geometry k \<Longrightarrow> ring_ok k m s \<Longrightarrow> steps_to k m s s' \<Longrightarrow> ring_ok k m s'"
  unfolding steps_to_def by (erule rtranclp_induct) (auto intro: ring_step_ok)

lemma steps_reachable: "steps_to k m s s' \<Longrightarrow> ring_reachable (2 ^ k) m s \<Longrightarrow> ring_reachable (2 ^ k) m s'"
  unfolding steps_to_def by (erule rtranclp_induct) (auto intro: ring_reachable.step)

text \<open>\<open>takes k m Hc H T rs s s'\<close>: from \<open>s\<close> the consumer gets to \<open>s'\<close>, between two calls, with \<open>rs\<close> left from \<open>H\<close> on, and
  nothing of the producer is touched.\<close>

definition takes :: "nat \<Rightarrow> bool \<Rightarrow> nat \<Rightarrow> nat \<Rightarrow> nat \<Rightarrow> seg list \<Rightarrow> ring_run \<Rightarrow> ring_run \<Rightarrow> bool" where
  "takes k m Hc H T rs s s' \<longleftrightarrow> steps_to k m s s' \<and> ring_state k m Hc H T rs s' \<and> pop_at s' = Pop_idle \<and>
     push_at s' = push_at s \<and> run_prod s' = run_prod s \<and> published s' = published s"

lemma takes_step:
  assumes "ring_step (2 ^ k) m s s1" "push_at s1 = push_at s" "run_prod s1 = run_prod s" "published s1 = published s"
    "\<exists>s'. takes k m Hc H T rs s1 s'"
  shows "\<exists>s'. takes k m Hc H T rs s s'"
  using assms steps_one [OF assms(1)] by (auto simp: takes_def)

lemma take_free:
  assumes g: "geometry k" and s: "ring_state k m Hc H T (x # r) s" and pc: "pop_at s = Pop_free h got"
  shows "\<exists>s'. takes k m Hc (H + seg_size (2 ^ k) H x) T r s s'"
proof (rule takes_step [OF ring_step.pop_free [OF pc]])
  from s pc have x: "x = Data got" "con_at k m H (run_cons s)" "h = of_nat (H + seg_size (2 ^ k) H x)"
    by (auto simp: ring_state_def)
  from head_advances [OF g s x(2,3), of "delivered s @ [got]"] x(1)
  show "\<exists>s'. takes k m Hc (H + seg_size (2 ^ k) H x) T r (s\<lparr>shared := (shared s)\<lparr>ring_head := h\<rparr>,
      run_cons := (run_cons s)\<lparr>head_pos := h\<rparr>, pop_at := Pop_idle, delivered := delivered s @ [got]\<rparr>) s'"
    by (intro exI) (auto simp: takes_def intro!: steps_refl)
qed simp_all

lemma take_skip:
  assumes g: "geometry k" and s: "ring_state k m Hc H T (x # r) s" and pc: "pop_at s = Pop_skip h"
  shows "\<exists>s'. takes k m Hc (H + seg_size (2 ^ k) H x) T r s s'"
proof (rule takes_step [OF ring_step.pop_skip [OF pc]])
  from s pc have x: "x = Filler" "con_at k m H (run_cons s)" "h = of_nat (H + seg_size (2 ^ k) H x)"
    by (auto simp: ring_state_def)
  from head_advances [OF g s x(2,3), of "delivered s"] x(1)
  show "\<exists>s'. takes k m Hc (H + seg_size (2 ^ k) H x) T r (s\<lparr>shared := (shared s)\<lparr>ring_head := h\<rparr>,
      run_cons := (run_cons s)\<lparr>head_pos := h\<rparr>, pop_at := Pop_idle\<rparr>) s'"
    by (intro exI) (auto simp: takes_def intro!: steps_refl)
qed simp_all

lemma take_view:
  assumes g: "geometry k"
  shows "ring_state k m Hc H T (x # r) s \<Longrightarrow> pop_at s = Pop_view n got \<Longrightarrow>
    \<exists>s'. takes k m Hc (H + seg_size (2 ^ k) H x) T r s s'"
proof (induction "n - length got" arbitrary: s got)
  case 0
  from 0 have x: "x = Data got" "con_at k m H (run_cons s)" "length got = n" by (auto simp: ring_state_def)
  let ?h = "next_head (run_cons s) (length_at (run_cons s) (ring_data (shared s)))"
  have "?h = of_nat (H + seg_size (2 ^ k) H (Data got))" using record_read(3) [OF g] 0(2) x by simp
  then have "ring_state k m Hc H T (x # r) (s\<lparr>pop_at := Pop_free ?h got\<rparr>)" using x by (intro pop_moves [OF 0(2)]) simp
  then show ?case by (intro takes_step [OF ring_step.pop_again [OF 0(3) x(3)]] take_free [OF g]) simp_all
next
  case (Suc j)
  from Suc.prems obtain v where x: "x = Data v" "con_at k m H (run_cons s)" "n = length v" "got = take (length got) v"
    by (auto simp: ring_state_def)
  have lt: "length got < n" using Suc.hyps(2) by simp
  let ?b = "view_byte (run_cons s) (ring_data (shared s)) (unat (head_pos (run_cons s) AND con_mask (run_cons s)) + 64 + length got)"
  have b: "?b = v ! length got" using record_read(2) [OF g] Suc.prems(1) x lt by simp
  have "ring_state k m Hc H T (x # r) (s\<lparr>pop_at := Pop_view n (got @ [?b])\<rparr>)"
    unfolding b using x lt by (intro pop_moves [OF Suc.prems(1)]) (auto simp: take_Suc_conv_app_nth)
  then show ?case
    using Suc.hyps(2) by (intro takes_step [OF ring_step.pop_copy [OF Suc.prems(2) lt]] Suc.hyps(1)) auto
qed

lemma take_length:
  assumes g: "geometry k" and s: "ring_state k m Hc H T (x # r) s" and pc: "pop_at s = Pop_length"
  shows "\<exists>s'. takes k m Hc (H + seg_size (2 ^ k) H x) T r s s'"
proof -
  from s pc obtain v where x: "x = Data v" "con_at k m H (run_cons s)" by (auto simp: ring_state_def)
  with record_read(1) [OF g] s pop_moves [OF s]
  have "ring_state k m Hc H T (x # r) (s\<lparr>pop_at := Pop_view (unat (length_at (run_cons s) (ring_data (shared s)))) []\<rparr>)" by simp
  then show ?thesis by (intro takes_step [OF ring_step.pop_length [OF pc]] take_view [OF g]) simp_all
qed

lemma take_flag:
  assumes g: "geometry k" and s: "ring_state k m Hc H T (x # r) s" and pc: "pop_at s = Pop_flag"
  shows "\<exists>s'. takes k m Hc (H + seg_size (2 ^ k) H x) T r s s'"
  by (rule takes_step [OF ring_step.pop_flag [OF pc refl]])
    (use take_skip [OF g pop_moves [OF s step_pop_flag [OF g s pc refl]]]
      take_length [OF g pop_moves [OF s step_pop_flag [OF g s pc refl]]] in \<open>auto split: if_splits\<close>)

lemma counters_differ:
  assumes "geometry k" "ring_state k m Hc H T (x # r) s"
  shows "ring_head (shared s) \<noteq> ring_tail (shared s)"
proof
  note gd = geometryD [OF assms(1)]
  assume "ring_head (shared s) = ring_tail (shared s)"
  then have e: "(of_nat T :: u64) = of_nat H" using assms(2) by (auto simp: ring_state_def)
  have l: "laid m (ring_data (shared s)) (H + seg_size (2 ^ k) H x) r T" "64 dvd H" "T \<le> H + 2 ^ k"
    using assms(2) by (auto simp: ring_state_def)
  from laid_le [OF l(1)] seg_size_dvd(2) [OF gd(4) l(2) gd(6), of x] have lt: "H < T" by simp
  have "(of_nat (T - H) :: u64) = 0" using e lt by (simp add: of_nat_diff)
  moreover have "unat (of_nat (T - H) :: u64) = T - H" using l(3) by (intro small [OF assms(1)]) simp
  ultimately show False using lt by simp
qed

lemma take_next:
  assumes g: "geometry k" and s: "ring_state k m Hc H T (x # r) s" and pc: "pop_at s \<noteq> Pop_detached"
  shows "\<exists>s'. takes k m Hc (H + seg_size (2 ^ k) H x) T r s s'"
proof (cases "pop_at s")
  case Pop_idle
  then have "head_pos (run_cons s) \<noteq> ring_tail (shared s)"
    using counters_differ [OF g s] s by (simp add: ring_state_def con_at_def)
  then show ?thesis
    using take_length [OF g pop_moves [OF s step_pop_poll [OF s Pop_idle]]]
      take_flag [OF g pop_moves [OF s step_pop_poll [OF s Pop_idle]]]
    by (intro takes_step [OF ring_step.pop_poll [OF Pop_idle]]) (auto split: if_splits)
qed (use pc take_flag [OF g s] take_skip [OF g s] take_length [OF g s] take_view [OF g s] take_free [OF g s] in simp_all)

lemma take_all:
  assumes g: "geometry k"
  shows "ring_state k m Hc H T rs s \<Longrightarrow> pop_at s \<noteq> Pop_detached \<Longrightarrow> \<exists>s'. takes k m Hc T T [] s s'"
proof (induction rs arbitrary: H s)
  case Nil
  then have "H = T" "pop_at s = Pop_idle" by (cases "pop_at s"; auto simp: ring_state_def)+
  with Nil show ?case by (intro exI [of _ s]) (simp add: takes_def steps_refl)
next
  case (Cons x r)
  from take_next [OF g Cons.prems] obtain s1 where s1: "takes k m Hc (H + seg_size (2 ^ k) H x) T r s s1" by blast
  then have "ring_state k m Hc (H + seg_size (2 ^ k) H x) T r s1" "pop_at s1 \<noteq> Pop_detached" by (simp_all add: takes_def)
  from Cons.IH [OF this] s1 steps_trans show ?case by (fastforce simp: takes_def)
qed

lemma consumer_drains:
  assumes g: "geometry k" and s: "ring_state k m Hc H T rs s"
  shows "\<exists>s'. takes k m Hc T T [] s s'"
proof (cases "pop_at s = Pop_detached")
  case True
  let ?s = "s\<lparr>run_cons := new_consumer (2 ^ k) m (shared s), pop_at := Pop_idle\<rparr>"
  have "ring_state k m Hc H T rs ?s" using s by (auto simp: ring_state_def new_consumer_def con_at_def)
  then show ?thesis by (intro takes_step [OF ring_step.pop_attach [OF True]] take_all [OF g]) simp_all
qed (rule take_all [OF g s])

text \<open>\<open>settles s vs s'\<close>: the producer gets between two calls, publishing \<open>vs\<close> on the way.\<close>

definition settles :: "nat \<Rightarrow> bool \<Rightarrow> ring_run \<Rightarrow> string list \<Rightarrow> ring_run \<Rightarrow> bool" where
  "settles k m s vs s' \<longleftrightarrow> steps_to k m s s' \<and> push_at s' = Push_idle \<and> published s' = published s @ vs"

lemma settles_step:
  "ring_step (2 ^ k) m s s1 \<Longrightarrow> published s1 = published s \<Longrightarrow> \<exists>s'. settles k m s1 vs s' \<Longrightarrow> \<exists>s'. settles k m s vs s'"
  using steps_one [of k m s s1] by (auto simp: settles_def)

lemma settle_idle: "push_at s = Push_idle \<Longrightarrow> \<exists>s'. settles k m s [] s'"
  by (intro exI [of _ s]) (simp add: settles_def steps_refl)

lemma settle_storing: "push_at s = Push_storing v ss n \<Longrightarrow> \<exists>s'. settles k m s [v] s'"
proof (induction ss arbitrary: s)
  case Nil
  show ?case
    by (rule exI, unfold settles_def, rule conjI, rule steps_one [OF ring_step.push_publish [OF Nil] steps_refl]) simp
next
  case (Cons ab ss)
  show ?case by (rule settles_step [OF ring_step.push_store [OF Cons.prems] _ Cons.IH]) simp_all
qed

lemma producer_settles: "\<exists>vs s'. settles k m s vs s' \<and> length vs \<le> 1"
proof -
  have one: "(\<exists>s'. settles k m s [] s') \<or> (\<exists>v s'. settles k m s [v] s') \<Longrightarrow> ?thesis" by force
  show ?thesis
  proof (rule one, cases "push_at s")
    case Push_detached
    let ?s = "s\<lparr>push_at := Push_seed (ring_head (shared s))\<rparr>"
    have "push_at ?s = Push_seed (ring_head (shared s))" by simp
    from settles_step [OF ring_step.push_attach [OF this] _ settle_idle] have "\<exists>s'. settles k m ?s [] s'" by simp
    from settles_step [OF ring_step.push_seed [OF Push_detached] _ this]
    show "(\<exists>s'. settles k m s [] s') \<or> (\<exists>v s'. settles k m s [v] s')" by simp
  next
    case (Push_seed h)
    show "(\<exists>s'. settles k m s [] s') \<or> (\<exists>v s'. settles k m s [v] s')"
      by (rule disjI1, rule settles_step [OF ring_step.push_attach [OF Push_seed] _ settle_idle]) simp_all
  next
    case (Push_reload v)
    let ?p = "(run_prod s)\<lparr>cached_head := ring_head (shared s)\<rparr>"
    let ?s = "s\<lparr>run_prod := ?p, push_at := push_go ?p v Push_idle\<rparr>"
    have "push_at ?s = Push_idle \<or> (\<exists>ss n. push_at ?s = Push_storing v ss n)" by (simp add: push_go_def)
    then have "(\<exists>s'. settles k m ?s [] s') \<or> (\<exists>v s'. settles k m ?s [v] s')"
      using settle_idle [of ?s] settle_storing [of ?s] by blast
    then show "(\<exists>s'. settles k m s [] s') \<or> (\<exists>v s'. settles k m s [v] s')"
      using settles_step [OF ring_step.push_reload [OF Push_reload refl]] by fastforce
  qed (use settle_idle [of s] settle_storing [of s] in blast)+
qed

text \<open>With the ring drained a push goes through, at the latest when it has loaded the head again.\<close>

lemma push_drained:
  assumes g: "geometry k" and s: "ring_state k m Hc T T [] s" and pc: "push_at s = Push_idle" and v: "short k v"
  shows "\<exists>s'. settles k m s [v] s'"
proof -
  have p: "prod_at k m Hc T (run_prod s)" using s pc by (simp add: ring_state_def)
  have max: "length v \<le> unat (max_payload (run_prod s))"
    using p v unat_max_payload [OF g] by (simp add: prod_at_def prod_ok_def short_def)
  let ?p = "(run_prod s)\<lparr>cached_head := ring_head (shared s)\<rparr>"
  have p': "prod_ok k m ?p" "tail_pos ?p = of_nat T" "cached_head ?p = of_nat T" "length v \<le> 2 ^ k div 2 - 64"
    using p v s by (simp_all add: prod_at_def prod_ok_def short_def ring_state_def)
  have "has_room ?p v" using has_room_iff [OF g p'(1,2,4,3)] need_bound [OF g p'(4), of m T] by simp
  then have go: "push_go ?p v Push_idle = Push_storing v (push_stores ?p v) (push_next ?p v)" by (simp add: push_go_def)
  let ?s = "s\<lparr>push_at := push_go (run_prod s) v (Push_reload v)\<rparr>"
  have "\<exists>s'. settles k m ?s [v] s'"
  proof (cases "has_room (run_prod s) v")
    case False
    then have "push_at ?s = Push_reload v" by (simp add: push_go_def)
    from settles_step [OF ring_step.push_reload [OF this refl] _ settle_storing] go show ?thesis by simp
  qed (rule settle_storing, simp add: push_go_def)
  then show ?thesis by (intro settles_step [OF ring_step.push_start [OF pc max]]) simp_all
qed

section \<open>Sequential use\<close>

text \<open>\<open>try_push\<close> without interference is the steps of the producer in a row.\<close>

lemma store_steps:
  assumes "push_at s = Push_storing v (ss @ ss') n"
  shows "steps_to k m s (s\<lparr>shared := (shared s)\<lparr>ring_data := foldl (poke (prod_mirror (run_prod s))) (ring_data (shared s)) ss\<rparr>,
    push_at := Push_storing v ss' n\<rparr>)"
  using assms
proof (induction ss arbitrary: s)
  case Nil
  then have "s\<lparr>push_at := Push_storing v ss' n\<rparr> = s" by (cases s) simp
  then show ?case by (simp add: steps_refl)
next
  case (Cons ab ss)
  from Cons.prems have "push_at s = Push_storing v (ab # (ss @ ss')) n" by simp
  from steps_one [OF ring_step.push_store [OF this] Cons.IH] show ?case by simp
qed

lemma try_push_steps:
  assumes pc: "push_at s = Push_idle" and v: "length v \<le> unat (max_payload (run_prod s))"
    and t: "try_push v (shared s) (run_prod s) = (True, r, p)"
  shows "steps_to k m s (s\<lparr>shared := r, run_prod := p, push_at := Push_idle, published := published s @ [v]\<rparr>)"
proof -
  define p1 where "p1 = (if has_room (run_prod s) v then run_prod s else (run_prod s)\<lparr>cached_head := ring_head (shared s)\<rparr>)"
  let ?d = "foldl (poke (prod_mirror p1)) (ring_data (shared s)) (push_stores p1 v)"
  have room: "has_room p1 v" and r: "r = (shared s)\<lparr>ring_data := ?d, ring_tail := push_next p1 v\<rparr>"
    and p: "p = p1\<lparr>tail_pos := push_next p1 v\<rparr>"
    using t by (auto simp: try_push_def Let_def p1_def split: if_splits)
  let ?s = "s\<lparr>run_prod := p1, push_at := Push_storing v (push_stores p1 v) (push_next p1 v)\<rparr>"
  have "steps_to k m s ?s"
  proof (cases "has_room (run_prod s) v")
    case True
    with steps_one [OF ring_step.push_start [OF pc v] steps_refl, of k m] show ?thesis by (simp add: push_go_def p1_def)
  next
    case False
    let ?t = "s\<lparr>push_at := Push_reload v\<rparr>"
    have "push_at ?t = Push_reload v" by simp
    from steps_one [OF ring_step.push_reload [OF this refl] steps_refl, of k m] False room
    have "steps_to k m ?t ?s" by (simp add: push_go_def p1_def)
    with steps_one [OF ring_step.push_start [OF pc v]] False show ?thesis by (simp add: push_go_def)
  qed
  moreover have "steps_to k m ?s (?s\<lparr>shared := (shared s)\<lparr>ring_data := ?d\<rparr>, push_at := Push_storing v [] (push_next p1 v)\<rparr>)"
    (is "steps_to k m ?s ?u") using store_steps [of ?s v "push_stores p1 v" "[]" "push_next p1 v" k m] by simp
  moreover have "push_at ?u = Push_storing v [] (push_next p1 v)" by simp
  from steps_one [OF ring_step.push_publish [OF this] steps_refl, of k m]
  have "steps_to k m ?u (s\<lparr>shared := r, run_prod := p, push_at := Push_idle, published := published s @ [v]\<rparr>)"
    by (simp add: r p)
  ultimately show ?thesis using pc steps_trans by (metis (no_types))
qed

text \<open>\<open>advance_to_record\<close> returns, and stands on the first data record.\<close>

lemma advance_to_record_ok:
  assumes g: "geometry k"
  shows "ring_state k m Hc H T rs s \<Longrightarrow> pop_at s = Pop_idle \<Longrightarrow>
    \<exists>r c H' rs'. advance_to_record (shared s) (run_cons s) = Some (payloads rs \<noteq> [], r, c) \<and>
      ring_state k m Hc H' T rs' (s\<lparr>shared := r, run_cons := c\<rparr>) \<and> payloads rs' = payloads rs \<and>
      (payloads rs \<noteq> [] \<longrightarrow> (\<exists>v rest. rs' = Data v # rest))"
proof (induction rs arbitrary: H s)
  case Nil
  then have "head_pos (run_cons s) = ring_tail (shared s)" by (auto simp: ring_state_def con_at_def)
  then have "advance_to_record (shared s) (run_cons s) = Some (False, shared s, run_cons s)"
    by (subst advance_to_record.simps) simp
  with Nil show ?case by (intro exI [of _ "shared s"] exI [of _ "run_cons s"] exI [of _ H] exI [of _ "[]"]) simp
next
  case (Cons x rest)
  have c: "con_at k m H (run_cons s)" and x: "seg_stored m (ring_data (shared s)) H x"
    and d: "length (ring_data (shared s)) = 2 ^ k" "64 dvd H" using Cons.prems by (auto simp: ring_state_def)
  have ne: "head_pos (run_cons s) \<noteq> ring_tail (shared s)"
    using counters_differ [OF g Cons.prems(1)] Cons.prems by (simp add: ring_state_def con_at_def)
  show ?case
  proof (cases x)
    case (Data v)
    have "flag_at (run_cons s) (ring_data (shared s)) (head_pos (run_cons s)) \<noteq> kFlagWrap"
      using read_flag [OF g d c x] Data by simp
    then have "advance_to_record (shared s) (run_cons s) = Some (True, shared s, run_cons s)"
      using ne by (subst advance_to_record.simps) (simp add: Let_def)
    with Cons.prems Data show ?thesis
      by (intro exI [of _ "shared s"] exI [of _ "run_cons s"] exI [of _ H] exI [of _ "x # rest"]) simp
  next
    case Filler
    let ?h = "head_pos (run_cons s) + (con_capacity (run_cons s) - (head_pos (run_cons s) AND con_mask (run_cons s)))"
    let ?s = "s\<lparr>shared := (shared s)\<lparr>ring_head := ?h\<rparr>, run_cons := (run_cons s)\<lparr>head_pos := ?h\<rparr>, pop_at := Pop_idle,
        delivered := delivered s\<rparr>"
    have m: "\<not> con_mirror (run_cons s)" using x c Filler by (simp add: con_at_def)
    have "flag_at (run_cons s) (ring_data (shared s)) (head_pos (run_cons s)) = kFlagWrap"
      using read_flag [OF g d c x] Filler by simp
    then have a: "advance_to_record (shared s) (run_cons s) = advance_to_record (shared ?s) (run_cons ?s)"
      using ne m by (subst advance_to_record.simps) (simp add: Let_def)
    have "ring_state k m Hc (H + seg_size (2 ^ k) H x) T rest ?s"
      using Filler by (intro head_advances [OF g Cons.prems(1) c]) (simp_all add: skip_filler [OF g c] del: seg_size.simps)
    from Cons.IH [OF this] a Filler Cons.prems(2) show ?thesis by (simp add: ring_state_def)
  qed
qed

lemma con_peek_ok:
  assumes g: "geometry k" and s: "ring_state k m Hc H T rs s" and pc: "pop_at s = Pop_idle"
  shows "\<exists>r c. con_peek (shared s) (run_cons s) = Some (case payloads rs of [] \<Rightarrow> None | v # _ \<Rightarrow> Some v, r, c) \<and>
    ring_ok k m (s\<lparr>shared := r, run_cons := c\<rparr>) \<and>
    (\<forall>v vs. payloads rs = v # vs \<longrightarrow>
      (\<forall>r' c'. con_pop r c = (r', c') \<longrightarrow> ring_ok k m (s\<lparr>shared := r', run_cons := c', delivered := delivered s @ [v]\<rparr>)))"
proof -
  obtain r c H' rs' where a: "advance_to_record (shared s) (run_cons s) = Some (payloads rs \<noteq> [], r, c)"
    and s': "ring_state k m Hc H' T rs' (s\<lparr>shared := r, run_cons := c\<rparr>)" and p: "payloads rs' = payloads rs"
    and h: "payloads rs \<noteq> [] \<longrightarrow> (\<exists>v rest. rs' = Data v # rest)"
    using advance_to_record_ok [OF g s pc] by blast
  show ?thesis
  proof (cases "payloads rs")
    case Nil
    with a s' show ?thesis by (intro exI [of _ r] exI [of _ c]) (auto simp: con_peek_def intro: ring_okI)
  next
    case (Cons v vs)
    with h p obtain rest where rs': "rs' = Data v # rest" by auto
    let ?s = "s\<lparr>shared := r, run_cons := c\<rparr>"
    have c: "con_at k m H' (run_cons ?s)" using s' pc by (simp add: ring_state_def)
    note rr = record_read [OF g s' [unfolded rs'] c, simplified]
    let ?b = "unat (head_pos c AND con_mask c) + 64"
    have "map (view_byte c (ring_data r)) [?b..<?b + length v] = v"
      by (rule nth_equalityI) (use rr(2) in \<open>simp_all add: add.assoc\<close>)
    then have pk: "con_peek (shared s) (run_cons s) = Some (Some v, r, c)"
      using a Cons rr(1) by (simp add: con_peek_def)
    let ?n = "next_head c (length_at c (ring_data r))"
    have "ring_state k m Hc (H' + seg_size (2 ^ k) H' (Data v)) T rest (?s\<lparr>shared := (shared ?s)\<lparr>ring_head := ?n\<rparr>,
        run_cons := (run_cons ?s)\<lparr>head_pos := ?n\<rparr>, pop_at := Pop_idle, delivered := delivered s @ [v]\<rparr>)"
      using rr(3) by (intro head_advances [OF g s' [unfolded rs'] c]) simp_all
    then have "ring_ok k m (s\<lparr>shared := r\<lparr>ring_head := ?n\<rparr>, run_cons := c\<lparr>head_pos := ?n\<rparr>, delivered := delivered s @ [v]\<rparr>)"
      using pc ring_okI by (cases s) fastforce
    with pk Cons s' show ?thesis by (intro exI [of _ r] exI [of _ c]) (auto simp: con_pop_def Let_def intro: ring_okI)
  qed
qed

definition ring_seq :: "ring_run \<Rightarrow> bool" where
  "ring_seq s \<longleftrightarrow> (\<exists>k m. geometry k \<and> ring_ok k m s) \<and> push_at s = Push_idle \<and> pop_at s = Pop_idle"

definition ring_backlog :: "ring_run \<Rightarrow> string list" where
  "ring_backlog s = drop (length (delivered s)) (published s)"

definition ring_take :: "ring_run \<Rightarrow> string option \<times> ring_run" where
  "ring_take s =
     (case con_peek (shared s) (run_cons s) of
        Some (Some v, r, c) \<Rightarrow> (case con_pop r c of (r, c) \<Rightarrow> (Some v, s\<lparr>shared := r, run_cons := c, delivered := delivered s @ [v]\<rparr>))
      | Some (None, r, c) \<Rightarrow> (None, s\<lparr>shared := r, run_cons := c\<rparr>)
      | None \<Rightarrow> (None, s))"

definition ring_put :: "ring_run \<Rightarrow> string \<Rightarrow> ring_run option" where
  "ring_put s v =
     (if length v > unat (max_payload (run_prod s)) then None
      else case try_push v (shared s) (run_prod s) of
        (True, r, p) \<Rightarrow> Some (s\<lparr>shared := r, run_prod := p, push_at := Push_idle, published := published s @ [v]\<rparr>)
      | (False, r, p) \<Rightarrow> None)"

lemma ring_backlog_state: "ring_state k m Hc H T rs s \<Longrightarrow> ring_backlog s = payloads rs"
  by (simp add: ring_state_def ring_backlog_def)

interpretation records: fifo_queue ring_take ring_backlog ring_seq ring_put
proof
  fix s s' :: ring_run and v
  assume i: "ring_seq s"
  then obtain k m Hc H T rs where g: "geometry k" and s: "ring_state k m Hc H T rs s" and pc: "push_at s = Push_idle" "pop_at s = Pop_idle"
    by (auto simp: ring_seq_def ring_ok_def)
  note b = ring_backlog_state [OF s]
  obtain r c where pk: "con_peek (shared s) (run_cons s) = Some (case payloads rs of [] \<Rightarrow> None | v # _ \<Rightarrow> Some v, r, c)"
    "ring_ok k m (s\<lparr>shared := r, run_cons := c\<rparr>)"
    "\<And>v vs r' c'. payloads rs = v # vs \<Longrightarrow> con_pop r c = (r', c') \<Longrightarrow>
       ring_ok k m (s\<lparr>shared := r', run_cons := c', delivered := delivered s @ [v]\<rparr>)"
    using con_peek_ok [OF g s pc(2)] by blast
  show "ring_seq (snd (ring_take s))"
  proof (cases "payloads rs")
    case Nil
    then show ?thesis using pk(1,2) g pc by (auto simp: ring_seq_def ring_take_def)
  next
    case (Cons w vs)
    obtain r' c' where "con_pop r c = (r', c')" by fastforce
    with pk(1) pk(3) [OF Cons this] Cons g pc show ?thesis by (auto simp: ring_seq_def ring_take_def)
  qed
  show "ring_take s = (Some v, s') \<Longrightarrow> ring_backlog s = v # ring_backlog s'"
    using pk(1) b s by (auto simp: ring_take_def ring_backlog_def ring_state_def split: list.splits prod.splits)
  show "ring_take s = (None, s') \<Longrightarrow> ring_backlog s = [] \<and> ring_backlog s' = []"
    using pk(1) b s by (auto simp: ring_take_def ring_backlog_def ring_state_def split: list.splits prod.splits)
  assume "ring_put s v = Some s'"
  then obtain r p where t: "try_push v (shared s) (run_prod s) = (True, r, p)" "length v \<le> unat (max_payload (run_prod s))"
    and s': "s' = s\<lparr>shared := r, run_prod := p, push_at := Push_idle, published := published s @ [v]\<rparr>"
    by (auto simp: ring_put_def split: if_splits prod.splits bool.splits)
  have "steps_to k m s s'" unfolding s' by (rule try_push_steps [OF pc(1) t(2,1)])
  then have "ring_ok k m s'" using steps_ok [OF g ring_okI [OF s]] by blast
  then show "ring_seq s'" using g pc by (auto simp: ring_seq_def s')
  show "ring_backlog s' = ring_backlog s @ [v]" using s by (auto simp: ring_backlog_def s' ring_state_def)
qed

section \<open>Cutting a payload into records\<close>

text \<open>The records \<open>send\<close> pushes for a payload.\<close>

function send_pieces :: "nat \<Rightarrow> string \<Rightarrow> string list" where
  "send_pieces mx payload =
     (if length payload \<le> mx \<or> mx = 0 then [payload] else take mx payload # send_pieces mx (drop mx payload))"
  by auto
termination by (relation "measure (\<lambda>(mx, payload). length payload)") auto

declare send_pieces.simps [simp del] push_until.simps [simp del]

lemma send_pieces_concat: "concat (send_pieces mx payload) = payload"
  by (induction mx payload rule: send_pieces.induct) (subst send_pieces.simps, simp)

lemma send_pieces_length: "0 < mx \<Longrightarrow> x \<in> set (send_pieces mx payload) \<Longrightarrow> length x \<le> mx"
proof (induction mx payload rule: send_pieces.induct)
  case (1 mx payload)
  then show ?case by (cases "length payload \<le> mx") (auto simp: send_pieces.simps [of mx payload])
qed

fun push_list :: "string list \<Rightarrow> (u64 \<times> bool) list \<Rightarrow> ring \<Rightarrow> producer \<Rightarrow> (bool \<times> (u64 \<times> bool) list \<times> ring \<times> producer) option" where
  "push_list [] waits r p = Some (True, waits, r, p)"
| "push_list (x # xs) waits r p =
     do {
       (ok, waits, r, p) \<leftarrow> push_until x waits r p;
       if ok then push_list xs waits r p else Some (False, waits, r, p)
     }"

lemma try_push_max: "try_push v r p = (ok, r', p') \<Longrightarrow> max_payload p' = max_payload p"
  by (auto simp: try_push_def Let_def split: if_splits)

lemma push_until_max: "push_until v waits r p = Some (ok, w, r', p') \<Longrightarrow> max_payload p' = max_payload p"
proof (induction v waits r p rule: push_until.induct)
  case (1 v waits r p)
  obtain ok1 r1 p1 where t: "try_push v r p = (ok1, r1, p1)" by (cases "try_push v r p")
  from try_push_max [OF t] 1 t show ?case
    by (subst (asm) (2) push_until.simps) (auto split: bool.splits list.splits if_splits)
qed

lemma push_list_single: "push_list [v] waits r p = push_until v waits r p"
  by (cases "push_until v waits r p") (auto split: prod.splits)

lemma send_loop_pieces:
  assumes "0 < mx"
  shows "unat (max_payload p) = mx \<Longrightarrow> payload \<noteq> [] \<Longrightarrow> send_loop payload waits r p = push_list (send_pieces mx payload) waits r p"
proof (induction "length payload" arbitrary: payload waits r p rule: less_induct)
  case less
  show ?case
  proof (cases "length payload \<le> mx")
    case True
    then have c: "piece_size p payload = length payload" using less.prems(1) by (auto simp: piece_size_def)
    have "send_loop payload waits r p = push_list [payload] waits r p"
      using less.prems(2) unfolding push_list_single
      by (subst send_loop.simps, cases "push_until payload waits r p")
        (auto simp: c send_loop.simps [of "[]"] split: prod.splits)
    with True show ?thesis by (simp add: send_pieces.simps [of mx payload])
  next
    case False
    then have c: "piece_size p payload = mx" using less.prems(1) by (auto simp: piece_size_def)
    show ?thesis
    proof (cases "push_until (take mx payload) waits r p")
      case None
      then show ?thesis using less.prems False assms
        by (simp add: send_loop.simps [of payload] send_pieces.simps [of mx payload] c)
    next
      case (Some res)
      obtain ok w r1 p1 where res: "res = (ok, w, r1, p1)" by (cases res)
      have "unat (max_payload p1) = mx" using push_until_max [of _ _ r p] Some res less.prems(1) by metis
      from less.hyps [of "drop mx payload" p1 w r1] this False assms
      have "send_loop (drop mx payload) w r1 p1 = push_list (send_pieces mx (drop mx payload)) w r1 p1" by simp
      then show ?thesis using less.prems False assms Some res
        by (simp add: send_loop.simps [of payload] send_pieces.simps [of mx payload] c)
    qed
  qed
qed

lemma send_eq_pieces:
  assumes "0 < unat (max_payload p)"
  shows "send payload waits r p = push_list (send_pieces (unat (max_payload p)) payload) waits r p"
proof (cases "length payload \<le> unat (max_payload p)")
  case True
  then have "send_pieces (unat (max_payload p)) payload = [payload]" by (subst send_pieces.simps) simp
  with True show ?thesis by (simp only: send_def push_list_single if_True)
next
  case False
  then have "payload \<noteq> []" by auto
  with False send_loop_pieces [OF assms refl] show ?thesis by (simp add: send_def)
qed

section \<open>The capacity of a ring\<close>

declare bit_width.simps [simp del]

lemma bit_width_upper: "n < 2 ^ bit_width n"
proof (induction n rule: bit_width.induct)
  case (1 n)
  then show ?case by (subst bit_width.simps) auto
qed

lemma bit_width_lower: "0 < n \<Longrightarrow> 2 ^ (bit_width n - 1) \<le> n"
proof (induction n rule: bit_width.induct)
  case (1 n)
  show ?case
  proof (cases "n div 2 = 0")
    case True
    with 1 show ?thesis by (subst bit_width.simps, subst bit_width.simps) simp
  next
    case False
    then have "bit_width (n div 2) = Suc (bit_width (n div 2) - 1)" by (subst bit_width.simps) (subst (2) bit_width.simps, simp)
    with 1 False have "2 ^ bit_width (n div 2) \<le> 2 * (n div 2)" by (metis mult_le_mono2 power_Suc neq0_conv)
    with 1 show ?thesis by (subst bit_width.simps) auto
  qed
qed

lemma capacity_for_geometry:
  assumes page: "unat page = 2 ^ a" "12 \<le> a" "a \<le> 33" and b: "unat bytes \<le> 2 ^ 33"
  shows "\<exists>k. geometry k \<and> capacity_for page bytes = 2 ^ k \<and> unat bytes \<le> 2 ^ k"
proof -
  define x where "x = (if bytes < page then page else bytes)"
  have pw: "(4096 :: nat) \<le> 2 ^ a" "(2 :: nat) ^ a \<le> 2 ^ 33"
    using power_increasing [of 12 a "2 :: nat"] power_increasing [of a 33 "2 :: nat"] page by simp_all
  have x: "4096 \<le> unat x" "unat x \<le> 2 ^ 33" "unat bytes \<le> unat x"
    using pw page b by (auto simp: x_def word_less_nat_alt)
  let ?w = "bit_width (unat (x - 1))"
  have one: "unat (x - 1) = unat x - 1" using x(1) by (intro unat_minus_one) auto
  have "2 ^ (?w - 1) \<le> unat x - 1" using bit_width_lower [of "unat (x - 1)"] one x(1) by simp
  then have "(2 :: nat) ^ (?w - 1) < 2 ^ 33" using x(1,2) by linarith
  then have hi: "?w \<le> 33" using power_less_imp_less_exp [of "2 :: nat" "?w - 1" 33] by simp
  have up: "unat x \<le> 2 ^ ?w" using bit_width_upper [of "unat (x - 1)"] one x(1) by simp
  then have "(2 :: nat) ^ 11 < 2 ^ ?w" using x(1) by simp
  then have lo: "12 \<le> ?w" using power_less_imp_less_exp [of "2 :: nat" 11 ?w] by simp
  have "\<not> x \<le> 1" using x(1) by (simp add: word_le_nat_alt)
  then have "capacity_for page bytes = 2 ^ ?w"
    by (simp add: capacity_for_def bit_ceil_def x_def [symmetric] push_bit_eq_mult)
  with lo hi up x(3) show ?thesis by (intro exI [of _ ?w]) (simp add: geometry_def)
qed

section \<open>Properties\<close>

lemma phys_in_map: "phys m d a < length d \<Longrightarrow> a < (if m then 2 * length d else length d)"
  by (auto simp: phys_def split: if_splits)

lemma ring_progress:
  assumes g: "geometry k" and r: "ring_reachable (2 ^ k) mirror s" and v: "short k v"
  shows "\<exists>s' mid. steps_to k mirror s s' \<and> published s' = published s @ mid @ [v] \<and> length mid \<le> 1 \<and> delivered s' = published s'"
proof -
  obtain mid s1 where s1: "settles k mirror s mid s1" "length mid \<le> 1" using producer_settles by blast
  have "ring_ok k mirror s1" using steps_ok [OF g ring_reachable_ok [OF g r]] s1(1) by (simp add: settles_def)
  then obtain Hc H T rs where "ring_state k mirror Hc H T rs s1" by (auto simp: ring_ok_def)
  from consumer_drains [OF g this] obtain s2 where s2: "takes k mirror Hc T T [] s1 s2" by blast
  then have "ring_state k mirror Hc T T [] s2" "push_at s2 = Push_idle" using s1 by (simp_all add: takes_def settles_def)
  from push_drained [OF g this v] obtain s3 where s3: "settles k mirror s2 [v] s3" by blast
  have "ring_ok k mirror s3" using steps_ok [OF g ring_okI, of mirror Hc T T "[]" s2 s3] s2 s3 by (simp add: settles_def takes_def)
  then obtain Hc' H' T' rs' where "ring_state k mirror Hc' H' T' rs' s3" by (auto simp: ring_ok_def)
  from consumer_drains [OF g this] obtain s4 where s4: "takes k mirror Hc' T' T' [] s3 s4" by blast
  have "steps_to k mirror s s4"
    using s1 s2 s3 s4 steps_trans [of k mirror] unfolding settles_def takes_def by metis
  moreover have "delivered s4 = published s4" using s4 by (simp add: takes_def ring_state_def)
  moreover have "published s4 = published s @ mid @ [v]" using s1 s2 s3 s4 by (simp add: takes_def settles_def)
  ultimately show ?thesis using s1(2) by blast
qed

definition fresh_run :: "u64 \<Rightarrow> bool \<Rightarrow> ring_run" where
  "fresh_run cap mirror =
     (let r = new_ring cap
      in \<lparr>shared = r, run_prod = new_producer cap mirror r, run_cons = new_consumer cap mirror r,
          push_at = Push_detached, pop_at = Pop_detached, published = [], delivered = []\<rparr>)"

lemma fresh_run_reachable: "ring_reachable cap mirror (fresh_run cap mirror)"
  by (rule ring_reachable.start) (simp_all add: fresh_run_def Let_def)

text \<open>C1: a shared-memory ring hands over records intact and in order, however producer and consumer
  interleave, at every single load, store and copied byte, with crashes and reconnections at any point,
  and across the wrap-around of the 64-bit counters. What the consumer has taken is a prefix of what the
  producer has published; when it sees the counters equal it has taken everything; while it holds the
  view of a record, the bytes it reads are those of the oldest record not yet taken, whatever the
  producer writes meanwhile; and no access leaves the mapping. Capacities are powers of two from a page
  to 8 GiB.\<close>

theorem ring_records_in_order:
  assumes "12 \<le> k" "k \<le> 33" and "ring_reachable (2 ^ k) mirror s"
  shows "\<exists>rest. published s = delivered s @ rest \<and>
    (pop_at s = Pop_idle \<and> head_pos (run_cons s) = ring_tail (shared s) \<longrightarrow> rest = []) \<and>
    (\<forall>n got. pop_at s = Pop_view n got \<longrightarrow>
       (\<exists>v more. rest = v # more \<and> n = length v \<and> got = take (length got) v) \<and>
       (length got < n \<longrightarrow> unat (head_pos (run_cons s) AND con_mask (run_cons s)) + 64 + length got < (if mirror then 2 else 1) * 2 ^ k)) \<and>
    (\<forall>v a b ss n. push_at s = Push_storing v ((a, b) # ss) n \<longrightarrow> a < (if mirror then 2 else 1) * 2 ^ k)"
proof -
  have g: "geometry k" using assms by (simp add: geometry_def)
  obtain Hc H T rs where s: "ring_state k mirror Hc H T rs s"
    using ring_reachable_ok [OF g assms(3)] by (auto simp: ring_ok_def)
  note gd = geometryD [OF g]
  let ?c = "(if mirror then 2 else 1) * 2 ^ k :: nat"
  have d: "length (ring_data (shared s)) = 2 ^ k" "64 dvd H" using s by (simp_all add: ring_state_def)
  have empty: "payloads rs = []" if "pop_at s = Pop_idle" "head_pos (run_cons s) = ring_tail (shared s)"
  proof (cases rs)
    case (Cons x r)
    from counters_differ [OF g s [unfolded this]] s that show ?thesis by (auto simp: ring_state_def con_at_def)
  qed simp
  have view: "\<exists>v more. payloads rs = v # more \<and> n = length v \<and> got = take (length got) v" if "pop_at s = Pop_view n got" for n got
    using s that by (auto simp: ring_state_def)
  have read: "unat (head_pos (run_cons s) AND con_mask (run_cons s)) + 64 + length got < ?c"
    if pc: "pop_at s = Pop_view n got" "length got < n" for n got
  proof -
    from s pc obtain v r where v: "rs = Data v # r" "n = length v" "con_at k mirror H (run_cons s)" by (auto simp: ring_state_def)
    have "unat (head_pos (run_cons s) AND con_mask (run_cons s)) = H mod 2 ^ k"
      using offset_mod [OF gd(1), of H] v(3) by (simp add: con_at_def)
    with data_maps(2) [OF gd(4) d(2) gd(6) seg_bound(1) [OF s [unfolded v(1)]], of mirror] seg_bound(2) [OF s [unfolded v(1)]] d pc(2) v(2)
    show ?thesis by (auto simp: in_map_def split: if_splits)
  qed
  have "a < ?c" if "push_at s = Push_storing v ((a, b) # ss) n" for v a b ss n
  proof -
    from s that obtain N where "places mirror (ring_data (shared s)) T N ((a, b) # ss)" by (auto simp: ring_state_def)
    then obtain y where "phys mirror (ring_data (shared s)) a = y mod 2 ^ k" using d by (auto simp: places_def)
    then show ?thesis using phys_in_map [of mirror "ring_data (shared s)" a] d gd(6) by (auto split: if_splits)
  qed
  with empty view read s show ?thesis by (intro exI [of _ "payloads rs"]) (auto simp: ring_state_def)
qed

theorem ring_records_in_order_witness:
  "\<exists>s. ring_reachable (2 ^ 12) False s \<and> last (published s) = ''hi'' \<and> (\<exists>rest. published s = delivered s @ rest)"
proof -
  have g: "geometry 12" by (simp add: geometry_def)
  obtain s mid where s: "steps_to 12 False (fresh_run (2 ^ 12) False) s" "published s = mid @ [''hi'']"
    using ring_progress [OF g fresh_run_reachable, where mirror = False and v = "''hi''"] by (auto simp: fresh_run_def Let_def short_def)
  note r = steps_reachable [OF s(1) fresh_run_reachable]
  from ring_records_in_order [OF _ _ r] have "\<exists>rest. published s = delivered s @ rest" by auto
  moreover have "last (published s) = ''hi''" by (simp add: s(2))
  ultimately show ?thesis using r by blast
qed



end
