(* ===== verification/Ring_Session.thy ===== *)
theory Ring_Session
  imports Ring_Buffer PubSub Resp_Parser Transaction_Exec
begin

text \<open>
  A session over a shared-memory ring: the client of \<open>include/goblin/core/ring_client.hpp\<close> (\<open>encode_command\<close>,
  \<open>reply_end\<close>, \<open>RingClient\<close>) and the server's side of a polled endpoint in \<open>src/server.cpp\<close> (the intake of
  \<open>process_polled_endpoint\<close> with the protocol selector of \<open>include/goblin/core/goblin_protocol.hpp\<close>,
  \<open>flush_polled_output\<close>, the reconnection in \<open>process_ring\<close>).

  The functions see the ring as it is while they run; the interleaving with the other side is the
  subject of \<open>Ring_Buffer_Correct\<close>. \<open>reply_end\<close> calls itself for the elements of an aggregate: here
  \<open>reply_walk\<close> skips a number of replies, an aggregate being skipped by skipping its elements (the reply
  behind an attribute counts as one more). Doubling the count of a map overflows the signed type from
  2 to the power 62 on; here the count is a number. Waiting with a deadline is left out, so is the SBE stream
  behind the magic.
\<close>

section \<open>The client\<close>

definition encode_command :: "string list \<Rightarrow> string" where
  "encode_command args =
     foldl (\<lambda>out arg. out @ ''$'' @ to_chars_u (length arg) @ crlf @ arg @ crlf)
       (''*'' @ to_chars_u (length args) @ crlf) args"

text \<open>\<open>std::from_chars\<close> for \<open>long long\<close> where the whole text has to be consumed.\<close>

definition from_chars_ll :: "string \<Rightarrow> int option" where
  "from_chars_ll t =
     (let negative = (t \<noteq> [] \<and> hd t = CHR ''-''); ds = (if negative then tl t else t)
      in if ds = [] \<or> \<not> list_all is_digit ds \<or> dec_value ds > (if negative then 2 ^ 63 else 2 ^ 63 - 1) then None
         else Some (if negative then - int (dec_value ds) else int (dec_value ds)))"

datatype reply_head = Head_incomplete | Head_leaf nat | Head_children nat nat

definition parse_reply_head :: "string \<Rightarrow> nat \<Rightarrow> reply_head" where
  "parse_reply_head s pos =
     (if length s \<le> pos then Head_incomplete
      else case find_crlf s pos of
        None \<Rightarrow> Head_incomplete
      | Some eol \<Rightarrow>
          let line_end = eol + 2; count = from_chars_ll (substr s (pos + 1) (eol - (pos + 1)))
          in if s ! pos \<in> set ''+-:,(#_'' then Head_leaf line_end
             else if s ! pos \<in> set ''$!='' then
               (case count of
                  None \<Rightarrow> Head_incomplete
                | Some len \<Rightarrow>
                    if len < 0 then Head_leaf line_end
                    else if line_end + nat len + 2 \<le> length s then Head_leaf (line_end + nat len + 2)
                    else Head_incomplete)
             else if s ! pos \<in> set ''*~>'' then
               (case count of
                  None \<Rightarrow> Head_incomplete
                | Some n \<Rightarrow> if n < 0 then Head_leaf line_end else Head_children (nat n) line_end)
             else if s ! pos \<in> set ''%|'' then
               (case count of
                  None \<Rightarrow> Head_incomplete
                | Some n \<Rightarrow>
                    if n < 0 then Head_incomplete
                    else Head_children (nat n * 2 + (if s ! pos = CHR ''|'' then 1 else 0)) line_end)
             else Head_leaf line_end)"

text \<open>The outer \<open>None\<close> would be not returning, the inner one is \<open>std::nullopt\<close>.\<close>

partial_function (option) reply_walk :: "string \<Rightarrow> nat \<Rightarrow> nat \<Rightarrow> nat option option" where
  "reply_walk s n cur =
     (if n = 0 then Some (Some cur)
      else case parse_reply_head s cur of
        Head_incomplete \<Rightarrow> Some None
      | Head_leaf e \<Rightarrow> reply_walk s (n - 1) e
      | Head_children c start \<Rightarrow>
          do {
            r \<leftarrow> reply_walk s c start;
            case r of None \<Rightarrow> Some None | Some e \<Rightarrow> reply_walk s (n - 1) e
          })"

definition reply_end :: "string \<Rightarrow> nat \<Rightarrow> nat option option" where
  "reply_end s pos = reply_walk s 1 pos"

partial_function (option) try_read_reply ::
  "string \<Rightarrow> ring \<Rightarrow> consumer \<Rightarrow> (string option \<times> string \<times> ring \<times> consumer) option" where
  "try_read_reply pending1 r c =
     do {
       e \<leftarrow> reply_end pending1 0;
       case e of
         Some n \<Rightarrow> Some (Some (take n pending1), drop n pending1, r, c)
       | None \<Rightarrow>
           do {
             (rec, r, c) \<leftarrow> con_peek r c;
             case rec of
               None \<Rightarrow> Some (None, pending1, r, c)
             | Some v \<Rightarrow> (case con_pop r c of (r, c) \<Rightarrow> try_read_reply (pending1 @ v) r c)
           }
     }"

partial_function (option) drain_cq :: "nat \<Rightarrow> string \<Rightarrow> ring \<Rightarrow> consumer \<Rightarrow> (nat \<times> string \<times> ring \<times> consumer) option" where
  "drain_cq drained pending1 r c =
     do {
       (rec, r, c) \<leftarrow> con_peek r c;
       case rec of
         None \<Rightarrow> Some (drained, pending1, r, c)
       | Some v \<Rightarrow> (case con_pop r c of (r, c) \<Rightarrow> drain_cq (drained + length v) (pending1 @ v) r c)
     }"

section \<open>The server: requests\<close>

definition kGoblinMagicBytes :: string where "kGoblinMagicBytes = ''GOBLINS!''"

datatype magic_match = Magic_yes | Magic_no | Magic_need_more

definition match_goblin_magic :: "string \<Rightarrow> magic_match" where
  "match_goblin_magic bytes =
     (let n = min (length bytes) (length kGoblinMagicBytes)
      in if take n bytes \<noteq> take n kGoblinMagicBytes then Magic_no
         else if length bytes \<ge> length kGoblinMagicBytes then Magic_yes else Magic_need_more)"

record intake =
  in_wire :: wire_mode
  inbuf :: string
  in_parser :: resp_parser

text \<open>One record: the protocol is decided from the first bytes, a RESP stream goes to the parser.\<close>

definition take_record :: "bool \<Rightarrow> intake \<Rightarrow> string \<Rightarrow> intake" where
  "take_record enable_sbe i rec =
     (let i = i\<lparr>inbuf := inbuf i @ rec\<rparr>;
          i = (if in_wire i \<noteq> Undecided then i
               else if enable_sbe then
                 (case match_goblin_magic (inbuf i) of
                    Magic_need_more \<Rightarrow> i
                  | Magic_yes \<Rightarrow> i\<lparr>in_wire := Wire_sbe, inbuf := drop (length kGoblinMagicBytes) (inbuf i)\<rparr>
                  | Magic_no \<Rightarrow> i\<lparr>in_wire := Wire_resp2\<rparr>)
               else i\<lparr>in_wire := Wire_resp2\<rparr>)
      in if in_wire i = Wire_resp2 \<or> in_wire i = Wire_resp3
         then i\<lparr>in_parser := parser_append (in_parser i) (inbuf i), inbuf := []\<rparr> else i)"

section \<open>The server: replies\<close>

definition polled_offer :: "endpoint \<Rightarrow> (u64 \<times> string) option \<Rightarrow> (bool \<times> string) option" where
  "polled_offer s push =
     (if push \<noteq> None \<and> (\<not> has_pending_regular_output s \<or> fst (the push) < rb_sequence (replies s ! reply_index s))
      then Some (True, drop (unsolicited_front_offset s) (snd (the push)))
      else if \<not> has_ready_regular_output s then None
      else Some (False, substr (ep_output s) (output_offset s) (end_offset (replies s ! reply_index s) - output_offset s)))"

definition polled_advance :: "endpoint \<Rightarrow> nat \<Rightarrow> endpoint" where
  "polled_advance s n =
     (let off = output_offset s + n
      in s\<lparr>output_offset := off,
           reply_index := (if off = end_offset (replies s ! reply_index s) then reply_index s + 1 else reply_index s)\<rparr>)"

partial_function (option) flush_polled_output ::
  "bool \<Rightarrow> endpoint \<Rightarrow> ring \<Rightarrow> producer \<Rightarrow> (bool \<times> endpoint \<times> ring \<times> producer) option" where
  "flush_polled_output progressed s r p =
     do {
       (push, s) \<leftarrow> peek_unsolicited s;
       if \<not> has_writable_output s push then Some (progressed, s, r, p)
       else case polled_offer s push of
         None \<Rightarrow> Some (progressed, s, r, p)
       | Some (is_push, bytes) \<Rightarrow>
           let mx = unat (max_payload p); bytes = (if length bytes > mx then take mx bytes else bytes)
           in (case try_push bytes r p of
                 (pushed, r, p) \<Rightarrow>
                   if \<not> pushed then Some (progressed, s, r, p)
                   else
                     let s = (if is_push then send_push s (the push) (length bytes) else polled_advance s (length bytes))
                     in flush_polled_output True (compact_output_if_needed s) r p)
     }"

section \<open>The server: reconnection\<close>

text \<open>The session behind an endpoint: its input, its output, its transaction, and who is on the other end. A
  list command it is parked on and its replication buffer are reduced to flags.\<close>

record endpoint_session =
  es_in :: intake
  es_out :: endpoint
  transaction :: transaction_state
  es_resp_version :: resp_version
  connection_id :: u64
  default_authentication_required :: bool
  authentication_required :: bool
  authenticated :: bool
  authenticated_username :: string
  client_name :: string
  client_library_name :: string
  client_library_version :: string
  quit_after_write :: bool
  blocked_list :: bool
  firehose :: bool
  dump_world :: bool

definition reset_connection :: "u64 \<Rightarrow> endpoint_session \<Rightarrow> endpoint_session" where
  "reset_connection assigned_connection_id ep =
     (let out = es_out ep;
          out = out\<lparr>ep_output := [], output_offset := 0, replies := [], reply_index := 0, unsolicited := oq_clear (unsolicited out)\<rparr>;
          out = (clear_unsolicited_front_cache out)\<lparr>next_output_sequence := 1, close_requested := False,
                  next_reply_kafka_offset := 0, active_request_sequence := 0\<rparr>
      in ep\<lparr>es_in := \<lparr>in_wire = Undecided, inbuf = [], in_parser = parser_clear (in_parser (es_in ep))\<rparr>,
            es_out := out, transaction := ts_reset (transaction ep), es_resp_version := Resp2,
            connection_id := assigned_connection_id,
            authentication_required := default_authentication_required ep,
            authenticated := \<not> default_authentication_required ep, authenticated_username := [],
            client_name := [], client_library_name := [], client_library_version := [], quit_after_write := False,
            blocked_list := False, firehose := False, dump_world := False\<rparr>)"

record ring_endpoint =
  re_session :: endpoint_session
  re_mapping :: ring_mapping
  re_sq :: consumer
  re_cq :: producer
  re_acked :: u64

definition rebind_ring_views :: "ring_endpoint \<Rightarrow> ring_endpoint" where
  "rebind_ring_views e =
     e\<lparr>re_sq := new_consumer (sq_cap (re_mapping e)) (map_mirror (re_mapping e)) (sq (re_mapping e)),
       re_cq := new_producer (cq_cap (re_mapping e)) (map_mirror (re_mapping e)) (cq (re_mapping e))\<rparr>"

text \<open>The removals of the session from the registries are those of \<open>PubSub\<close> and \<open>Transaction\<close>.\<close>

definition serve_reconnect :: "u64 \<Rightarrow> ring_endpoint \<Rightarrow> ring_endpoint" where
  "serve_reconnect next_connection_id e =
     (let requested = epoch (re_mapping e)
      in if requested = re_acked e then e
         else
           let e = e\<lparr>re_mapping := drain_for_reconnect (re_mapping e),
                     re_session := reset_connection next_connection_id (re_session e)\<rparr>;
               e = e\<lparr>re_mapping := ack_epoch requested (re_mapping e), re_acked := requested\<rparr>
           in rebind_ring_views e)"

end
