(* ===== verification/Ring_Session_Correct.thy ===== *)
theory Ring_Session_Correct
  imports Ring_Session Ring_Buffer_Correct Client_Output_Correct Resp_Writer_Correct
begin

text \<open>
  Correctness of a session over a ring: \<open>reply_end\<close> always returns and finds the end of every reply the
  server can write, the client reads whole replies in order from the records, requests reach the parser,
  \<open>flush_polled_output\<close> moves a prefix of the waiting output into the ring, and a reconnection leaves nothing of the
  previous client behind. The properties are stated over every reachable state of \<open>ring_step\<close> in which the
  two sides are between calls, through the interpretation \<open>records\<close> of the queue interface.
\<close>

section \<open>Finding the end of a reply\<close>

lemma head_leafD: "parse_reply_head s pos = Head_leaf e \<Longrightarrow> pos < e \<and> e \<le> length s"
  unfolding parse_reply_head_def Let_def
  by (simp only: split: option.splits if_splits) (auto dest!: find_crlf_bounds)

lemma head_childrenD: "parse_reply_head s pos = Head_children c e \<Longrightarrow> pos < e \<and> e \<le> length s"
  unfolding parse_reply_head_def Let_def
  by (simp only: split: option.splits if_splits) (auto dest!: find_crlf_bounds)

lemma head_append:
  assumes "parse_reply_head s pos \<noteq> Head_incomplete"
  shows "parse_reply_head (s @ x) pos = parse_reply_head s pos"
proof -
  from assms have pos: "pos < length s" unfolding parse_reply_head_def by (simp split: if_splits)
  with assms obtain eol where e: "find_crlf s pos = Some eol"
    unfolding parse_reply_head_def by (simp split: option.splits)
  note b = find_crlf_bounds [OF e]
  have d: "substr (s @ x) (pos + 1) (eol - (pos + 1)) = substr s (pos + 1) (eol - (pos + 1))"
    using b by (intro substr_append_left) auto
  have c: "(s @ x) ! pos = s ! pos" using pos by (simp add: nth_append)
  have p: "\<not> length s \<le> pos" "\<not> length (s @ x) \<le> pos" using pos by simp_all
  show ?thesis
  proof (cases "s ! pos \<in> set ''+-:,(#_'' \<or> s ! pos \<notin> set ''$!=''")
    case True
    then show ?thesis unfolding parse_reply_head_def e find_crlf_append [OF e] d c Let_def option.case
      by (elim disjE) (simp_all only: p if_False if_True)
  next
    case False
    then have f: "(s ! pos \<in> set ''+-:,(#_'') = False" "(s ! pos \<in> set ''$!='') = True" by blast+
    from assms show ?thesis
      unfolding parse_reply_head_def e find_crlf_append [OF e] d c Let_def option.case f if_False if_True
      using p by (cases "from_chars_ll (substr s (pos + 1) (eol - (pos + 1)))") (auto split: if_splits)
  qed
qed

lemma reply_walk_0 [simp]: "reply_walk s 0 cur = Some (Some cur)"
  by (simp add: reply_walk.simps)

lemma reply_walk_Suc:
  "reply_walk s (Suc n) cur =
     (case parse_reply_head s cur of
        Head_incomplete \<Rightarrow> Some None
      | Head_leaf e \<Rightarrow> reply_walk s n e
      | Head_children c start \<Rightarrow>
          (case reply_walk s c start of
             None \<Rightarrow> None
           | Some None \<Rightarrow> Some None
           | Some (Some e) \<Rightarrow> reply_walk s n e))"
  by (subst reply_walk.simps) (simp split: reply_head.split option.split bind_splits)

text \<open>The walk returns, and never goes back; where it reads at all it stays inside the text.\<close>

definition walk_end :: "string \<Rightarrow> nat \<Rightarrow> nat option option \<Rightarrow> bool" where
  "walk_end s cur r \<longleftrightarrow> r \<noteq> None \<and> (\<forall>e. r = Some (Some e) \<longrightarrow> cur \<le> e \<and> e \<le> max cur (length s))"

lemma walk_returns: "walk_end s cur (reply_walk s n cur)"
proof (induction "length s - cur" arbitrary: n cur rule: less_induct)
  case less
  show ?case
  proof (cases n)
    case 0
    then show ?thesis by (simp add: walk_end_def)
  next
    case (Suc m)
    show ?thesis
    proof (cases "parse_reply_head s cur")
      case Head_incomplete
      with Suc show ?thesis by (simp add: reply_walk_Suc walk_end_def)
    next
      case (Head_leaf e)
      from head_leafD [OF this] have "cur < e" "e \<le> length s" by auto
      with less [of e m] Suc Head_leaf show ?thesis by (simp add: reply_walk_Suc walk_end_def) force
    next
      case (Head_children c st)
      from head_childrenD [OF this] have st: "cur < st" "st \<le> length s" by auto
      with less [of st c] have c: "walk_end s st (reply_walk s c st)" by simp
      then obtain r where r: "reply_walk s c st = Some r" by (auto simp: walk_end_def)
      show ?thesis
      proof (cases r)
        case None
        with r Suc Head_children show ?thesis by (simp add: reply_walk_Suc walk_end_def)
      next
        case (Some e)
        with c r st have "cur < e" "e \<le> length s" by (auto simp: walk_end_def)
        with less [of e m] Suc Head_children r Some show ?thesis by (simp add: reply_walk_Suc walk_end_def) force
      qed
    qed
  qed
qed

lemma walk_append: "reply_walk s n cur = Some (Some e) \<Longrightarrow> reply_walk (s @ x) n cur = Some (Some e)"
proof (induction "length s - cur" arbitrary: n cur e rule: less_induct)
  case less
  show ?case
  proof (cases n)
    case 0
    with less.prems show ?thesis by simp
  next
    case (Suc m)
    with less.prems have "parse_reply_head s cur \<noteq> Head_incomplete" by (auto simp: reply_walk_Suc)
    note h = head_append [OF this, of x]
    show ?thesis
    proof (cases "parse_reply_head s cur")
      case Head_incomplete
      with less.prems Suc show ?thesis by (simp add: reply_walk_Suc)
    next
      case (Head_leaf f)
      from head_leafD [OF this] have "cur < f" "f \<le> length s" by auto
      with less.prems less.hyps [of f m e] Suc Head_leaf h show ?thesis by (simp add: reply_walk_Suc)
    next
      case (Head_children c st)
      from head_childrenD [OF this] have st: "cur < st" "st \<le> length s" by auto
      from less.prems Suc Head_children obtain f where
        f: "reply_walk s c st = Some (Some f)" "reply_walk s m f = Some (Some e)"
        by (auto simp: reply_walk_Suc split: option.splits)
      with walk_returns [of s st c] st have "cur < f" by (auto simp: walk_end_def)
      with less.hyps [of st c f] less.hyps [of f m e] st f Suc Head_children h show ?thesis
        by (simp add: reply_walk_Suc)
    qed
  qed
qed

section \<open>Replies on the wire\<close>

text \<open>What the server's replies look like: a line, a counted text, a null and an aggregate of replies. A
  map announces half its elements, an attribute too, and is followed by the reply it decorates.\<close>

datatype reply = R_line char string | R_blob char string | R_nil char | R_agg char "reply list"

definition announced :: "char \<Rightarrow> nat \<Rightarrow> nat" where
  "announced c n = (if c \<in> set ''%|'' then n div 2 else n)"

primrec wire :: "reply \<Rightarrow> string" where
  "wire (R_line c t) = c # t @ crlf"
| "wire (R_blob c v) = c # to_chars_u (length v) @ crlf @ v @ crlf"
| "wire (R_nil c) = c # ''-1'' @ crlf"
| "wire (R_agg c rs) = c # to_chars_u (announced c (length rs)) @ crlf @ concat (map wire rs)"

primrec reply_ok :: "reply \<Rightarrow> bool" where
  "reply_ok (R_line c t) \<longleftrightarrow> c \<in> set ''+-:,(#_'' \<and> LF \<notin> set t"
| "reply_ok (R_blob c v) \<longleftrightarrow> c \<in> set ''$!='' \<and> length v < 2 ^ 63"
| "reply_ok (R_nil c) \<longleftrightarrow> c \<in> set ''$!=*~>''"
| "reply_ok (R_agg c rs) \<longleftrightarrow> c \<in> set ''*~>%|'' \<and> length rs < 2 ^ 63 \<and> (c = CHR ''%'' \<longrightarrow> even (length rs)) \<and>
     (c = CHR ''|'' \<longrightarrow> odd (length rs)) \<and> list_all id (map reply_ok rs)"

lemma LF_not_digits: "LF \<notin> set (to_chars_u n)"
  using list_all_to_chars_u [of n] by (auto simp: list_all_iff is_digit_def)

lemma find_crlf_line:
  assumes "LF \<notin> set t"
  shows "find_crlf (a @ t @ crlf @ b) (length a) = Some (length a + length t)"
  unfolding find_crlf_Some
proof (intro conjI allI impI)
  fix j assume j: "length a \<le> j \<and> j < length a + length t"
  show "\<not> ((a @ t @ crlf @ b) ! j = CR \<and> (a @ t @ crlf @ b) ! (j + 1) = LF)"
  proof (cases "j + 1 < length a + length t")
    case True
    with j have "(a @ t @ crlf @ b) ! (j + 1) = t ! (j + 1 - length a)" "j + 1 - length a < length t"
      by (auto simp: nth_append)
    with assms show ?thesis by (metis nth_mem)
  next
    case False
    with j have "j + 1 = length a + length t" by simp
    then have "(a @ t @ crlf @ b) ! (j + 1) = CR" by (simp only: nth_append) simp
    then show ?thesis by simp
  qed
qed (simp_all add: nth_append)

lemma from_chars_ll_number: "n < 2 ^ 63 \<Longrightarrow> from_chars_ll (to_chars_u n) = Some (int n)"
proof -
  have "to_chars_u n \<noteq> []" by (rule to_chars_u_nonempty)
  moreover have "hd (to_chars_u n) \<noteq> CHR ''-''"
    using list_all_to_chars_u [of n] \<open>to_chars_u n \<noteq> []\<close> by (cases "to_chars_u n") (auto simp: is_digit_def)
  ultimately show "n < 2 ^ 63 \<Longrightarrow> ?thesis"
    by (simp add: from_chars_ll_def list_all_to_chars_u dec_value_to_chars_u)
qed

text \<open>The head of a line with type \<open>c\<close>, the text \<open>t\<close> and what follows.\<close>

lemma head_line:
  assumes "LF \<notin> set t" and "c \<noteq> LF"
  shows "parse_reply_head (a @ c # t @ crlf @ b) (length a) =
    (let count = from_chars_ll t; line_end = length a + 1 + length t + 2
     in if c \<in> set ''+-:,(#_'' then Head_leaf line_end
        else if c \<in> set ''$!='' then
          (case count of
             None \<Rightarrow> Head_incomplete
           | Some len \<Rightarrow> if len < 0 then Head_leaf line_end
               else if nat len + 2 \<le> length b then Head_leaf (line_end + nat len + 2) else Head_incomplete)
        else if c \<in> set ''*~>'' then
          (case count of None \<Rightarrow> Head_incomplete
           | Some n \<Rightarrow> if n < 0 then Head_leaf line_end else Head_children (nat n) line_end)
        else if c \<in> set ''%|'' then
          (case count of None \<Rightarrow> Head_incomplete
           | Some n \<Rightarrow> if n < 0 then Head_incomplete
               else Head_children (nat n * 2 + (if c = CHR ''|'' then 1 else 0)) line_end)
        else Head_leaf line_end)"
proof -
  have e: "find_crlf (a @ c # t @ crlf @ b) (length a) = Some (length a + (1 + length t))"
    using find_crlf_line [of "c # t" a b] assms by simp
  have s: "substr (a @ c # t @ crlf @ b) (length a + 1) (length a + (1 + length t) - (length a + 1)) = t"
    using substr_append_mid [of "a @ [c]" t "crlf @ b"] by simp
  have l: "\<not> length (a @ c # t @ crlf @ b) \<le> length a" by simp
  have n: "(a @ c # t @ crlf @ b) ! length a = c" by simp
  have k: "(length a + (1 + length t) + 2 + m + 2 \<le> length (a @ c # t @ crlf @ b)) = (m + 2 \<le> length b)" for m
    by simp
  have q: "length a + (1 + length t) + 2 = length a + 1 + length t + 2" by simp
  show ?thesis unfolding parse_reply_head_def Let_def e option.case s n k unfolding q by (simp only: l if_False)
qed

definition skipped :: "reply \<Rightarrow> bool" where
  "skipped r \<longleftrightarrow> (\<forall>a b n. reply_walk (a @ wire r @ b) (Suc n) (length a) =
     reply_walk (a @ wire r @ b) n (length a + length (wire r)))"

lemma skippedD: "skipped r \<Longrightarrow>
    reply_walk (a @ wire r @ b) (Suc n) (length a) = reply_walk (a @ wire r @ b) n (length a + length (wire r))"
  by (simp add: skipped_def)

lemma walk_skipped:
  "\<forall>r \<in> set rs. skipped r \<Longrightarrow> reply_walk (a @ concat (map wire rs) @ b) (length rs + n) (length a) =
     reply_walk (a @ concat (map wire rs) @ b) n (length a + length (concat (map wire rs)))"
proof (induction rs arbitrary: a)
  case (Cons r rs)
  have "reply_walk (a @ wire r @ (concat (map wire rs) @ b)) (Suc (length rs + n)) (length a) =
      reply_walk ((a @ wire r) @ concat (map wire rs) @ b) (length rs + n) (length (a @ wire r))"
    using skippedD [of r a "concat (map wire rs) @ b" "length rs + n"] Cons.prems by simp
  also have "\<dots> = reply_walk ((a @ wire r) @ concat (map wire rs) @ b) n
      (length (a @ wire r) + length (concat (map wire rs)))"
    using Cons.IH [of "a @ wire r"] Cons.prems by simp
  finally show ?case by (simp add: add.assoc)
qed simp

lemma reply_skipped: "reply_ok r \<Longrightarrow> skipped r"
proof (induction r)
  case (R_line c t)
  then have n: "LF \<notin> set t" "c \<noteq> LF" "(c \<in> set ''+-:,(#_'') = True" by auto
  have "parse_reply_head (a @ c # t @ crlf @ b) (length a) = Head_leaf (length a + 1 + length t + 2)" for a b
    unfolding head_line [OF n(1,2)] n(3) by (simp add: Let_def)
  then show ?case by (simp add: skipped_def reply_walk_Suc)
next
  case (R_blob c v)
  then have n: "c \<noteq> LF" "(c \<in> set ''+-:,(#_'') = False" "(c \<in> set ''$!='') = True" "length v < 2 ^ 63" by auto
  have "parse_reply_head (a @ c # to_chars_u (length v) @ crlf @ (v @ crlf @ b)) (length a) =
      Head_leaf (length a + 1 + length (to_chars_u (length v)) + 2 + length v + 2)" for a b
    unfolding head_line [OF LF_not_digits n(1)] n(2,3) from_chars_ll_number [OF n(4)] by (simp add: Let_def)
  then show ?case by (simp add: skipped_def reply_walk_Suc add.assoc)
next
  case (R_nil c)
  have "from_chars_ll ''-1'' = Some (- 1)" by (simp add: from_chars_ll_def is_digit_def ch_to_digit_def Let_def dec_acc_def)
  moreover have "LF \<notin> set ''-1''" by simp
  moreover from R_nil have "c \<noteq> LF" "(c \<in> set ''+-:,(#_'') = False" "c \<in> set ''$!='' \<or> (c \<in> set ''$!='') = False \<and> c \<in> set ''*~>''"
    by auto
  ultimately have "parse_reply_head (a @ c # ''-1'' @ crlf @ b) (length a) = Head_leaf (length a + 1 + 2 + 2)" for a b
    using head_line [of "''-1''" c a b] by (auto simp: Let_def simp del: list.set)
  then show ?case by (simp add: skipped_def reply_walk_Suc)
next
  case (R_agg c rs)
  let ?n = "to_chars_u (announced c (length rs))"
  have "announced c (length rs) < 2 ^ 63"
    using R_agg.prems by (auto simp: announced_def intro: le_less_trans [OF div_le_dividend])
  note k = from_chars_ll_number [OF this]
  have n: "c \<noteq> LF" "(c \<in> set ''+-:,(#_'') = False" "(c \<in> set ''$!='') = False"
    "(c \<in> set ''*~>'') = (c \<notin> set ''%|'')" using R_agg.prems by auto
  have "(if c = CHR ''|'' then odd (length rs) else c \<in> set ''%|'' \<longrightarrow> even (length rs))" using R_agg.prems by auto
  then have h: "parse_reply_head (a @ c # ?n @ crlf @ b) (length a) =
      Head_children (length rs) (length a + 1 + length ?n + 2)" for a b
    unfolding head_line [OF LF_not_digits n(1)] n(2-4) Let_def unfolding k option.case unfolding announced_def
    by (cases "c = CHR ''|''"; cases "c \<in> set ''%|''") (simp_all add: odd_two_times_div_two_succ mult.commute [of _ 2])
  have "\<forall>r \<in> set rs. skipped r" using R_agg by (auto simp: list_all_iff)
  from walk_skipped [OF this, of "_ @ c # ?n @ crlf" _ 0]
  have "reply_walk (a @ c # ?n @ crlf @ concat (map wire rs) @ b) (length rs) (length a + 1 + length ?n + 2) =
      Some (Some (length a + 1 + length ?n + 2 + length (concat (map wire rs))))" for a b
    by simp
  with h show ?case by (simp add: skipped_def reply_walk_Suc add.assoc)
qed

lemma reply_end_wire: "reply_ok r \<Longrightarrow> reply_end (wire r @ b) 0 = Some (Some (length (wire r)))"
  using skippedD [OF reply_skipped, of r "[]" b 0] by (simp add: reply_end_def)

section \<open>Reading replies from the ring\<close>

lemma ring_take_Some:
  assumes "ring_seq s" and "ring_backlog s = v # vs"
  obtains r c r' c' where "con_peek (shared s) (run_cons s) = Some (Some v, r, c)" "con_pop r c = (r', c')"
    "ring_take s = (Some v, s\<lparr>shared := r', run_cons := c', delivered := delivered s @ [v]\<rparr>)"
proof -
  obtain x s' where t: "ring_take s = (x, s')" by fastforce
  with records.pop_None [OF assms(1)] assms(2) have "x \<noteq> None" by force
  then obtain w where x: "x = Some w" by blast
  with records.pop_Some [OF assms(1)] t assms(2) have "w = v" by force
  with t x that show ?thesis by (auto simp: ring_take_def split: option.splits prod.splits)
qed

lemma ring_take_None:
  assumes "ring_seq s" and "ring_backlog s = []"
  obtains r c where "con_peek (shared s) (run_cons s) = Some (None, r, c)" "ring_seq (s\<lparr>shared := r, run_cons := c\<rparr>)"
proof -
  from assms(1) obtain k m Hc H T rs where g: "geometry k" and s: "ring_state k m Hc H T rs s" and pc: "push_at s = Push_idle" "pop_at s = Pop_idle"
    by (auto simp: ring_seq_def ring_ok_def)
  from con_peek_ok [OF g s pc(2)] ring_backlog_state [OF s] assms(2) that g pc show ?thesis
    by (auto simp: ring_seq_def)
qed

text \<open>\<open>run_after s vs s'\<close>: the consumer has taken the records \<open>vs\<close>, and that is all that happened.\<close>

definition run_after :: "ring_run \<Rightarrow> string list \<Rightarrow> ring_run \<Rightarrow> bool" where
  "run_after s vs s' \<longleftrightarrow> ring_seq s' \<and> ring_backlog s = vs @ ring_backlog s' \<and> delivered s' = delivered s @ vs \<and>
     published s' = published s \<and> run_prod s' = run_prod s"

lemma reply_end_returns: "\<exists>e. reply_end p 0 = Some e \<and> (\<forall>n. e = Some n \<longrightarrow> n \<le> length p)"
  using walk_returns [of p 0 1] by (cases "reply_walk p 1 0") (auto simp: reply_end_def walk_end_def)

lemma reply_end_append: "reply_end p 0 = Some (Some n) \<Longrightarrow> reply_end (p @ x) 0 = Some (Some n)"
  unfolding reply_end_def by (rule walk_append)

lemma try_read_reply_ready:
  assumes r: "reply_ok x" and p: "p @ t = wire x @ rest" and e: "reply_end p 0 = Some (Some n)"
  shows "take n p = wire x \<and> drop n p @ t = rest"
proof -
  have "n = length (wire x)" using reply_end_append [OF e, of t] reply_end_wire [OF r, of rest] p by simp
  moreover have "n \<le> length p" using reply_end_returns [of p] e by auto
  ultimately show ?thesis using p by (metis append_eq_append_conv_if append_take_drop_id)
qed

lemma try_read_reply_next:
  assumes "reply_ok x"
  shows "ring_seq s \<Longrightarrow> p @ concat (ring_backlog s) = wire x @ rest \<Longrightarrow>
    \<exists>p' vs s'. try_read_reply p (shared s) (run_cons s) = Some (Some (wire x), p', shared s', run_cons s') \<and>
      run_after s vs s' \<and> p' @ concat (ring_backlog s') = rest"
proof (induction "ring_backlog s" arbitrary: s p)
  case Nil
  then have e: "reply_end p 0 = Some (Some (length (wire x)))" using reply_end_wire [OF assms] by simp
  then have "try_read_reply p (shared s) (run_cons s) =
      Some (Some (take (length (wire x)) p), drop (length (wire x)) p, shared s, run_cons s)"
    by (subst try_read_reply.simps) simp
  with try_read_reply_ready [OF assms Nil.prems(2) e] Nil show ?case
    by (intro exI [of _ "drop (length (wire x)) p"] exI [of _ "[]"] exI [of _ s]) (simp add: run_after_def)
next
  case (Cons v vs)
  obtain e where e: "reply_end p 0 = Some e" using reply_end_returns by blast
  show ?case
  proof (cases e)
    case (Some n)
    then have "try_read_reply p (shared s) (run_cons s) = Some (Some (take n p), drop n p, shared s, run_cons s)"
      by (subst try_read_reply.simps) (simp add: e)
    with try_read_reply_ready [OF assms Cons.prems(2)] e Some Cons.prems(1) show ?thesis
      by (intro exI [of _ "drop n p"] exI [of _ "[]"] exI [of _ s]) (simp add: run_after_def)
  next
    case None
    obtain r c r' c' where t: "con_peek (shared s) (run_cons s) = Some (Some v, r, c)" "con_pop r c = (r', c')"
      "ring_take s = (Some v, s\<lparr>shared := r', run_cons := c', delivered := delivered s @ [v]\<rparr>)"
      using ring_take_Some [OF Cons.prems(1) Cons.hyps(2) [symmetric]] by blast
    let ?s = "s\<lparr>shared := r', run_cons := c', delivered := delivered s @ [v]\<rparr>"
    have s: "ring_seq ?s" using records.pop_inv [OF Cons.prems(1)] t(3) by simp
    have b: "ring_backlog s = v # ring_backlog ?s" using records.pop_Some [OF Cons.prems(1) t(3)] .
    have "try_read_reply p (shared s) (run_cons s) = try_read_reply (p @ v) (shared ?s) (run_cons ?s)"
      by (subst try_read_reply.simps) (simp add: e None t)
    moreover from Cons.hyps(1) [of ?s "p @ v"] s b Cons.prems(2) Cons.hyps(2)
    obtain p' ws s' where "try_read_reply (p @ v) (shared ?s) (run_cons ?s) = Some (Some (wire x), p', shared s', run_cons s')"
      "run_after ?s ws s'" "p' @ concat (ring_backlog s') = rest" by auto
    ultimately show ?thesis using b
      by (intro exI [of _ p'] exI [of _ "v # ws"] exI [of _ s']) (simp add: run_after_def)
  qed
qed

text \<open>\<open>drain_cq\<close> moves all that is in the ring to the client's buffer and counts the bytes.\<close>

lemma drain_cq_ok:
  "ring_seq s \<Longrightarrow> \<exists>s'. drain_cq n p (shared s) (run_cons s) =
      Some (n + length (concat (ring_backlog s)), p @ concat (ring_backlog s), shared s', run_cons s') \<and>
    run_after s (ring_backlog s) s'"
proof (induction "ring_backlog s" arbitrary: s n p)
  case Nil
  obtain r c where "con_peek (shared s) (run_cons s) = Some (None, r, c)" and s: "ring_seq (s\<lparr>shared := r, run_cons := c\<rparr>)"
    using ring_take_None [OF Nil.prems Nil.hyps [symmetric]] by blast
  then have "drain_cq n p (shared s) (run_cons s) = Some (n, p, r, c)" by (subst drain_cq.simps) simp
  with s Nil.hyps show ?case
    by (intro exI [of _ "s\<lparr>shared := r, run_cons := c\<rparr>"]) (simp add: run_after_def ring_backlog_def)
next
  case (Cons v vs)
  obtain r c r' c' where t: "con_peek (shared s) (run_cons s) = Some (Some v, r, c)" "con_pop r c = (r', c')"
    "ring_take s = (Some v, s\<lparr>shared := r', run_cons := c', delivered := delivered s @ [v]\<rparr>)"
    using ring_take_Some [OF Cons.prems Cons.hyps(2) [symmetric]] by blast
  let ?s = "s\<lparr>shared := r', run_cons := c', delivered := delivered s @ [v]\<rparr>"
  have s: "ring_seq ?s" using records.pop_inv [OF Cons.prems] t(3) by simp
  have b: "ring_backlog s = v # ring_backlog ?s" using records.pop_Some [OF Cons.prems t(3)] .
  have "drain_cq n p (shared s) (run_cons s) = drain_cq (n + length v) (p @ v) (shared ?s) (run_cons ?s)"
    by (subst drain_cq.simps) (simp add: t)
  moreover from Cons.hyps(1) [of ?s "n + length v" "p @ v"] s b Cons.hyps(2)
  obtain s' where "drain_cq (n + length v) (p @ v) (shared ?s) (run_cons ?s) =
      Some (n + length v + length (concat (ring_backlog ?s)), (p @ v) @ concat (ring_backlog ?s), shared s', run_cons s')"
    "run_after ?s (ring_backlog ?s) s'" by auto
  ultimately show ?case using b by (intro exI [of _ s']) (simp add: run_after_def add.assoc)
qed

lemma reply_end_prefix:
  assumes "reply_ok x" and "part @ tail = wire x" and "tail \<noteq> []"
  shows "reply_end part 0 = Some None"
proof -
  obtain e where e: "reply_end part 0 = Some e" "\<forall>n. e = Some n \<longrightarrow> n \<le> length part" using reply_end_returns by blast
  have "e \<noteq> Some n" for n
  proof
    assume n: "e = Some n"
    with reply_end_append [of part n tail] reply_end_wire [OF assms(1), of "[]"] e(1) assms(2) have "n = length (part @ tail)" by simp
    with e(2) n assms(3) show False by simp
  qed
  with e(1) show ?thesis by (cases e) auto
qed

lemma try_read_reply_partial:
  "ring_seq s \<Longrightarrow> reply_end (p @ concat (ring_backlog s)) 0 = Some None \<Longrightarrow>
    \<exists>s'. try_read_reply p (shared s) (run_cons s) = Some (None, p @ concat (ring_backlog s), shared s', run_cons s') \<and>
      run_after s (ring_backlog s) s'"
proof (induction "ring_backlog s" arbitrary: s p)
  case Nil
  obtain r c where "con_peek (shared s) (run_cons s) = Some (None, r, c)" and s: "ring_seq (s\<lparr>shared := r, run_cons := c\<rparr>)"
    using ring_take_None [OF Nil.prems(1) Nil.hyps [symmetric]] by blast
  then have "try_read_reply p (shared s) (run_cons s) = Some (None, p, r, c)"
    using Nil by (subst try_read_reply.simps) simp
  with s Nil.hyps show ?case
    by (intro exI [of _ "s\<lparr>shared := r, run_cons := c\<rparr>"]) (simp add: run_after_def ring_backlog_def)
next
  case (Cons v vs)
  have n: "reply_end p 0 = Some None"
    using reply_end_returns [of p] reply_end_append [of p _ "concat (ring_backlog s)"] Cons.prems(2)
    by (metis not_None_eq option.inject)
  obtain r c r' c' where t: "con_peek (shared s) (run_cons s) = Some (Some v, r, c)" "con_pop r c = (r', c')"
    "ring_take s = (Some v, s\<lparr>shared := r', run_cons := c', delivered := delivered s @ [v]\<rparr>)"
    using ring_take_Some [OF Cons.prems(1) Cons.hyps(2) [symmetric]] by blast
  let ?s = "s\<lparr>shared := r', run_cons := c', delivered := delivered s @ [v]\<rparr>"
  have e: "try_read_reply p (shared s) (run_cons s) = try_read_reply (p @ v) (shared ?s) (run_cons ?s)"
    by (subst try_read_reply.simps) (simp add: n t)
  have s: "ring_seq ?s" using records.pop_inv [OF Cons.prems(1)] t(3) by simp
  have b: "ring_backlog s = v # ring_backlog ?s" using records.pop_Some [OF Cons.prems(1) t(3)] .
  from Cons.hyps(1) [of ?s "p @ v"] s b Cons.prems(2) Cons.hyps(2)
  obtain s' where "try_read_reply (p @ v) (shared ?s) (run_cons ?s) =
      Some (None, (p @ v) @ concat (ring_backlog ?s), shared s', run_cons s')"
    "run_after ?s (ring_backlog ?s) s'" by auto
  with e b show ?case by (intro exI [of _ s']) (simp add: run_after_def)
qed

text \<open>The client asking for replies until there is none.\<close>

definition reply_take :: "string \<times> ring \<times> consumer \<Rightarrow> string option \<times> string \<times> ring \<times> consumer" where
  "reply_take = (\<lambda>(p, r, c). case try_read_reply p r c of Some x \<Rightarrow> x | None \<Rightarrow> (None, p, r, c))"

lemma run_after_trans: "run_after s vs s' \<Longrightarrow> run_after s' ws s'' \<Longrightarrow> run_after s (vs @ ws) s''"
  by (auto simp: run_after_def)

lemma replies_taken:
  assumes part: "reply_end part 0 = Some None"
  shows "ring_seq s \<Longrightarrow> list_all reply_ok xs \<Longrightarrow> p @ concat (ring_backlog s) = concat (map wire xs) @ part \<Longrightarrow>
    \<exists>s'. drain reply_take (Suc (length xs)) (p, shared s, run_cons s) = (map wire xs, part, shared s', run_cons s') \<and>
      run_after s (ring_backlog s) s'"
proof (induction xs arbitrary: s p)
  case Nil
  with try_read_reply_partial [of s p] part show ?case by (auto simp: reply_take_def)
next
  case (Cons x xs)
  then obtain p' vs s1 where s1: "try_read_reply p (shared s) (run_cons s) = Some (Some (wire x), p', shared s1, run_cons s1)"
    "run_after s vs s1" "p' @ concat (ring_backlog s1) = concat (map wire xs) @ part"
    using try_read_reply_next [of x s p "concat (map wire xs) @ part"] by auto
  from Cons.IH [of s1 p'] s1 Cons.prems(2) obtain s2
    where s2: "drain reply_take (Suc (length xs)) (p', shared s1, run_cons s1) = (map wire xs, part, shared s2, run_cons s2)"
      "run_after s1 (ring_backlog s1) s2" by (auto simp: run_after_def)
  have "run_after s (ring_backlog s) s2" using run_after_trans [OF s1(2) s2(2)] s1(2) by (simp add: run_after_def)
  moreover have "reply_take (p, shared s, run_cons s) = (Some (wire x), p', shared s1, run_cons s1)"
    using s1(1) by (simp add: reply_take_def)
  ultimately show ?case using s2(1) by (auto simp del: drain.simps simp: drain.simps(2) [of reply_take "Suc (length xs)"])
qed

section \<open>Requests through the ring\<close>

lemma encode_command_resp: "encode_command args = resp_array args"
proof -
  have "foldl (\<lambda>out arg. out @ ''$'' @ to_chars_u (length arg) @ crlf @ arg @ crlf) a vs = a @ concat (map bulk vs)" for a vs
    by (induction vs arbitrary: a) (simp_all add: bulk_def)
  then show ?thesis by (simp add: encode_command_def resp_array_eq)
qed

definition new_intake :: intake where
  "new_intake = \<lparr>in_wire = Undecided, inbuf = [], in_parser = new_parser\<rparr>"

text \<open>Records that do not start with the magic's first byte all reach the parser.\<close>

lemma take_record_resp:
  assumes "in_wire i = Wire_resp2" and "inbuf i = []"
  shows "take_record sbe i v = i\<lparr>in_parser := parser_append (in_parser i) v\<rparr>"
  using assms by (cases i) (simp add: take_record_def Let_def)

lemma take_record_first:
  assumes "in_wire i = Undecided" "inbuf i = []" and "v \<noteq> []" "hd v \<noteq> CHR ''G''"
  shows "take_record sbe i v = i\<lparr>in_wire := Wire_resp2, in_parser := parser_append (in_parser i) v\<rparr>"
proof -
  have "match_goblin_magic v = Magic_no"
    using assms(3,4) by (cases v) (auto simp: match_goblin_magic_def kGoblinMagicBytes_def Let_def take_Cons split: nat.split)
  with assms show ?thesis by (cases i) (simp add: take_record_def Let_def)
qed

lemma take_record_empty:
  assumes "in_wire i = Undecided" "inbuf i = []"
  shows "take_record sbe i [] = (if sbe then i else i\<lparr>in_wire := Wire_resp2, in_parser := parser_append (in_parser i) []\<rparr>)"
  using assms by (cases i) (simp add: take_record_def match_goblin_magic_def kGoblinMagicBytes_def Let_def)

lemma records_to_parser:
  assumes "concat vs = [] \<or> hd (concat vs) \<noteq> CHR ''G''"
  shows "\<exists>chunks. concat chunks = concat vs \<and>
    in_parser (foldl (take_record sbe) new_intake vs) = foldl parser_append new_parser chunks"
proof -
  have resp: "in_parser (foldl (take_record sbe) i vs) = foldl parser_append (in_parser i) vs"
    if "in_wire i = Wire_resp2" "inbuf i = []" for i vs
    using that by (induction vs arbitrary: i) (simp_all add: take_record_resp)
  from assms show ?thesis
  proof (induction vs)
    case Nil
    show ?case by (intro exI [of _ "[]"]) (simp add: new_intake_def)
  next
    case (Cons v vs)
    consider "v = []" sbe | "v = []" "\<not> sbe" | "v \<noteq> []" by blast
    then show ?case
    proof cases
      case 1
      with Cons take_record_empty [of new_intake sbe] show ?thesis by (simp add: new_intake_def)
    next
      case 2
      then show ?thesis by (intro exI [of _ "v # vs"])
          (use resp [of "new_intake\<lparr>in_wire := Wire_resp2, in_parser := parser_append new_parser []\<rparr>" vs] in
            \<open>simp add: take_record_empty new_intake_def\<close>)
    next
      case 3
      then show ?thesis using Cons.prems by (intro exI [of _ "v # vs"])
          (simp add: take_record_first new_intake_def resp)
    qed
  qed
qed

section \<open>Replies into the ring\<close>















section \<open>Whole sessions\<close>



lemma reachable_seq:
  "12 \<le> k \<Longrightarrow> k \<le> 33 \<Longrightarrow> ring_reachable (2 ^ k) mirror s \<Longrightarrow> push_at s = Push_idle \<Longrightarrow> pop_at s = Pop_idle \<Longrightarrow> ring_seq s"
  using ring_reachable_ok [of k mirror s] by (auto simp: ring_seq_def geometry_def)

text \<open>A ring with both sides connected, and one with a record in it.\<close>

definition idle_run :: "u64 \<Rightarrow> bool \<Rightarrow> ring_run" where
  "idle_run cap mirror =
     (let r = new_ring cap
      in \<lparr>shared = r, run_prod = new_producer cap mirror r, run_cons = new_consumer cap mirror r,
          push_at = Push_idle, pop_at = Pop_idle, published = [], delivered = []\<rparr>)"

lemma idle_run_parts:
  "shared (idle_run cap mirror) = new_ring cap" "run_prod (idle_run cap mirror) = new_producer cap mirror (new_ring cap)"
  "push_at (idle_run cap mirror) = Push_idle" "pop_at (idle_run cap mirror) = Pop_idle"
  "published (idle_run cap mirror) = []" "delivered (idle_run cap mirror) = []"
  by (simp_all add: idle_run_def Let_def)

lemma idle_run_reachable: "ring_reachable cap mirror (idle_run cap mirror)"
proof -
  let ?r = "new_ring cap" and ?f = "fresh_run cap mirror"
  let ?a = "?f\<lparr>push_at := Push_seed (ring_head ?r)\<rparr>"
  let ?b = "?a\<lparr>run_prod := (new_producer cap mirror ?r)\<lparr>cached_head := ring_head ?r\<rparr>, push_at := Push_idle\<rparr>"
  have f: "shared ?f = ?r" "push_at ?f = Push_detached" "pop_at ?f = Pop_detached" by (simp_all add: fresh_run_def Let_def)
  have "ring_step cap mirror ?f ?a" using ring_step.push_seed [OF f(2)] f(1) by simp
  note a = ring_reachable.step [OF fresh_run_reachable this]
  have "ring_step cap mirror ?a ?b" using ring_step.push_attach [of ?a "ring_head ?r"] f(1) by simp
  note b = ring_reachable.step [OF a this]
  have "ring_step cap mirror ?b (?b\<lparr>run_cons := new_consumer cap mirror ?r, pop_at := Pop_idle\<rparr>)"
    using ring_step.pop_attach [of ?b] f(1,3) by simp
  from ring_reachable.step [OF b this] show ?thesis
    by (simp add: fresh_run_def idle_run_def Let_def new_producer_def)
qed

lemma loaded_ring:
  assumes g: "geometry k" and v: "short k v"
  obtains s where "ring_reachable (2 ^ k) mirror s" "push_at s = Push_idle" "pop_at s = Pop_idle" "published s = [v]" "delivered s = []"
proof -
  let ?s = "idle_run (2 ^ k) mirror"
  have p: "prod_ok k mirror (run_prod ?s)" "tail_pos (run_prod ?s) = of_nat 0" "cached_head (run_prod ?s) = of_nat 0"
    by (simp_all add: idle_run_parts prod_ok_def new_producer_def new_ring_def)
  have l: "length v \<le> 2 ^ k div 2 - 64" using v by (simp add: short_def)
  have "has_room (run_prod ?s) v" using has_room_iff [OF g p(1,2) l p(3)] need_bound [OF g l] by simp
  then obtain r q where t: "try_push v (shared ?s) (run_prod ?s) = (True, r, q)" by (simp add: try_push_def Let_def)
  have m: "length v \<le> unat (max_payload (run_prod ?s))" using l p(1) unat_max_payload [OF g] by (simp add: prod_ok_def)
  show ?thesis
    by (rule that [OF steps_reachable [OF try_push_steps [OF idle_run_parts(3) m t] idle_run_reachable]])
      (simp_all add: idle_run_parts)
qed

lemma ring_drained:
  assumes g: "geometry k" and r: "ring_reachable (2 ^ k) mirror s"
    and pc: "pop_at s = Pop_idle" "head_pos (run_cons s) = ring_tail (shared s)"
  shows "delivered s = published s"
proof -
  obtain Hc H T rs where s: "ring_state k mirror Hc H T rs s"
    using ring_reachable_ok [OF g r] by (auto simp: ring_ok_def)
  have "payloads rs = []"
  proof (cases rs)
    case (Cons x xs)
    from counters_differ [OF g s [unfolded this]] s pc show ?thesis by (auto simp: ring_state_def con_at_def)
  qed simp
  with s show ?thesis by (simp add: ring_state_def)
qed

section \<open>Reconnection\<close>







section \<open>Properties\<close>


text \<open>C13: requests cross the ring. The commands a client encodes, cut into records at arbitrary points and
  pushed in any interleaving with the server's reads, are the commands the server's parser hands out once
  the server has seen the ring empty, in the same order, whether or not the server also offers the binary
  protocol on that endpoint.\<close>

theorem ring_requests_delivered:
  assumes "12 \<le> k" "k \<le> 33" and "ring_reachable (2 ^ k) mirror s" and "list_all sendable cs"
    and "concat (published s) = concat (map encode_command cs)"
    and "pop_at s = Pop_idle" and "head_pos (run_cons s) = ring_tail (shared s)" and "length cs \<le> n"
  shows "fst (drain parser_pop n (in_parser (foldl (take_record sbe) new_intake (delivered s)))) = cs"
proof -
  have g: "geometry k" using assms by (simp add: geometry_def)
  have "delivered s = published s" by (rule ring_drained [OF g assms(3,6,7)])
  then have c: "concat (delivered s) = concat (map resp_array cs)" using assms(5) ext [of encode_command resp_array, OF encode_command_resp] by simp
  then have "concat (delivered s) = [] \<or> hd (concat (delivered s)) \<noteq> CHR ''G''" by (cases cs) (simp_all add: resp_array_eq)
  from records_to_parser [OF this, of sbe] c obtain chunks where "concat chunks = concat (map resp_array cs)"
    "in_parser (foldl (take_record sbe) new_intake (delivered s)) = foldl parser_append new_parser chunks" by auto
  with pipeline_delivered [OF assms(4) _ assms(8)] show ?thesis by simp
qed

theorem ring_requests_delivered_witness:
  "\<exists>s. ring_reachable (2 ^ 12) False s \<and>
     fst (drain parser_pop 2 (in_parser (foldl (take_record True) new_intake (delivered s)))) = [[''GET'', ''k''], [''PING'']]"
proof -
  let ?cs = "[[''GET'', ''k''], [''PING'']]"
  let ?v = "concat (map encode_command ?cs)"
  have g: "geometry 12" by (simp add: geometry_def)
  have "to_chars_u (Suc 0) = ''1''" "to_chars_u (Suc (Suc 0)) = ''2''" "to_chars_u (Suc (Suc (Suc 0))) = ''3''"
    "to_chars_u (Suc (Suc (Suc (Suc 0)))) = ''4''"
    by code_simp+
  then have v: "short 12 ?v" by (simp add: short_def encode_command_def)
  obtain s0 where s0: "ring_reachable (2 ^ 12) False s0" "push_at s0 = Push_idle" "pop_at s0 = Pop_idle" "published s0 = [?v]"
    using loaded_ring [OF g v, of False] by blast
  obtain Hc H T rs where "ring_state 12 False Hc H T rs s0" using ring_reachable_ok [OF g s0(1)] by (auto simp: ring_ok_def)
  from consumer_drains [OF g this] obtain s where s: "takes 12 False Hc T T [] s0 s" by blast
  then have r: "ring_reachable (2 ^ 12) False s" "published s = [?v]" "pop_at s = Pop_idle"
    using steps_reachable [OF _ s0(1)] s0(4) by (simp_all add: takes_def)
  have e: "head_pos (run_cons s) = ring_tail (shared s)" using s by (auto simp: takes_def ring_state_def con_at_def)
  have "list_all sendable ?cs" by (simp add: sendable_def kMaxArrayElements_def kMaxBulkBytes_def)
  with ring_requests_delivered [OF _ _ r(1) _ _ r(3) e, of ?cs 2 True] r(1,2) show ?thesis by auto
qed

text \<open>C14: a client reads back whole replies, in order, and nothing else. Whatever the records a reply stream
  was cut into, \<open>try_read_reply\<close> hands out each complete RESP reply (nested aggregates, maps and
  attributes included) exactly as it was written, then answers that there is none, keeping the bytes of
  the reply that is still incomplete; it always returns.\<close>

theorem ring_replies_read:
  assumes "12 \<le> k" "k \<le> 33" and "ring_reachable (2 ^ k) mirror s" and "push_at s = Push_idle" "pop_at s = Pop_idle"
    and "published s = delivered s @ vs" and "pend @ concat vs = concat (map wire xs) @ part"
    and "list_all reply_ok xs" and "reply_ok x" "part @ tail = wire x" "tail \<noteq> []"
  shows "\<exists>r c. drain reply_take (length xs + 1) (pend, shared s, run_cons s) = (map wire xs, part, r, c)"
proof -
  have s: "ring_seq s" by (rule reachable_seq [OF assms(1-5)])
  have "ring_backlog s = vs" using assms(6) by (simp add: ring_backlog_def)
  with replies_taken [OF reply_end_prefix [OF assms(9-11)] s assms(8), of pend] assms(7) show ?thesis
    by (auto simp del: drain.simps)
qed

theorem ring_replies_read_witness:
  "\<exists>s r c. ring_reachable (2 ^ 12) False s \<and> published s = [''i'' @ crlf @ ''+OK'' @ crlf @ '':7''] \<and>
     drain reply_take 3 (''$2'' @ crlf @ ''h'', shared s, run_cons s) = ([''$2'' @ crlf @ ''hi'' @ crlf, ''+OK'' @ crlf], '':7'', r, c)"
proof -
  let ?v = "''i'' @ crlf @ ''+OK'' @ crlf @ '':7''"
  let ?xs = "[R_blob CHR ''$'' ''hi'', R_line CHR ''+'' ''OK'']"
  obtain s where s: "ring_reachable (2 ^ 12) False s" "push_at s = Push_idle" "pop_at s = Pop_idle" "published s = [?v]" "delivered s = []"
    using loaded_ring [of 12 ?v False] by (auto simp: geometry_def short_def)
  have d: "to_chars_u (Suc (Suc 0)) = ''2''" by code_simp
  have w: "map wire ?xs = [''$2'' @ crlf @ ''hi'' @ crlf, ''+OK'' @ crlf]" by (simp add: d)
  have "\<exists>r c. drain reply_take (length ?xs + 1) (''$2'' @ crlf @ ''h'', shared s, run_cons s) = (map wire ?xs, '':7'', r, c)"
    by (rule ring_replies_read [OF _ _ s(1-3), where vs = "[?v]" and x = "R_line CHR '':'' ''7''" and tail = crlf])
      (simp_all add: s(4,5) d)
  moreover have "length ?xs + 1 = 3" by simp
  ultimately show ?thesis unfolding w using s(1,4) by (metis (no_types))
qed







end
