(* ===== verification/Spec2Isabelle.thy ===== *)
theory Spec2Isabelle
  imports Goblin_Prelude Fifo Parse_Int Resp_Parser Resp_Parser_Correct
    String_Encoding String_Encoding_Correct Resp_Writer Resp_Writer_Correct List_Listpack_Correct
    Transaction Transaction_Exec Transaction_Correct
    Output_Queue Client_Output Client_Output_Correct Glob_Match Glob_Match_Correct
    PubSub PubSub_Correct Ring_Buffer Ring_Buffer_Correct Ring_Session Ring_Session_Correct
begin

text \<open>
  Goblin Core is an in-memory data server that speaks the Redis protocol. This development models the
  path of a request through it and a number of its data representations, on the level of bytes
  wherever the program works on bytes, and proves them correct.

  \<^bold>\<open>How the parts interact.\<close> Bytes from a connection go to the incremental request parser, which cuts
  them into commands; the dispatcher handles transaction control and Pub/Sub itself and passes
  everything else to the executor; replies are written by the reply writer into the output of the
  connection, where they are merged with the frames that publications push, and sent in that order.
  Values are kept in the stored string encoding, short lists in a compact list of such values. A client
  on the same machine can use a pair of shared-memory rings instead of a socket: its requests and the
  replies travel as records, and the same parser and output code stand behind them.

  \<^bold>\<open>Theories.\<close>
  \<^item> \<open>Goblin_Prelude\<close>: bytes, little- and big-endian integers, reading and writing of memory.
  \<^item> \<open>Fifo\<close>: the locales \<open>fifo_source\<close> and \<open>fifo_queue\<close>, the contract of every component that hands items
    over in order; interpreted on the request parser, the output queue and the shared-memory ring.
  \<^item> \<open>Swar_Digits\<close>, \<open>Parse_Int\<close>: \<open>include/goblin/core/parse_int.hpp\<close> and the integer parser of
    fast_float under it, eight digits at a time. Which texts are accepted and with which value.
  \<^item> \<open>Resp_Parser\<close>, \<open>Resp_Parser_Correct\<close>: \<open>src/resp_parser.cpp\<close> and the vectorised line search. The parser
    object refines a queue of decoded commands, its field ranges stay in the buffer, and how the input
    is cut into reads does not matter, except for the limit on inline commands.
  \<^item> \<open>String_Encoding\<close>, \<open>String_Encoding_Correct\<close>: \<open>src/string_encoding.cpp\<close>. Round trip of every form,
    comparison, size bounds, packed options, and the digit strings the integer form does not keep.
  \<^item> \<open>Resp_Writer\<close>, \<open>Resp_Writer_Correct\<close>: \<open>include/goblin/core/resp_writer.hpp\<close>. Writers that fill reserved
    memory equal plain appending; commands written by a client come out of the request parser.
  \<^item> \<open>List_Listpack\<close>, \<open>List_Listpack_Correct\<close>: \<open>include/goblin/core/list_listpack.hpp\<close>. Every mutation
    refines the operation on a list of strings, whatever fresh memory holds.
  \<^item> \<open>Transaction\<close>, \<open>Transaction_Exec\<close>, \<open>Transaction_Correct\<close>: \<open>src/transaction.cpp\<close> and the dispatcher of
    \<open>src/server.cpp\<close>. The guarantee of WATCH under interleaved requests, the invariant of all reachable
    servers, queueing of commands.
  \<^item> \<open>Output_Queue\<close>, \<open>Client_Output\<close>, \<open>Client_Output_Correct\<close>: the queue of pushed frames of \<open>src/pubsub.cpp\<close> and
    the output of a connection in \<open>src/server.cpp\<close>. Everything is sent once and in order, and a transport
    that makes progress drains it.
  \<^item> \<open>Glob_Match\<close>, \<open>Glob_Match_Correct\<close>: the pattern matchers of \<open>src/pubsub.cpp\<close> and \<open>src/command.cpp\<close>. Both end
    on every input; the first decides the declarative meaning of a pattern; where the second differs.
  \<^item> \<open>PubSub\<close>, \<open>PubSub_Correct\<close>: the registry of \<open>src/pubsub.cpp\<close>. Its tables agree in every reachable state,
    it implements a relation between connections and names, and a publication reaches the connections
    that relation names.
  \<^item> \<open>Ring_Buffer\<close>, \<open>Ring_Buffer_Correct\<close>: \<open>include/goblin/core/ring_buffer.hpp\<close>. Producer and consumer as
    functions on the mapping, and as a step relation whose steps are the single loads, stores and copied bytes
    of both, with crashes and reconnections. Records arrive intact and in order in every interleaving and
    across the wrap-around of the counters, no access leaves the mapping, and the ring never gets stuck.
    Capacities are powers of two from 2^12 (the smallest page) to 2^33: beyond that a record may be longer
    than the 32 bits its length is stored in.
  \<^item> \<open>Ring_Session\<close>, \<open>Ring_Session_Correct\<close>: \<open>include/goblin/core/ring_client.hpp\<close> and the polled endpoints of
    \<open>src/server.cpp\<close>. The search for the end of a reply returns and is right on every reply; requests reach the
    parser and replies the client, unchanged and in order; a new client finds nothing of the previous one.

  \<^bold>\<open>Conventions.\<close> Definitions carry the names of the source. An object is a record of its fields and is
  passed and returned; an error or an early return is a value. A loop that might not end is a partial
  function into \<open>option\<close>, where \<open>None\<close> is not returning, and the theorems show that it returns; no definition
  uses fuel. Sizes are natural numbers; integers whose wrap-around the program relies on, or could hit,
  are 64-bit words. Libraries are arguments: LZ4 (record \<open>lz4\<close>, with \<open>lz4_ok\<close> as what the code relies
  on), floating-point formatting (\<open>double_ops\<close>), the command executor and the other runtimes of the server
  (\<open>engine\<close>), the enumeration order of a hash table (\<open>layout\<close>), the answers of a transport (\<open>io\<close>).

  \<^bold>\<open>Not modelled.\<close> The executors of the data commands and the store (\<open>src/command.cpp\<close>, \<open>src/store.cpp\<close>); sorted
  sets, hashes, sets, large lists and arrays, whose templates choose between many node layouts; the binary
  SBE protocol, whose codecs are generated, and with it the delivery to aggregate connections; persistence
  and replication, scripting engines, authentication and the network transports, which are driven by
  libraries and the operating system; creating and mapping a ring's file and waiting on it; the server loop
  and the command line.
\<close>

end
